(* ===== verification/Prelude.thy ===== *)
theory Prelude
  imports Main "HOL-Library.Word"
begin

text \<open>
  Shared ground of the development: the machine integers of the C sources as words, byte
  arrays as lists of bytes, the little-endian and big-endian views that the sources take of
  a byte array by casting its address, block copies (\<open>memcpy\<close>) into the middle of an array,
  and the cutting of a message into blocks.  The lemmas are generic; the component theories
  use them through the simplifier and through the collections \<open>byte_simps\<close>,
  \<open>mem_simps\<close> and \<open>xor_simps\<close>.
\<close>

unbundle bit_operations_syntax

section \<open>Types and collections\<close>

type_synonym byte = "8 word"
type_synonym u16 = "16 word"
type_synonym u32 = "32 word"
type_synonym u64 = "64 word"
type_synonym bytes = "byte list"

named_theorems byte_simps \<open>words as byte arrays\<close>
named_theorems mem_simps \<open>reads and writes of array slices\<close>
named_theorems xor_simps \<open>exclusive or of byte arrays\<close>

section \<open>Exclusive or on words and on byte arrays\<close>

lemma word_xor_cancel_left [simp, xor_simps]: "(x::'a::len word) XOR (x XOR y) = y"
  by (simp flip: xor.assoc)

lemma word_xor_cancel_right [simp, xor_simps]: "((x::'a::len word) XOR y) XOR y = x"
  by (simp add: xor.assoc)

lemmas xor_ac = xor.assoc xor.commute xor.left_commute

definition xor_bytes :: "bytes \<Rightarrow> bytes \<Rightarrow> bytes" where
  "xor_bytes xs ys = map2 (XOR) xs ys"

lemma length_xor_bytes [simp]: "length (xor_bytes xs ys) = min (length xs) (length ys)"
  by (simp add: xor_bytes_def)

lemma nth_xor_bytes [simp]:
  "i < length xs \<Longrightarrow> i < length ys \<Longrightarrow> xor_bytes xs ys ! i = xs ! i XOR ys ! i"
  by (simp add: xor_bytes_def)

lemma xor_bytes_Nil [simp]: "xor_bytes [] ys = []" "xor_bytes xs [] = []"
  by (simp_all add: xor_bytes_def)

lemma xor_bytes_Cons [simp]: "xor_bytes (x # xs) (y # ys) = (x XOR y) # xor_bytes xs ys"
  by (simp add: xor_bytes_def)

lemma xor_bytes_cancel [simp, xor_simps]:
  "length xs = length ys \<Longrightarrow> xor_bytes (xor_bytes xs ys) ys = xs"
  by (rule nth_equalityI) simp_all

lemma xor_bytes_commute: "xor_bytes xs ys = xor_bytes ys xs"
  by (rule nth_equalityI) (simp_all add: xor.commute)

lemma xor_bytes_append [xor_simps]:
  "length xs = length ys \<Longrightarrow> xor_bytes (xs @ us) (ys @ vs) = xor_bytes xs ys @ xor_bytes us vs"
  by (simp add: xor_bytes_def)

section \<open>Slices: reading and writing a range of an array\<close>

text \<open>
  \<open>slice xs off n\<close> is the \<open>n\<close> elements from \<open>xs + off\<close>; \<open>blit xs off ys\<close> is the array
  after \<open>memcpy(xs + off, ys, length ys)\<close>.
\<close>

definition slice :: "'a list \<Rightarrow> nat \<Rightarrow> nat \<Rightarrow> 'a list" where
  "slice xs off n = take n (drop off xs)"

definition blit :: "'a list \<Rightarrow> nat \<Rightarrow> 'a list \<Rightarrow> 'a list" where
  "blit xs off ys = take off xs @ ys @ drop (off + length ys) xs"

lemma length_slice [simp]: "length (slice xs off n) = min n (length xs - off)"
  by (simp add: slice_def)

lemma length_slice_in [mem_simps]: "off + n \<le> length xs \<Longrightarrow> length (slice xs off n) = n"
  by simp

lemma nth_slice [simp]: "i < n \<Longrightarrow> off + i < length xs \<Longrightarrow> slice xs off n ! i = xs ! (off + i)"
  by (simp add: slice_def)

lemma length_blit [simp]: "off + length ys \<le> length xs \<Longrightarrow> length (blit xs off ys) = length xs"
  by (simp add: blit_def)

lemma nth_blit:
  assumes "off + length ys \<le> length xs" "i < length xs"
  shows "blit xs off ys ! i =
    (if off \<le> i \<and> i < off + length ys then ys ! (i - off) else xs ! i)"
  using assms by (auto simp: blit_def nth_append min_def)

lemma slice_blit_same [simp, mem_simps]:
  "off + length ys \<le> length xs \<Longrightarrow> n = length ys \<Longrightarrow> slice (blit xs off ys) off n = ys"
  by (simp add: slice_def blit_def)

lemma slice_blit_disjoint [mem_simps]:
  assumes "off + length ys \<le> length xs" "a + n \<le> length xs"
    and "a + n \<le> off \<or> off + length ys \<le> a"
  shows "slice (blit xs off ys) a n = slice xs a n"
  using assms by (intro nth_equalityI) (auto simp: nth_blit)

lemma blit_slice_id [mem_simps]: "off + n \<le> length xs \<Longrightarrow> blit xs off (slice xs off n) = xs"
  by (rule nth_equalityI) (auto simp: nth_blit)

lemma blit_blit_same [mem_simps]:
  "off + length ys \<le> length xs \<Longrightarrow> length zs = length ys \<Longrightarrow>
   blit (blit xs off ys) off zs = blit xs off zs"
  by (rule nth_equalityI) (auto simp: nth_blit)

lemma slice_append_left [simp]: "off + n \<le> length xs \<Longrightarrow> slice (xs @ ys) off n = slice xs off n"
  by (simp add: slice_def)

lemma slice_append_right [simp]:
  "length xs \<le> off \<Longrightarrow> slice (xs @ ys) off n = slice ys (off - length xs) n"
  by (simp add: slice_def)

lemma slice_all [simp]: "n = length xs \<Longrightarrow> slice xs 0 n = xs"
  by (simp add: slice_def)

lemma blit_append_end [mem_simps]:
  "off = length xs \<Longrightarrow> length zs = length ys \<Longrightarrow> blit (xs @ ys) off zs = xs @ zs"
  by (simp add: blit_def)

lemma list_update_as_blit: "i < length xs \<Longrightarrow> xs[i := x] = blit xs i [x]"
  by (rule nth_equalityI) (auto simp: nth_blit nth_list_update)

section \<open>Words and their bytes\<close>

text \<open>
  \<open>le_word bs\<close> is the value read from the bytes \<open>bs\<close> through a pointer to an unsigned integer
  type on a little-endian machine; \<open>le_bytes n w\<close> is the \<open>n\<close> bytes that storing \<open>w\<close> leaves.
\<close>

fun le_word :: "bytes \<Rightarrow> 'a::len word" where
  "le_word [] = 0"
| "le_word (b # bs) = ucast b OR push_bit 8 (le_word bs)"

primrec le_bytes :: "nat \<Rightarrow> 'a::len word \<Rightarrow> bytes" where
  "le_bytes 0 w = []"
| "le_bytes (Suc n) w = ucast w # le_bytes n (drop_bit 8 w)"

abbreviation be_word :: "bytes \<Rightarrow> 'a::len word" where
  "be_word bs \<equiv> le_word (rev bs)"

abbreviation be_bytes :: "nat \<Rightarrow> 'a::len word \<Rightarrow> bytes" where
  "be_bytes n w \<equiv> rev (le_bytes n w)"

lemma length_le_bytes [simp]: "length (le_bytes n w) = n"
  by (induction n arbitrary: w) simp_all

lemma bit_le_word:
  "bit (le_word bs :: 'a::len word) i \<longleftrightarrow>
     i < LENGTH('a) \<and> i div 8 < length bs \<and> bit (bs ! (i div 8)) (i mod 8)"
proof (induction bs arbitrary: i)
  case Nil
  then show ?case by simp
next
  case (Cons b bs)
  show ?case
  proof (cases "i < 8")
    case True
    then show ?thesis
      by (auto simp: bit_or_iff bit_ucast_iff bit_push_bit_iff dest: bit_imp_le_length)
  next
    case False
    then obtain j where "i = j + 8"
      using le_Suc_ex [of 8 i] by (auto simp: not_less)
    then have "i div 8 = Suc ((i - 8) div 8)" "i mod 8 = (i - 8) mod 8"
      by simp_all
    moreover have "\<not> bit b i"
      using False by (auto dest: bit_imp_le_length)
    ultimately show ?thesis
      using False
      by (auto simp: bit_or_iff bit_ucast_iff bit_push_bit_iff Cons.IH dest: bit_imp_le_length)
  qed
qed

lemma nth_le_bytes: "i < n \<Longrightarrow> le_bytes n w ! i = ucast (drop_bit (8 * i) w)"
proof (induction n arbitrary: w i)
  case 0
  then show ?case by simp
next
  case (Suc n)
  then show ?case
    by (cases i) (simp_all add: drop_bit_drop_bit add.commute)
qed

lemma le_word_le_bytes [simp, byte_simps]:
  fixes w :: "'a::len word"
  assumes "LENGTH('a) \<le> 8 * n"
  shows "le_word (le_bytes n w) = w"
proof (rule bit_word_eqI)
  fix i assume i: "i < LENGTH('a)"
  then have d: "i div 8 < n" using assms by linarith
  have s: "8 * (i div 8) + i mod 8 = i" by simp
  show "bit (le_word (le_bytes n w) :: 'a word) i = bit w i"
    using i d by (simp add: bit_le_word nth_le_bytes bit_ucast_iff bit_drop_bit_eq s)
qed

lemma le_bytes_le_word [simp, byte_simps]:
  assumes "n = length bs" "8 * n \<le> LENGTH('a)"
  shows "le_bytes n (le_word bs :: 'a::len word) = bs"
proof (rule nth_equalityI)
  show "length (le_bytes n (le_word bs :: 'a word)) = length bs" using assms by simp
next
  fix i assume "i < length (le_bytes n (le_word bs :: 'a word))"
  then have i: "i < n" by simp
  show "le_bytes n (le_word bs :: 'a word) ! i = bs ! i"
  proof (rule bit_word_eqI)
    fix k assume k: "k < LENGTH(8)"
    then have "8 * i + k < LENGTH('a)" using i assms by simp
    then show "bit (le_bytes n (le_word bs :: 'a word) ! i) k = bit (bs ! i) k"
      using i k assms by (simp add: nth_le_bytes bit_ucast_iff bit_drop_bit_eq bit_le_word)
  qed
qed

lemma le_word_inject:
  assumes "length xs = length ys" "8 * length xs \<le> LENGTH('a)"
  shows "(le_word xs :: 'a::len word) = le_word ys \<longleftrightarrow> xs = ys"
  by (metis assms le_bytes_le_word)

lemma le_word_xor [byte_simps]:
  assumes "length xs = length ys"
  shows "(le_word (xor_bytes xs ys) :: 'a::len word) = le_word xs XOR le_word ys"
  by (rule bit_word_eqI) (use assms in \<open>auto simp: bit_le_word bit_xor_iff\<close>)

lemma ucast_xor [byte_simps]: "(ucast (v XOR w) :: 'b::len word) = ucast v XOR ucast w"
  by (rule bit_word_eqI) (auto simp: bit_ucast_iff bit_xor_iff dest: bit_imp_le_length)

lemma le_bytes_xor [byte_simps]:
  "le_bytes n (v XOR w) = xor_bytes (le_bytes n v) (le_bytes n w)"
  by (induction n arbitrary: v w) (simp_all add: drop_bit_xor ucast_xor)

lemma unat_pow2:
  assumes "i < LENGTH('a)"
  shows "unat ((2::'a::len word) ^ i) = 2 ^ i"
proof -
  have "(2::nat) ^ i < 2 ^ LENGTH('a)" using assms by (rule power_strict_increasing) simp
  then show ?thesis using unat_of_nat [of "2 ^ i", where 'a = 'a] by simp
qed

section \<open>Rotations written with two shifts\<close>

lemma rotl_shift_or:
  fixes x :: "'a::len word"
  assumes "0 < y" "y < LENGTH('a)"
  shows "push_bit y x OR drop_bit (LENGTH('a) - y) x = word_rotl y x"
proof (rule bit_word_eqI)
  fix n assume n: "n < LENGTH('a)"
  have "(n + LENGTH('a) - y) mod LENGTH('a) = (if y \<le> n then n - y else n + LENGTH('a) - y)"
  proof (cases "y \<le> n")
    case True
    then have "(n + LENGTH('a) - y) mod LENGTH('a) = (n - y) mod LENGTH('a)"
      by (metis Nat.add_diff_assoc2 mod_add_self2)
    then show ?thesis using True n by simp
  qed (use assms in simp)
  then show "bit (push_bit y x OR drop_bit (LENGTH('a) - y) x) n = bit (word_rotl y x) n"
    using n assms
    by (auto simp: bit_word_rotl_iff bit_or_iff bit_push_bit_iff bit_drop_bit_eq add.commute
        dest: bit_imp_le_length)
qed

section \<open>A byte array seen as an array of words\<close>

fun words_of :: "nat \<Rightarrow> nat \<Rightarrow> bytes \<Rightarrow> 'a::len word list" where
  "words_of n 0 bs = []"
| "words_of n (Suc k) bs = le_word (take n bs) # words_of n k (drop n bs)"

definition bytes_of :: "nat \<Rightarrow> 'a::len word list \<Rightarrow> bytes" where
  "bytes_of n ws = concat (map (le_bytes n) ws)"

lemma length_words_of [simp]: "length (words_of n k bs) = k"
  by (induction n k bs rule: words_of.induct) simp_all

lemma bytes_of_Nil [simp]: "bytes_of n [] = []"
  and bytes_of_Cons [simp]: "bytes_of n (w # ws) = le_bytes n w @ bytes_of n ws"
  by (simp_all add: bytes_of_def)

lemma length_bytes_of [simp]: "length (bytes_of n ws) = n * length ws"
  by (induction ws) simp_all

lemma bytes_of_words_of [simp, byte_simps]:
  "length bs = n * k \<Longrightarrow> 8 * n \<le> LENGTH('a) \<Longrightarrow>
   bytes_of n (words_of n k bs :: 'a::len word list) = bs"
  by (induction n k bs rule: words_of.induct) simp_all

lemma words_of_bytes_of [simp, byte_simps]:
  "LENGTH('a) \<le> 8 * n \<Longrightarrow> k = length ws \<Longrightarrow>
   words_of n k (bytes_of n (ws :: 'a::len word list)) = ws"
  by (induction ws arbitrary: k) simp_all

lemma nth_words_of: "i < k \<Longrightarrow> words_of n k bs ! i = le_word (slice bs (n * i) n)"
proof (induction n k bs arbitrary: i rule: words_of.induct)
  case (2 n k bs)
  then show ?case
    by (cases i) (simp_all add: slice_def add.commute)
qed simp

lemma slice_bytes_of [mem_simps]:
  "i < length ws \<Longrightarrow> slice (bytes_of n ws) (n * i) n = le_bytes n (ws ! i)"
proof (induction ws arbitrary: i)
  case (Cons w ws)
  then show ?case by (cases i) (simp_all add: slice_def)
qed simp

lemma slice_xor_bytes [mem_simps]: "slice (xor_bytes xs ys) off n = xor_bytes (slice xs off n) (slice ys off n)"
  by (simp add: slice_def xor_bytes_def drop_map take_map drop_zip take_zip)

lemma le_word_zeros [simp]: "le_word (replicate n 0) = 0"
  by (induction n) simp_all

lemma slice_replicate [mem_simps]: "slice (replicate m x) off n = replicate (min n (m - off)) x"
  by (simp add: slice_def)

section \<open>Cutting a message into blocks\<close>

text \<open>\<open>chunks n xs\<close>: the successive blocks of \<open>n\<close> elements; a shorter rest comes last.\<close>

function chunks :: "nat \<Rightarrow> 'a list \<Rightarrow> 'a list list" where
  "chunks n xs = (if n = 0 \<or> xs = [] then [] else take n xs # chunks n (drop n xs))"
  by pat_completeness auto
termination
  by (relation "measure (\<lambda>(n, xs). length xs)") auto

declare chunks.simps [simp del]

lemma chunks_Nil [simp]: "chunks n [] = []"
  by (simp add: chunks.simps)

lemma chunks_append:
  "0 < n \<Longrightarrow> length xs = n \<Longrightarrow> chunks n (xs @ ys) = xs # chunks n ys"
  by (subst chunks.simps) auto

lemma chunks_short: "0 < length xs \<Longrightarrow> length xs \<le> n \<Longrightarrow> chunks n xs = [xs]"
  by (cases n) (simp_all add: chunks.simps [of _ xs])

lemma concat_chunks: "0 < n \<Longrightarrow> concat (chunks n xs) = xs"
proof (induction n xs rule: chunks.induct)
  case (1 n xs)
  then show ?case by (subst chunks.simps) auto
qed

lemma length_chunks_mult: "0 < n \<Longrightarrow> length xs = n * k \<Longrightarrow> length (chunks n xs) = k"
proof (induction k arbitrary: xs)
  case 0
  then show ?case by simp
next
  case (Suc k)
  then have "xs \<noteq> []" "length (drop n xs) = n * k" by auto
  then show ?case using Suc.IH [of "drop n xs"] Suc.prems(1) by (subst chunks.simps) simp
qed

lemma chunks_append_mult:
  "0 < n \<Longrightarrow> length xs = n * k \<Longrightarrow> chunks n (xs @ ys) = chunks n xs @ chunks n ys"
proof (induction k arbitrary: xs)
  case 0
  then show ?case by simp
next
  case (Suc k)
  then have len: "length (take n xs) = n" "length (drop n xs) = n * k" by auto
  have "chunks n (xs @ ys) = chunks n (take n xs @ (drop n xs @ ys))"
    by (simp flip: append_assoc)
  also have "\<dots> = take n xs # chunks n (drop n xs @ ys)"
    using Suc.prems(1) len(1) by (rule chunks_append)
  also have "\<dots> = take n xs # chunks n (drop n xs) @ chunks n ys"
    using Suc.IH [OF Suc.prems(1) len(2)] by simp
  also have "\<dots> = chunks n (take n xs @ drop n xs) @ chunks n ys"
    using Suc.prems(1) len(1) by (simp only: chunks_append) simp
  finally show ?case by simp
qed

section \<open>Short index ranges\<close>

lemma upt_8: "[0..<8] = [0, 1, 2, 3, 4, 5, 6, 7]"
  by code_simp

lemma upt_16: "[0..<16] = [0, 1, 2, 3, 4, 5, 6, 7, 8, 9, 10, 11, 12, 13, 14, 15]"
  by code_simp

lemma list_8_ex: "length h = 8 \<Longrightarrow> \<exists>h0 h1 h2 h3 h4 h5 h6 h7. h = [h0, h1, h2, h3, h4, h5, h6, h7]"
  by (auto simp: length_Suc_conv eval_nat_numeral)

end
