(* ===== verification/Keccak.thy ===== *)
theory Keccak
  imports Prelude
begin

text \<open>
  The Keccak hash of \<^verbatim>\<open>libcryptonote/crypto/keccak.c\<close> and its users in
  \<^verbatim>\<open>libcryptonote/crypto/hash.c\<close>: the permutation \<open>keccakf\<close> with its five steps as the
  code's loops write them, the sponge \<open>keccak\<close> with its guards (a violated guard aborts the
  process, an absorbing loop that never ends is the value \<open>None\<close>), and \<open>hash_process\<close>,
  \<open>hash_permutation\<close> and \<open>cn_fast_hash\<close>.  The reference is the coordinate-wise definition
  of Keccak-p[1600, 24] (lanes \<open>A[x, y]\<close>, rotation offsets and round constants generated by
  their recurrences) and the sponge over the padded message.
\<close>

section \<open>The permutation as the code computes it\<close>

definition ROTL64 :: "u64 \<Rightarrow> nat \<Rightarrow> u64" where
  "ROTL64 x y = (push_bit y x OR drop_bit (64 - y) x)"

definition KECCAK_ROUNDS :: nat where
  "KECCAK_ROUNDS = 24"

definition keccakf_rndc :: "u64 list" where
  "keccakf_rndc = [
    0x0000000000000001, 0x0000000000008082, 0x800000000000808a,
    0x8000000080008000, 0x000000000000808b, 0x0000000080000001,
    0x8000000080008081, 0x8000000000008009, 0x000000000000008a,
    0x0000000000000088, 0x0000000080008009, 0x000000008000000a,
    0x000000008000808b, 0x800000000000008b, 0x8000000000008089,
    0x8000000000008003, 0x8000000000008002, 0x8000000000000080,
    0x000000000000800a, 0x800000008000000a, 0x8000000080008081,
    0x8000000000008080, 0x0000000080000001, 0x8000000080008008]"

definition keccakf_rotc :: "nat list" where
  "keccakf_rotc = [
    1, 3, 6, 10, 15, 21, 28, 36, 45, 55, 2, 14,
    27, 41, 56, 8, 25, 43, 62, 18, 39, 61, 20, 44]"

definition keccakf_piln :: "nat list" where
  "keccakf_piln = [
    10, 7, 11, 17, 18, 3, 5, 16, 8, 21, 24, 4,
    15, 23, 19, 13, 12, 2, 20, 14, 22, 9, 6, 1]"

definition keccakf_theta :: "u64 list \<Rightarrow> u64 list" where
  "keccakf_theta st =
     (let bc = map (\<lambda>i. st ! i XOR st ! (i + 5) XOR st ! (i + 10) XOR st ! (i + 15)
                         XOR st ! (i + 20)) [0..<5]
      in fold (\<lambda>i st.
           let t = bc ! ((i + 4) mod 5) XOR ROTL64 (bc ! ((i + 1) mod 5)) 1
           in fold (\<lambda>j st. st[j + i := st ! (j + i) XOR t]) [0, 5, 10, 15, 20] st) [0..<5] st)"

definition keccakf_rhopi :: "u64 list \<Rightarrow> u64 list" where
  "keccakf_rhopi st =
     fst (fold (\<lambda>i (st, t).
            let j = keccakf_piln ! i
            in (st[j := ROTL64 t (keccakf_rotc ! i)], st ! j)) [0..<24] (st, st ! 1))"

definition keccakf_chi :: "u64 list \<Rightarrow> u64 list" where
  "keccakf_chi st =
     fold (\<lambda>j st.
       let bc = map (\<lambda>i. st ! (j + i)) [0..<5]
       in fold (\<lambda>i st. st[j + i := st ! (j + i) XOR
                 (NOT (bc ! ((i + 1) mod 5)) AND bc ! ((i + 2) mod 5))]) [0..<5] st)
       [0, 5, 10, 15, 20] st"

definition keccakf_iota :: "nat \<Rightarrow> u64 list \<Rightarrow> u64 list" where
  "keccakf_iota round st = st[0 := st ! 0 XOR keccakf_rndc ! round]"

definition keccakf :: "u64 list \<Rightarrow> nat \<Rightarrow> u64 list" where
  "keccakf st rounds =
     fold (\<lambda>round st. keccakf_iota round (keccakf_chi (keccakf_rhopi (keccakf_theta st))))
       [0..<rounds] st"

section \<open>The sponge as the code computes it\<close>

datatype keccak_error = Bad_keccak_use

definition HASH_SIZE :: nat where
  "HASH_SIZE = 32"

definition HASH_DATA_AREA :: nat where
  "HASH_DATA_AREA = 136"

text \<open>\<open>for (i = 0; i < rsizw; i++) st[i] ^= ((uint64_t *) in)[i];\<close>\<close>

definition keccak_xor_in :: "u64 list \<Rightarrow> nat \<Rightarrow> bytes \<Rightarrow> u64 list" where
  "keccak_xor_in st rsizw inp =
     fold (\<lambda>i st. st[i := st ! i XOR le_word (slice inp (8 * i) 8)]) [0..<rsizw] st"

partial_function (option) keccak_absorb ::
    "nat \<Rightarrow> bytes \<Rightarrow> u64 list \<Rightarrow> (bytes \<times> u64 list) option" where
  "keccak_absorb rsiz inp st =
     (if rsiz \<le> length inp
      then keccak_absorb rsiz (drop rsiz inp)
             (keccakf (keccak_xor_in st (rsiz div 8) inp) KECCAK_ROUNDS)
      else Some (inp, st))"

definition keccak_rsiz :: "int \<Rightarrow> nat" where
  "keccak_rsiz mdlen = (if mdlen = 200 then HASH_DATA_AREA else nat (200 - 2 * mdlen))"

text \<open>The last block: the message rest, a 1 byte, zeros, and the top bit of the last byte.\<close>

definition keccak_last_block :: "nat \<Rightarrow> bytes \<Rightarrow> bytes" where
  "keccak_last_block rsiz inp =
     (let temp = inp @ [1] @ replicate (rsiz - Suc (length inp)) 0
      in temp[rsiz - 1 := temp ! (rsiz - 1) OR 0x80])"

definition keccak_finish :: "nat \<Rightarrow> int \<Rightarrow> bytes \<Rightarrow> u64 list \<Rightarrow> keccak_error + bytes" where
  "keccak_finish rsiz mdlen inp st =
     (if length inp + 1 \<ge> 144 \<or> length inp > rsiz \<or> rsiz + 1 \<ge> 144 \<or> rsiz = 0 \<or> rsiz - 1 \<ge> 144
         \<or> rsiz div 8 * 8 > 144
      then Inl Bad_keccak_use
      else Inr (take (nat mdlen) (bytes_of 8
             (keccakf (keccak_xor_in st (rsiz div 8) (keccak_last_block rsiz inp)) KECCAK_ROUNDS))))"

definition keccak :: "bytes \<Rightarrow> int \<Rightarrow> (keccak_error + bytes) option" where
  "keccak inp mdlen =
     (if mdlen \<le> 0 \<or> (mdlen > 100 \<and> mdlen \<noteq> 200) then Some (Inl Bad_keccak_use)
      else case keccak_absorb (keccak_rsiz mdlen) inp (replicate 25 0) of
             None \<Rightarrow> None
           | Some (rest, st) \<Rightarrow> Some (keccak_finish (keccak_rsiz mdlen) mdlen rest st))"

definition keccak1600 :: "bytes \<Rightarrow> (keccak_error + bytes) option" where
  "keccak1600 inp = keccak inp 200"

definition hash_permutation :: "bytes \<Rightarrow> bytes" where
  "hash_permutation state = bytes_of 8 (keccakf (words_of 8 25 state) 24)"

definition hash_process :: "bytes \<Rightarrow> (keccak_error + bytes) option" where
  "hash_process buf = keccak1600 buf"

definition cn_fast_hash :: "bytes \<Rightarrow> (keccak_error + bytes) option" where
  "cn_fast_hash data =
     (case hash_process data of
        None \<Rightarrow> None | Some (Inl e) \<Rightarrow> Some (Inl e) | Some (Inr state) \<Rightarrow> Some (Inr (take HASH_SIZE state)))"

text \<open>
  \<open>cn_fast_digest m\<close> is what \<open>cn_fast_hash\<close> writes to its output buffer; the hash always
  returns (\<open>cn_fast_hash_digest\<close> below), so callers use the digest.
\<close>

definition cn_fast_digest :: "bytes \<Rightarrow> bytes" where
  "cn_fast_digest data = projr (the (cn_fast_hash data))"

section \<open>The reference permutation\<close>

text \<open>Lane \<open>A[x, y]\<close> of the state is word \<open>x + 5 * y\<close>; indices are taken modulo 5.\<close>

definition lane :: "u64 list \<Rightarrow> nat \<Rightarrow> nat \<Rightarrow> u64" where
  "lane A x y = A ! (x mod 5 + 5 * (y mod 5))"

definition lanes :: "(nat \<Rightarrow> nat \<Rightarrow> u64) \<Rightarrow> u64 list" where
  "lanes f = map (\<lambda>n. f (n mod 5) (n div 5)) [0..<25]"

definition theta :: "u64 list \<Rightarrow> u64 list" where
  "theta A =
     (let C = (\<lambda>x. lane A x 0 XOR lane A x 1 XOR lane A x 2 XOR lane A x 3 XOR lane A x 4)
      in lanes (\<lambda>x y. lane A x y XOR (C (x + 4) XOR word_rotl 1 (C (x + 1)))))"

text \<open>
  The rotation offsets walk through the plane from \<open>(1, 0)\<close> by \<open>(x, y) \<mapsto> (y, 2 x + 3 y)\<close>;
  the step \<open>t\<close> of the walk rotates by the triangular number \<open>(t + 1) (t + 2) / 2\<close>.
\<close>

primrec rho_walk :: "nat \<Rightarrow> nat \<times> nat" where
  "rho_walk 0 = (1, 0)"
| "rho_walk (Suc t) = (case rho_walk t of (x, y) \<Rightarrow> (y, (2 * x + 3 * y) mod 5))"

definition rho_offset :: "nat \<Rightarrow> nat \<Rightarrow> nat" where
  "rho_offset x y =
     (case find (\<lambda>t. rho_walk t = (x, y)) [0..<24] of
        None \<Rightarrow> 0 | Some t \<Rightarrow> ((t + 1) * (t + 2) div 2) mod 64)"

definition rho :: "u64 list \<Rightarrow> u64 list" where
  "rho A = lanes (\<lambda>x y. word_rotl (rho_offset x y) (lane A x y))"

definition pi_step :: "u64 list \<Rightarrow> u64 list" where
  "pi_step A = lanes (\<lambda>x y. lane A (x + 3 * y) x)"

definition chi :: "u64 list \<Rightarrow> u64 list" where
  "chi A = lanes (\<lambda>x y. lane A x y XOR (NOT (lane A (x + 1) y) AND lane A (x + 2) y))"

text \<open>The round constants come from an 8-bit linear feedback shift register.\<close>

definition rc_step :: "byte \<Rightarrow> byte" where
  "rc_step w = (push_bit 1 w XOR (if bit w 7 then 0x71 else 0))"

definition rc_bit :: "nat \<Rightarrow> bool" where
  "rc_bit t \<longleftrightarrow> bit ((rc_step ^^ t) 1) 0"

definition round_constant :: "nat \<Rightarrow> u64" where
  "round_constant ir =
     foldr (\<lambda>j w. if rc_bit (j + 7 * ir) then set_bit (2 ^ j - 1) w else w) [0..<7] 0"

definition iota :: "nat \<Rightarrow> u64 list \<Rightarrow> u64 list" where
  "iota ir A = lanes (\<lambda>x y. if x = 0 \<and> y = 0 then lane A x y XOR round_constant ir else lane A x y)"

definition keccak_p :: "nat \<Rightarrow> u64 list \<Rightarrow> u64 list" where
  "keccak_p rounds A = fold (\<lambda>ir A. iota ir (chi (pi_step (rho (theta A))))) [0..<rounds] A"

section \<open>The code's permutation is the reference permutation\<close>

lemma ROTL64_eq: "0 < y \<Longrightarrow> y < 64 \<Longrightarrow> ROTL64 x y = word_rotl y x"
  using rotl_shift_or [of y x] by (simp add: ROTL64_def)

lemma upt_5: "[0..<5] = [0, 1, 2, 3, 4::nat]"
  and upt_24: "[0..<24] = [0, 1, 2, 3, 4, 5, 6, 7, 8, 9, 10, 11, 12, 13, 14, 15, 16, 17, 18, 19,
    20, 21, 22, 23::nat]"
  and upt_25: "[0..<25] = [0, 1, 2, 3, 4, 5, 6, 7, 8, 9, 10, 11, 12, 13, 14, 15, 16, 17, 18, 19,
    20, 21, 22, 23, 24::nat]"
  by code_simp+

lemma list_25:
  "length st = 25 \<Longrightarrow> st =
     [st!0, st!1, st!2, st!3, st!4, st!5, st!6, st!7, st!8, st!9, st!10, st!11, st!12,
      st!13, st!14, st!15, st!16, st!17, st!18, st!19, st!20, st!21, st!22, st!23, st!24]"
  using map_nth [of st] by (simp only: upt_25 list.map)

primrec rc_run :: "nat \<Rightarrow> byte \<Rightarrow> bool list" where
  "rc_run 0 w = []"
| "rc_run (Suc n) w = bit w 0 # rc_run n (rc_step w)"

lemma nth_rc_run: "i < n \<Longrightarrow> rc_run n w ! i = bit ((rc_step ^^ i) w) 0"
proof (induction n arbitrary: w i)
  case (Suc n)
  then show ?case
    by (cases i) (simp_all add: funpow_swap1)
qed simp

definition rc_table :: "bool list" where
  "rc_table = rc_run 168 1"

lemma rc_bit_table: "t < 168 \<Longrightarrow> rc_bit t = rc_table ! t"
  by (simp add: rc_bit_def rc_table_def nth_rc_run)

lemma round_constant_table:
  "ir < 24 \<Longrightarrow> round_constant ir =
     foldr (\<lambda>j w. if rc_table ! (j + 7 * ir) then set_bit (2 ^ j - 1) w else w) [0..<7] 0"
  unfolding round_constant_def by (rule foldr_cong) (auto simp: rc_bit_table)

lemma keccakf_rndc_table: "keccakf_rndc = map (\<lambda>ir. foldr (\<lambda>j w. if rc_table ! (j + 7 * ir)
      then set_bit (2 ^ j - 1) w else w) [0..<7] 0) [0..<24]"
  by code_simp

lemma keccakf_rndc_eq: "ir < 24 \<Longrightarrow> keccakf_rndc ! ir = round_constant ir"
  by (subst keccakf_rndc_table) (simp add: round_constant_table nth_map_upt)

lemma rho_offsets:
  "map (\<lambda>n. rho_offset (n mod 5) (n div 5)) [0..<25] =
    [0, 1, 62, 28, 27, 36, 44, 6, 55, 20, 3, 10, 43, 25, 39, 41, 45, 15, 21, 8, 18, 2, 61, 56, 14]"
  by code_simp

text \<open>Each step, evaluated on 25 arbitrary lanes, agrees with its reference.\<close>

lemmas lane_eval = lane_def lanes_def upt_25


lemma xor_columns:
  "fold (\<lambda>i st. fold (\<lambda>j st. st[j + i := st ! (j + i) XOR d i]) [0, 5, 10, 15, 20] st) [0..<5]
     [a0,a1,a2,a3,a4,a5,a6,a7,a8,a9,a10,a11,a12,a13,a14,a15,a16,a17,a18,a19,a20,a21,a22,a23,a24] = [a0 XOR d 0, a1 XOR d 1, a2 XOR d 2, a3 XOR d 3, a4 XOR d 4, a5 XOR d 0, a6 XOR d 1, a7 XOR d 2, a8 XOR d 3, a9 XOR d 4, a10 XOR d 0, a11 XOR d 1, a12 XOR d 2, a13 XOR d 3, a14 XOR d 4, a15 XOR d 0, a16 XOR d 1, a17 XOR d 2, a18 XOR d 3, a19 XOR d 4, a20 XOR d 0, a21 XOR d 1, a22 XOR d 2, a23 XOR d 3, a24 XOR d 4]"
  by (simp add: upt_5)

lemma theta_lanes: "keccakf_theta [a0, a1, a2, a3, a4, a5, a6, a7, a8, a9, a10, a11, a12, a13, a14, a15, a16, a17, a18, a19, a20, a21, a22, a23, a24] = theta [a0, a1, a2, a3, a4, a5, a6, a7, a8, a9, a10, a11, a12, a13, a14, a15, a16, a17, a18, a19, a20, a21, a22, a23, a24]"
  unfolding keccakf_theta_def Let_def xor_columns
  by (simp add: theta_def lane_eval upt_5 ROTL64_eq)

lemma rhopi_loop:
  "keccakf_rhopi [a0, a1, a2, a3, a4, a5, a6, a7, a8, a9, a10, a11, a12, a13, a14, a15, a16, a17, a18, a19, a20, a21, a22, a23, a24] =
   [a0,
    ROTL64 a6 44,
    ROTL64 a12 43,
    ROTL64 a18 21,
    ROTL64 a24 14,
    ROTL64 a3 28,
    ROTL64 a9 20,
    ROTL64 a10 3,
    ROTL64 a16 45,
    ROTL64 a22 61,
    ROTL64 a1 1,
    ROTL64 a7 6,
    ROTL64 a13 25,
    ROTL64 a19 8,
    ROTL64 a20 18,
    ROTL64 a4 27,
    ROTL64 a5 36,
    ROTL64 a11 10,
    ROTL64 a17 15,
    ROTL64 a23 56,
    ROTL64 a2 62,
    ROTL64 a8 55,
    ROTL64 a14 39,
    ROTL64 a15 41,
    ROTL64 a21 2]"
  by (simp add: keccakf_rhopi_def upt_24 keccakf_piln_def keccakf_rotc_def Let_def)

lemma rho_offset_vals: "n < 25 \<Longrightarrow> rho_offset (n mod 5) (n div 5) = 
  [0, 1, 62, 28, 27, 36, 44, 6, 55, 20, 3, 10, 43, 25, 39, 41, 45, 15, 21, 8, 18, 2, 61, 56, 14] ! n"
  unfolding rho_offsets [symmetric] by simp

lemma rho_table: "rho A = map (\<lambda>n. word_rotl ([0, 1, 62, 28, 27, 36, 44, 6, 55, 20, 3, 10, 43, 25,
   39, 41, 45, 15, 21, 8, 18, 2, 61, 56, 14] ! n) (A ! n)) [0..<25]"
  by (simp del: upt_rec_numeral add: rho_def lanes_def lane_def rho_offset_vals)

lemma word_rotl_zero: "word_rotl 0 (x::'a::len word) = x"
  by (rule bit_word_eqI) (simp add: bit_word_rotl_iff)

lemma rhopi_lanes: "keccakf_rhopi [a0, a1, a2, a3, a4, a5, a6, a7, a8, a9, a10, a11, a12, a13, a14, a15, a16, a17, a18, a19, a20, a21, a22, a23, a24] = pi_step (rho [a0, a1, a2, a3, a4, a5, a6, a7, a8, a9, a10, a11, a12, a13, a14, a15, a16, a17, a18, a19, a20, a21, a22, a23, a24])"
  unfolding rhopi_loop rho_table
  by (simp add: pi_step_def lane_eval ROTL64_eq word_rotl_zero)

lemma chi_lanes: "keccakf_chi [a0, a1, a2, a3, a4, a5, a6, a7, a8, a9, a10, a11, a12, a13, a14, a15, a16, a17, a18, a19, a20, a21, a22, a23, a24] = chi [a0, a1, a2, a3, a4, a5, a6, a7, a8, a9, a10, a11, a12, a13, a14, a15, a16, a17, a18, a19, a20, a21, a22, a23, a24]"
  by (simp add: keccakf_chi_def chi_def lane_eval upt_5 Let_def)

lemma iota_lanes: "ir < 24 \<Longrightarrow> keccakf_iota ir [a0, a1, a2, a3, a4, a5, a6, a7, a8, a9, a10, a11, a12, a13, a14, a15, a16, a17, a18, a19, a20, a21, a22, a23, a24] = iota ir [a0, a1, a2, a3, a4, a5, a6, a7, a8, a9, a10, a11, a12, a13, a14, a15, a16, a17, a18, a19, a20, a21, a22, a23, a24]"
  by (simp add: keccakf_iota_def iota_def lane_eval keccakf_rndc_eq)
lemma length_keccakf_theta [simp]: "length (keccakf_theta st) = length st"
  by (simp add: keccakf_theta_def Let_def upt_5)

lemma length_lanes [simp]: "length (lanes f) = 25"
  by (simp add: lanes_def)

lemma length_steps [simp]:
  "length (theta A) = 25" "length (rho A) = 25" "length (pi_step A) = 25" "length (chi A) = 25"
  "length (iota ir A) = 25"
  by (simp_all add: theta_def rho_def pi_step_def chi_def iota_def Let_def)

lemma steps_eq:
  assumes "length st = 25"
  shows "keccakf_theta st = theta st" "keccakf_rhopi st = pi_step (rho st)"
    "keccakf_chi st = chi st" "ir < 24 \<Longrightarrow> keccakf_iota ir st = iota ir st"
  using list_25 [OF assms] theta_lanes rhopi_lanes chi_lanes iota_lanes by metis+

lemma keccakf_round_eq:
  "length st = 25 \<Longrightarrow> ir < 24 \<Longrightarrow>
   keccakf_iota ir (keccakf_chi (keccakf_rhopi (keccakf_theta st))) =
   iota ir (chi (pi_step (rho (theta st))))"
  by (simp add: steps_eq)

lemma keccakf_eq_keccak_p:
  assumes "length st = 25" "rounds \<le> 24"
  shows "keccakf st rounds = keccak_p rounds st \<and> length (keccak_p rounds st) = 25"
  using assms(2)
proof (induction rounds)
  case 0
  then show ?case using assms(1) by (simp add: keccakf_def keccak_p_def)
next
  case (Suc n)
  then show ?case using assms(1)
    by (simp add: keccakf_def keccak_p_def keccakf_round_eq)
qed

lemma keccakf_24: "length st = 25 \<Longrightarrow> keccakf st KECCAK_ROUNDS = keccak_p 24 st"
  and length_keccak_p [simp]: "length st = 25 \<Longrightarrow> length (keccak_p 24 st) = 25"
  by (simp_all add: KECCAK_ROUNDS_def keccakf_eq_keccak_p)

section \<open>The reference sponge\<close>

text \<open>Padding, absorption of one block and the sponge, as the standard states them.\<close>

definition keccak_pad :: "nat \<Rightarrow> bytes \<Rightarrow> bytes" where
  "keccak_pad r m =
     (let z = r - length m mod r
      in m @ (if z = 1 then [0x81] else 1 # replicate (z - 2) 0 @ [0x80]))"

definition absorb_block :: "nat \<Rightarrow> bytes \<Rightarrow> u64 list \<Rightarrow> u64 list" where
  "absorb_block r b st =
     keccak_p 24 (words_of 8 25 (xor_bytes (bytes_of 8 st) (b @ replicate (200 - r) 0)))"

definition sponge :: "nat \<Rightarrow> bytes \<Rightarrow> u64 list" where
  "sponge r m = fold (absorb_block r) (chunks r (keccak_pad r m)) (replicate 25 0)"

lemma length_absorb_block [simp]: "length (absorb_block r b st) = 25"
  by (simp add: absorb_block_def)

lemma length_sponge [simp]: "length (sponge r m) = 25"
proof -
  have "length (fold (absorb_block r) bs st) = 25" if "length st = 25" for bs st
    using that by (induction bs arbitrary: st) simp_all
  then show ?thesis by (simp add: sponge_def)
qed

lemma length_keccak_xor_in [simp]: "length (keccak_xor_in st n inp) = length st"
  by (induction n) (simp_all add: keccak_xor_in_def)

lemma nth_keccak_xor_in:
  "n \<le> length st \<Longrightarrow> i < length st \<Longrightarrow>
   keccak_xor_in st n inp ! i = (if i < n then st ! i XOR le_word (slice inp (8 * i) 8) else st ! i)"
proof (induction n)
  case 0
  then show ?case by (simp add: keccak_xor_in_def)
next
  case (Suc n)
  have "keccak_xor_in st (Suc n) inp =
      (keccak_xor_in st n inp)[n := keccak_xor_in st n inp ! n XOR le_word (slice inp (8 * n) 8)]"
    by (simp add: keccak_xor_in_def)
  then show ?case using Suc by (auto simp: nth_list_update less_Suc_eq)
qed

text \<open>The word loop xors the block, followed by zeros for the capacity, into the state bytes.\<close>

lemma keccak_xor_in_block:
  assumes "length st = 25" "r = 8 * w" "w \<le> 25" "r \<le> length b"
  shows "keccak_xor_in st w b =
    words_of 8 25 (xor_bytes (bytes_of 8 st) (take r b @ replicate (200 - r) 0))"
proof (rule nth_equalityI)
  show "length (keccak_xor_in st w b) =
      length (words_of 8 25 (xor_bytes (bytes_of 8 st) (take r b @ replicate (200 - r) 0)))"
    using assms by simp
next
  fix i assume "i < length (keccak_xor_in st w b)"
  then have i: "i < 25" using assms by simp
  have sl: "slice (take r b @ replicate (200 - r) 0) (8 * i) 8 =
      (if i < w then slice b (8 * i) 8 else replicate 8 0)"
  proof (cases "i < w")
    case True
    then have "8 * i + 8 \<le> r" using assms by simp
    then have "min 8 (r - 8 * i) = 8" by simp
    then have "slice (take r b) (8 * i) 8 = slice b (8 * i) 8" by (simp add: slice_def drop_take)
    then show ?thesis using True assms \<open>8 * i + 8 \<le> r\<close> by (simp del: length_slice)
  next
    case False
    then have "r \<le> 8 * i" using assms by simp
    moreover have "8 \<le> 200 - r - (8 * i - r)" using i \<open>r \<le> 8 * i\<close> by simp
    ultimately show ?thesis using False assms by (simp add: slice_replicate min_def)
  qed
  have "words_of 8 25 (xor_bytes (bytes_of 8 st) (take r b @ replicate (200 - r) 0)) ! i =
      (le_word (xor_bytes (le_bytes 8 (st ! i)) (if i < w then slice b (8 * i) 8 else replicate 8 0)) :: u64)"
    using i assms(1) by (simp only: nth_words_of slice_xor_bytes slice_bytes_of sl)
  also have "\<dots> = keccak_xor_in st w b ! i"
    using i assms by (auto simp: le_word_xor nth_keccak_xor_in)
  finally show "keccak_xor_in st w b ! i =
      words_of 8 25 (xor_bytes (bytes_of 8 st) (take r b @ replicate (200 - r) 0)) ! i" ..
qed

lemma absorb_step:
  assumes "length st = 25" "r mod 8 = 0" "r \<le> 200" "r \<le> length b"
  shows "keccakf (keccak_xor_in st (r div 8) b) KECCAK_ROUNDS = absorb_block r (take r b) st"
proof -
  have "keccak_xor_in st (r div 8) b =
    words_of 8 25 (xor_bytes (bytes_of 8 st) (take r b @ replicate (200 - r) 0))"
    by (rule keccak_xor_in_block) (use assms in auto)
  then show ?thesis using assms by (simp add: keccakf_24 absorb_block_def)
qed

subsection \<open>The absorbing loop\<close>

lemma keccak_absorb_diverges: "keccak_absorb 0 inp st = None"
proof (cases "keccak_absorb 0 inp st")
  case (Some r)
  have False
    by (rule keccak_absorb.raw_induct [where P = "\<lambda>rsiz inp st r. rsiz \<noteq> 0", OF _ Some, THEN notE])
      (auto split: if_splits)
  then show ?thesis ..
qed

lemma keccak_absorb_eq:
  assumes "0 < r" "r mod 8 = 0" "r \<le> 200" "length st = 25"
  shows "keccak_absorb r inp st =
    Some (drop (length inp div r * r) inp,
          fold (absorb_block r) (chunks r (take (length inp div r * r) inp)) st)"
  using assms
proof (induction "length inp" arbitrary: inp st rule: less_induct)
  case less
  show ?case
  proof (cases "r \<le> length inp")
    case False
    then show ?thesis by (subst keccak_absorb.simps) simp
  next
    case True
    have d: "length inp div r = Suc (length (drop r inp) div r)"
      using True less.prems(1) by (simp add: le_div_geq)
    let ?n = "length (drop r inp) div r * r"
    have "keccak_absorb r inp st = keccak_absorb r (drop r inp) (absorb_block r (take r inp) st)"
      using True less.prems by (subst keccak_absorb.simps) (simp add: absorb_step)
    also have "\<dots> = Some (drop ?n (drop r inp),
        fold (absorb_block r) (chunks r (take ?n (drop r inp))) (absorb_block r (take r inp) st))"
      by (rule less.hyps) (use less.prems True in auto)
    also have "drop ?n (drop r inp) = drop (length inp div r * r) inp"
      by (simp add: d add.commute)
    also have "fold (absorb_block r) (chunks r (take ?n (drop r inp))) (absorb_block r (take r inp) st)
        = fold (absorb_block r) (chunks r (take (length inp div r * r) inp)) st"
    proof -
      have "take (length inp div r * r) inp = take r inp @ take ?n (drop r inp)"
        by (simp add: d take_add add.commute)
      then show ?thesis using True less.prems(1) by (simp add: chunks_append)
    qed
    finally show ?thesis .
  qed
qed

lemma keccak_absorb_returns:
  "0 < r \<Longrightarrow> length st = 25 \<Longrightarrow>
   \<exists>rest st'. keccak_absorb r inp st = Some (rest, st') \<and> length rest < r \<and> length st' = 25"
proof (induction "length inp" arbitrary: inp st rule: less_induct)
  case less
  then show ?case
    by (subst (1) keccak_absorb.simps) (auto simp: not_le keccakf_24 intro!: less.hyps)
qed

subsection \<open>The last block is the end of the padded message\<close>

lemma length_keccak_last_block [simp]: "length rest < r \<Longrightarrow> length (keccak_last_block r rest) = r"
  by (simp add: keccak_last_block_def Let_def)

lemma keccak_last_block_eq:
  assumes "length rest < r"
  shows "keccak_last_block r rest =
    rest @ (if r - length rest = 1 then [0x81] else 1 # replicate (r - length rest - 2) 0 @ [0x80])"
proof (cases "r - length rest = 1")
  case True
  then have "r - 1 = length rest" "r - Suc (length rest) = 0" by simp_all
  then show ?thesis using True by (simp add: keccak_last_block_def Let_def nth_append)
next
  case False
  define k where "k = r - length rest - 2"
  have r: "r = length rest + k + 2" using False assms by (simp add: k_def)
  have "replicate (Suc k) (0::byte) = replicate k 0 @ [0]" by (simp flip: replicate_append_same)
  then have "inp @ [1] @ replicate (r - Suc (length rest)) (0::byte) = (inp @ 1 # replicate k 0) @ [0]" for inp
    by (simp add: r)
  moreover have "r - 1 = length (rest @ 1 # replicate k 0 :: bytes)" by (simp add: r)
  ultimately show ?thesis
    using False by (simp only: keccak_last_block_def Let_def nth_append_length list_update_length)
      (simp add: k_def)
qed

lemma keccak_pad_split:
  assumes "0 < r"
  shows "keccak_pad r m = take (length m div r * r) m
    @ keccak_last_block r (drop (length m div r * r) m)"
proof -
  let ?rest = "drop (length m div r * r) m"
  have len: "length ?rest = length m mod r"
    by (simp add: minus_div_mult_eq_mod)
  then have lt: "length ?rest < r" using assms by simp
  show ?thesis
    unfolding keccak_last_block_eq [OF lt] unfolding len keccak_pad_def Let_def
    by (simp only: append_assoc [symmetric] append_take_drop_id)
qed

lemma sponge_eq:
  assumes "0 < r"
  shows "sponge r m =
    absorb_block r (keccak_last_block r (drop (length m div r * r) m))
      (fold (absorb_block r) (chunks r (take (length m div r * r) m)) (replicate 25 0))"
proof -
  let ?k = "length m div r * r"
  have "length (take ?k m) = r * (length m div r)"
    by (simp add: mult.commute times_div_less_eq_dividend)
  moreover have "length (keccak_last_block r (drop ?k m)) = r"
    by (rule length_keccak_last_block) (use assms in \<open>simp add: minus_div_mult_eq_mod\<close>)
  ultimately show ?thesis
    using assms by (simp add: sponge_def keccak_pad_split chunks_append_mult chunks_short)
qed

section \<open>Properties of the hash\<close>

lemma keccak_rsiz_range:
  "29 \<le> mdlen \<Longrightarrow> mdlen < 100 \<Longrightarrow> keccak_rsiz mdlen = nat (200 - 2 * mdlen)"
  "keccak_rsiz 200 = 136"
  by (simp_all add: keccak_rsiz_def HASH_DATA_AREA_def)

lemma keccak_refines_sponge:
  assumes "mdlen mod 4 = 0" and "32 \<le> mdlen \<and> mdlen \<le> 96 \<or> mdlen = 200"
  shows "keccak m mdlen =
    Some (Inr (take (nat mdlen) (bytes_of 8 (sponge (keccak_rsiz mdlen) m))))"
proof -
  define r where "r = keccak_rsiz mdlen"
  have r: "0 < r" "r \<le> 136" "r mod 8 = 0"
  proof -
    have "r = nat (200 - 2 * mdlen) \<and> mdlen \<noteq> 200 \<or> r = 136"
      by (simp add: r_def keccak_rsiz_def HASH_DATA_AREA_def)
    moreover have "\<exists>k. mdlen = 4 * k" using assms(1) by (auto simp: mod_eq_0_iff_dvd)
    ultimately show "0 < r" "r \<le> 136" "r mod 8 = 0"
      using assms(2) by (auto simp: nat_mult_distrib nat_diff_distrib')
  qed
  let ?k = "length m div r * r"
  let ?st = "fold (absorb_block r) (chunks r (take ?k m)) (replicate 25 0)"
  have rest: "length (drop ?k m) < r"
    using r by (simp add: minus_div_mult_eq_mod)
  have "length ?st = 25"
    by (rule fold_invariant [where Q = "\<lambda>_. True"]) simp_all
  then have "keccakf (keccak_xor_in ?st (r div 8) (keccak_last_block r (drop ?k m))) KECCAK_ROUNDS
      = sponge r m"
    using r rest by (simp add: absorb_step sponge_eq)
  then show ?thesis
    using r rest assms(2) keccak_absorb_eq [of r "replicate 25 0" m]
    by (auto simp: keccak_def keccak_finish_def simp flip: r_def)
qed

text \<open>Every outcome of \<open>keccak\<close>, by the requested digest length.\<close>

lemma keccak_finish_outcome:
  assumes "0 < r" "length rest < r" "length st = 25" "mdlen \<le> 200"
  shows "143 \<le> r \<Longrightarrow> keccak_finish r mdlen rest st = Inl Bad_keccak_use"
    and "r < 143 \<Longrightarrow> \<exists>md. keccak_finish r mdlen rest st = Inr md \<and> length md = nat mdlen"
  using assms by (auto simp: keccak_finish_def keccakf_24)

lemma keccak_outcome_inner:
  assumes "0 < mdlen" "mdlen < 100"
  shows "if mdlen \<le> 28 then keccak m mdlen = Some (Inl Bad_keccak_use)
    else \<exists>md. keccak m mdlen = Some (Inr md) \<and> length md = nat mdlen"
proof -
  let ?r = "keccak_rsiz mdlen"
  have r: "0 < ?r" "143 \<le> ?r \<longleftrightarrow> mdlen \<le> 28" using assms by (auto simp: keccak_rsiz_def)
  obtain rest st where a: "keccak_absorb ?r m (replicate 25 0) = Some (rest, st)"
    and l: "length rest < ?r" "length st = 25"
    using keccak_absorb_returns [OF r(1), of "replicate 25 0" m] by auto
  then have "keccak m mdlen = Some (keccak_finish ?r mdlen rest st)"
    using assms by (simp add: keccak_def)
  then show ?thesis
    using keccak_finish_outcome [OF r(1) l, of mdlen] r(2) assms by auto
qed

lemma keccak_outcome:
  "(keccak m mdlen = None \<longleftrightarrow> mdlen = 100) \<and>
   (keccak m mdlen = Some (Inl Bad_keccak_use) \<longleftrightarrow> mdlen \<le> 28 \<or> 100 < mdlen \<and> mdlen \<noteq> 200) \<and>
   ((\<exists>md. keccak m mdlen = Some (Inr md) \<and> length md = nat mdlen) \<longleftrightarrow>
      29 \<le> mdlen \<and> mdlen < 100 \<or> mdlen = 200)"
proof -
  consider "mdlen \<le> 0 \<or> mdlen > 100 \<and> mdlen \<noteq> 200" | "mdlen = 100" | "0 < mdlen" "mdlen < 100"
    | "mdlen = 200" by linarith
  then show ?thesis
  proof cases
    case 1
    then show ?thesis by (auto simp: keccak_def)
  next
    case 2
    then show ?thesis by (simp add: keccak_def keccak_rsiz_def keccak_absorb_diverges)
  next
    case 3
    then show ?thesis using keccak_outcome_inner [of mdlen m] by (auto split: if_splits)
  next
    case 4
    then show ?thesis by (simp add: keccak_refines_sponge)
  qed
qed

lemma keccak1600_sponge: "keccak1600 m = Some (Inr (bytes_of 8 (sponge 136 m)))"
  by (simp add: keccak1600_def keccak_refines_sponge keccak_rsiz_range)

lemma hash_process_sponge: "hash_process m = Some (Inr (bytes_of 8 (sponge 136 m)))"
  by (simp add: hash_process_def keccak1600_sponge)

lemma cn_fast_hash_eq: "cn_fast_hash m = Some (Inr (take 32 (bytes_of 8 (sponge 136 m))))"
  by (simp add: cn_fast_hash_def hash_process_sponge HASH_SIZE_def)

lemma cn_fast_digest_eq: "cn_fast_digest m = take 32 (bytes_of 8 (sponge 136 m))"
  by (simp add: cn_fast_digest_def cn_fast_hash_eq)

lemma cn_fast_hash_digest: "cn_fast_hash m = Some (Inr (cn_fast_digest m))"
  by (simp add: cn_fast_digest_def cn_fast_hash_eq)

lemma length_cn_fast_digest [simp]: "length (cn_fast_digest m) = 32"
  by (simp add: cn_fast_digest_eq)

text \<open>The fast hash is the 32-byte Keccak digest.\<close>

lemma cn_fast_hash_keccak: "cn_fast_hash m = keccak m 32"
  by (simp add: cn_fast_hash_eq keccak_refines_sponge keccak_rsiz_def)

lemma hash_permutation_keccak_p: "length state = 200 \<Longrightarrow> 
  hash_permutation state = bytes_of 8 (keccak_p 24 (words_of 8 25 state))"
  using keccakf_24 [of "words_of 8 25 state"] by (simp add: hash_permutation_def KECCAK_ROUNDS_def)

text \<open>
  Where the rate is not a multiple of the word size, the bytes behind the last whole word of a
  block never enter the state.
\<close>

lemma keccak_xor_in_cong:
  "take (8 * n) b = take (8 * n) b' \<Longrightarrow> keccak_xor_in st n b = keccak_xor_in st n b'"
  unfolding keccak_xor_in_def
proof (rule fold_cong)
  fix i assume eq: "take (8 * n) b = take (8 * n) b'" and "i \<in> set [0..<n]"
  then have "8 * i + 8 \<le> 8 * n" by simp
  then have "slice b (8 * i) 8 = slice (take (8 * n) b) (8 * i) 8"
    and "slice b' (8 * i) 8 = slice (take (8 * n) b') (8 * i) 8"
    by (simp_all add: slice_def drop_take min_def)
  then show "(\<lambda>st. st[i := st ! i XOR le_word (slice b (8 * i) 8)]) =
      (\<lambda>st. st[i := st ! i XOR le_word (slice b' (8 * i) 8)])"
    using eq by simp
qed simp_all

lemma take_keccak_last_block:
  assumes "length m < r" "length m' = length m" "k \<le> r" "k = r \<longrightarrow> m = m'" "take k m = take k m'"
  shows "take k (keccak_last_block r m) = take k (keccak_last_block r m')"
proof (cases "k = r")
  case False
  then have "k \<le> r - 1" using assms(3) by simp
  then have "take k (keccak_last_block r x) = take k (x @ [1] @ replicate (r - Suc (length x)) 0)" for x
    by (simp add: keccak_last_block_def Let_def)
  then show ?thesis using assms(2,5) by (simp only: take_append)
next
  case True
  then have "m = m'" using assms(4) by blast
  then show ?thesis by simp
qed

section \<open>Properties\<close>

text \<open>C2: the loops of \<open>keccakf\<close> compute the permutation Keccak-p[1600, 24]: the tables of
  rotations, lane positions and round constants are the ones the standard's recurrences give.\<close>

theorem keccakf_is_keccak_p: "length st = 25 \<Longrightarrow> keccakf st 24 = keccak_p 24 st"
  by (simp add: keccakf_eq_keccak_p)

theorem keccakf_is_keccak_p_witness:
  "length (replicate 25 (1::u64)) = 25 \<and> keccakf (replicate 25 1) 24 = keccak_p 24 (replicate 25 1)"
  using keccakf_is_keccak_p [of "replicate 25 1"] by simp

text \<open>C15: for the digest lengths whose rate is a whole number of words and fits the buffer,
  \<open>keccak\<close> is the sponge over the padded message, truncated to the digest.\<close>

theorem keccak_computes_sponge:
  assumes "mdlen mod 4 = 0" and "32 \<le> mdlen \<and> mdlen \<le> 96 \<or> mdlen = 200"
  shows "keccak m mdlen =
    Some (Inr (take (nat mdlen) (bytes_of 8 (sponge (keccak_rsiz mdlen) m))))"
  using assms by (rule keccak_refines_sponge)

theorem keccak_computes_sponge_witness:
  "keccak [1, 2, 3] 64 = Some (Inr (take (nat 64) (bytes_of 8 (sponge (keccak_rsiz 64) [1, 2, 3]))))"
  by (rule keccak_computes_sponge) simp_all

text \<open>C22: every outcome of \<open>keccak\<close> by the digest length alone: it returns a digest of the
  requested length for 29 to 99 bytes and for 200, aborts below and above, and never returns for
  100, where the rate is 0 and the absorbing loop consumes nothing.\<close>

theorem keccak_every_outcome:
  "(keccak m mdlen = None \<longleftrightarrow> mdlen = 100) \<and>
   (keccak m mdlen = Some (Inl Bad_keccak_use) \<longleftrightarrow> mdlen \<le> 28 \<or> 100 < mdlen \<and> mdlen \<noteq> 200) \<and>
   ((\<exists>md. keccak m mdlen = Some (Inr md) \<and> length md = nat mdlen) \<longleftrightarrow>
      29 \<le> mdlen \<and> mdlen < 100 \<or> mdlen = 200)"
  by (rule keccak_outcome)

text \<open>\<open>cn_fast_hash\<close> always returns 32 bytes, and they are the 32-byte Keccak digest.\<close>

theorem cn_fast_hash_is_keccak_256:
  "cn_fast_hash m = keccak m 32 \<and> (\<exists>md. cn_fast_hash m = Some (Inr md) \<and> length md = 32)"
proof (rule conjI)
  show "cn_fast_hash m = keccak m 32" by (rule cn_fast_hash_keccak)
  show "\<exists>md. cn_fast_hash m = Some (Inr md) \<and> length md = 32" by (simp add: cn_fast_hash_digest)
qed



end
