(* ===== verification/Tree_Hash.thy ===== *)
theory Tree_Hash
  imports Keccak
begin

text \<open>
  The Merkle tree hash of \<^verbatim>\<open>libcryptonote/crypto/tree-hash.c\<close>, over the block's transaction
  hashes.  \<open>tree_hash\<close> keeps one array and overwrites it level by level; the reference is a
  binary tree whose leaves are the transaction hashes in their order and whose inner nodes hash
  the concatenation of their children.  The locale \<open>node_hash\<close> is what the tree needs of its
  hash function; \<open>cn_fast_digest\<close> provides it.
\<close>

section \<open>The code\<close>

datatype tree_error = Assertion_failed

text \<open>\<open>while (pow < count) pow <<= 1;\<close> on 64-bit sizes; \<open>None\<close> if the loop never ends.\<close>

partial_function (option) tree_pow :: "u64 \<Rightarrow> u64 \<Rightarrow> u64 option" where
  "tree_pow count pow = (if pow < count then tree_pow count (push_bit 1 pow) else Some pow)"

definition tree_hash_cnt :: "u64 \<Rightarrow> (tree_error + u64) option" where
  "tree_hash_cnt count =
     (if \<not> count \<ge> 3 then Some (Inl Assertion_failed)
      else if \<not> count \<le> 0x10000000 then Some (Inl Assertion_failed)
      else map_option (\<lambda>pow. Inr (drop_bit 1 pow)) (tree_pow count 2))"

text \<open>
  The array \<open>ints\<close> of 32-byte hashes is a list of byte arrays; \<open>h\<close> is the hash that the code
  calls on two adjacent entries, 64 bytes.
\<close>

definition tree_first_level ::
    "(bytes \<Rightarrow> bytes) \<Rightarrow> nat \<Rightarrow> bytes list \<Rightarrow> bytes list \<Rightarrow> bytes list" where
  "tree_first_level h cnt hashes ints =
     (let m = 2 * cnt - length hashes
      in fold (\<lambda>j ints. ints[j := h (hashes ! (m + 2 * (j - m)) @ hashes ! (m + 2 * (j - m) + 1))])
           [m..<cnt] (blit ints 0 (take m hashes)))"

definition tree_level :: "(bytes \<Rightarrow> bytes) \<Rightarrow> nat \<Rightarrow> bytes list \<Rightarrow> bytes list" where
  "tree_level h cnt ints =
     fold (\<lambda>j ints. ints[j := h (ints ! (2 * j) @ ints ! (2 * j + 1))]) [0..<cnt] ints"

function tree_levels :: "(bytes \<Rightarrow> bytes) \<Rightarrow> nat \<Rightarrow> bytes list \<Rightarrow> bytes list" where
  "tree_levels h cnt ints =
     (if cnt > 2 then tree_levels h (cnt div 2) (tree_level h (cnt div 2) ints) else ints)"
  by pat_completeness auto
termination
  by (relation "measure (\<lambda>(h, cnt, ints). cnt)") auto

declare tree_levels.simps [simp del]

definition tree_hash_with :: "(bytes \<Rightarrow> bytes) \<Rightarrow> bytes list \<Rightarrow> (tree_error + bytes) option" where
  "tree_hash_with h hashes =
     (let count = length hashes
      in if count = 0 then Some (Inl Assertion_failed)
         else if count = 1 then Some (Inr (hashes ! 0))
         else if count = 2 then Some (Inr (h (hashes ! 0 @ hashes ! 1)))
         else (case tree_hash_cnt (of_nat count) of
                 None \<Rightarrow> None
               | Some (Inl e) \<Rightarrow> Some (Inl e)
               | Some (Inr c) \<Rightarrow>
                   (let cnt = unat c;
                        ints = replicate cnt (replicate 32 0);
                        ints = tree_first_level h cnt hashes ints
                    in if 2 * cnt - count + 2 * (cnt - (2 * cnt - count)) \<noteq> count
                       then Some (Inl Assertion_failed)
                       else (let ints = tree_levels h cnt ints
                             in Some (Inr (h (ints ! 0 @ ints ! 1)))))))"

definition tree_hash :: "bytes list \<Rightarrow> (tree_error + bytes) option" where
  "tree_hash hashes = tree_hash_with cn_fast_digest hashes"

section \<open>The power of two below the count\<close>

lemma pow2_less_of_nat:
  "i < 64 \<Longrightarrow> n < 2 ^ 64 \<Longrightarrow> (2::u64) ^ i < of_nat n \<longleftrightarrow> 2 ^ i < n"
  by (simp add: word_less_nat_alt unat_of_nat unat_pow2)

lemma tree_pow_eq:
  assumes "2 ^ k < n" "n \<le> 2 ^ Suc k" "k < 62" "i \<le> Suc k"
  shows "tree_pow (of_nat n) (2 ^ i) = Some (2 ^ Suc k)"
  using assms(4)
proof (induction "Suc k - i" arbitrary: i)
  case 0
  then have i: "i = Suc k" by simp
  have "(2::nat) ^ Suc k < 2 ^ 64" using assms(3) by (intro power_strict_increasing) auto
  then have "\<not> (2::u64) ^ i < of_nat n"
    using assms(2,3) i by (subst pow2_less_of_nat) auto
  then show ?case by (subst tree_pow.simps) (simp add: i)
next
  case (Suc d)
  have "(2::nat) ^ Suc k < 2 ^ 64" using assms(3) by (intro power_strict_increasing) auto
  moreover have "(2::nat) ^ i \<le> 2 ^ k" using Suc(2) by (intro power_increasing) auto
  then have "2 ^ i < n" using assms(1) by (rule le_less_trans)
  ultimately have "(2::u64) ^ i < of_nat n"
    using assms(2,3) Suc(2) by (subst pow2_less_of_nat) auto
  then have "tree_pow (of_nat n) (2 ^ i) = tree_pow (of_nat n) (2 ^ Suc i)"
    by (subst tree_pow.simps) (simp add: push_bit_eq_mult mult.commute)
  also have "\<dots> = Some (2 ^ Suc k)"
    by (rule Suc.hyps(1)) (use Suc(2) in auto)
  finally show ?case .
qed

lemma ex_pow2_below:
  assumes "3 \<le> (n::nat)"
  shows "\<exists>k. 1 \<le> k \<and> 2 ^ k < n \<and> n \<le> 2 ^ Suc k"
proof -
  define j where "j = (LEAST j. n \<le> 2 ^ j)"
  have "n \<le> 2 ^ n" by (simp add: less_imp_le)
  then have j: "n \<le> 2 ^ j" unfolding j_def by (rule LeastI)
  then have "2 ^ 1 < (2::nat) ^ j" using assms by simp
  then have "1 < j" by (rule power_less_imp_less_exp [rotated]) simp
  then obtain k where k: "j = Suc k" "1 \<le> k" by (cases j) auto
  have "\<not> n \<le> 2 ^ k"
    using not_less_Least [of k "\<lambda>j. n \<le> 2 ^ j"] k by (simp flip: j_def)
  then show ?thesis using j k by (intro exI [of _ k]) (simp del: power_Suc)
qed

lemma tree_hash_cnt_eq:
  assumes "3 \<le> n" "n \<le> 2 ^ 28"
  obtains k where "1 \<le> k" "2 ^ k < n" "n \<le> 2 ^ Suc k" "k < 28"
    "tree_hash_cnt (of_nat n) = Some (Inr (2 ^ k))"
proof -
  obtain k where k: "1 \<le> k" "2 ^ k < n" "n \<le> 2 ^ Suc k" using ex_pow2_below [OF assms(1)] by auto
  have "(2::nat) ^ k < 2 ^ 28" using k assms by simp
  then have k28: "k < 28" by (rule power_less_imp_less_exp [rotated]) simp
  have "(3::u64) \<le> of_nat n" "of_nat n \<le> (0x10000000::u64)"
    using assms by (simp_all add: word_le_nat_alt unat_of_nat)
  moreover have "drop_bit 1 ((2::u64) ^ Suc k) = 2 ^ k"
    using k28 drop_bit_exp_eq [of 1 "Suc k", where 'a = u64] by (simp add: bit_word_def)
  moreover have "tree_pow (of_nat n) 2 = Some (2 ^ Suc k)"
    using tree_pow_eq [OF k(2,3), of 1] k28 by simp
  ultimately have "tree_hash_cnt (of_nat n) = Some (Inr (2 ^ k))"
    by (simp add: tree_hash_cnt_def)
  then show thesis using that k k28 by blast
qed


section \<open>The reference: binary hash trees\<close>

datatype mtree = Leaf bytes | Node mtree mtree

primrec leaves :: "mtree \<Rightarrow> bytes list" where
  "leaves (Leaf x) = [x]"
| "leaves (Node l r) = leaves l @ leaves r"

primrec root :: "(bytes \<Rightarrow> bytes) \<Rightarrow> mtree \<Rightarrow> bytes" where
  "root h (Leaf x) = x"
| "root h (Node l r) = h (root h l @ root h r)"

text \<open>\<open>depths d t\<close>: every leaf of \<open>t\<close> is \<open>d\<close> or \<open>d + 1\<close> edges below its root.\<close>

primrec all_depths :: "mtree \<Rightarrow> nat set" where
  "all_depths (Leaf x) = {0}"
| "all_depths (Node l r) = Suc ` (all_depths l \<union> all_depths r)"

fun combine :: "mtree list \<Rightarrow> mtree list" where
  "combine (a # b # ts) = Node a b # combine ts"
| "combine ts = ts"

primrec perfect :: "nat \<Rightarrow> mtree list \<Rightarrow> mtree" where
  "perfect 0 ts = hd ts"
| "perfect (Suc k) ts = perfect k (combine ts)"

text \<open>
  \<open>merkle k hs\<close>: a perfect tree of \<open>2 ^ k\<close> nodes, the first ones leaves, the rest pairs of
  leaves.
\<close>

definition merkle :: "nat \<Rightarrow> bytes list \<Rightarrow> mtree" where
  "merkle k hs =
     (let m = 2 * 2 ^ k - length hs
      in perfect k (map Leaf (take m hs) @ combine (map Leaf (drop m hs))))"

lemma length_combine: "length ts = 2 * n \<Longrightarrow> length (combine ts) = n"
  by (induction ts arbitrary: n rule: combine.induct) (auto, presburger)

lemma nth_combine:
  "length ts = 2 * n \<Longrightarrow> i < n \<Longrightarrow> combine ts ! i = Node (ts ! (2 * i)) (ts ! (2 * i + 1))"
proof (induction ts arbitrary: n i rule: combine.induct)
  case (1 a b ts)
  then obtain n' where "n = Suc n'" by (cases n) auto
  then show ?case using 1 by (cases i) auto
qed auto

lemma concat_leaves_combine: "concat (map leaves (combine ts)) = concat (map leaves ts)"
  by (induction ts rule: combine.induct) auto

lemma leaves_perfect: "length ts = 2 ^ k \<Longrightarrow> leaves (perfect k ts) = concat (map leaves ts)"
proof (induction k arbitrary: ts)
  case 0
  then show ?case by (cases ts) auto
next
  case (Suc k)
  then show ?case by (simp add: length_combine concat_leaves_combine)
qed

lemma depths_combine:
  "length ts = 2 * n \<Longrightarrow> (\<Union>t\<in>set ts. all_depths t) \<subseteq> D \<Longrightarrow>
   (\<Union>t\<in>set (combine ts). all_depths t) \<subseteq> Suc ` D"
proof (induction ts arbitrary: n rule: combine.induct)
  case (1 a b ts)
  from 1(2) have "length ts = 2 * (n - 1)" by simp
  with 1 have "(\<Union>t\<in>set (combine ts). all_depths t) \<subseteq> Suc ` D" by simp
  moreover have "all_depths (Node a b) \<subseteq> Suc ` D" using 1(3) by (simp add: image_mono)
  ultimately show ?case by simp
qed auto

lemma depths_perfect:
  "length ts = 2 ^ k \<Longrightarrow> (\<Union>t\<in>set ts. all_depths t) \<subseteq> {d, Suc d} \<Longrightarrow>
   all_depths (perfect k ts) \<subseteq> {d + k, Suc (d + k)}"
proof (induction k arbitrary: ts d)
  case 0
  then show ?case by (cases ts) auto
next
  case (Suc k)
  have "(\<Union>t\<in>set (combine ts). all_depths t) \<subseteq> Suc ` {d, Suc d}"
    by (rule depths_combine [of _ "2 ^ k"]) (use Suc.prems in auto)
  then have "all_depths (perfect k (combine ts)) \<subseteq> {Suc d + k, Suc (Suc d + k)}"
    by (intro Suc.IH) (use Suc.prems in \<open>auto simp: length_combine\<close>)
  then show ?case by simp
qed

section \<open>The code computes the root of the reference tree\<close>

lemma length_fold_update [simp]:
  "length (fold (\<lambda>j xs. xs[j := f j xs]) js xs) = length xs"
  by (induction js arbitrary: xs) auto

lemma nth_tree_level:
  "2 * n \<le> length ints \<Longrightarrow> i < length ints \<Longrightarrow>
   tree_level h n ints ! i = (if i < n then h (ints ! (2 * i) @ ints ! (2 * i + 1)) else ints ! i)"
proof (induction n arbitrary: i)
  case 0
  then show ?case by (simp add: tree_level_def)
next
  case (Suc n)
  have "tree_level h (Suc n) ints = (tree_level h n ints)[n :=
      h (tree_level h n ints ! (2 * n) @ tree_level h n ints ! (2 * n + 1))]"
    by (simp add: tree_level_def)
  then show ?case using Suc by (auto simp: nth_list_update less_Suc_eq tree_level_def)
qed

lemma length_tree_level [simp]: "length (tree_level h n ints) = length ints"
  by (simp add: tree_level_def)

lemma tree_level_combine:
  assumes "length ts = 2 * n" "2 * n \<le> length ints" "take (2 * n) ints = map (root h) ts"
  shows "take n (tree_level h n ints) = map (root h) (combine ts)"
proof (rule nth_equalityI)
  show "length (take n (tree_level h n ints)) = length (map (root h) (combine ts))"
    using assms by (simp add: length_combine)
next
  fix i assume "i < length (take n (tree_level h n ints))"
  then have i: "i < n" "2 * i + 1 < 2 * n" by simp_all
  have "ints ! j = root h (ts ! j)" if "j < 2 * n" for j
    using that assms by (metis length_map nth_map nth_take)
  then show "take n (tree_level h n ints) ! i = map (root h) (combine ts) ! i"
    using i assms by (simp add: nth_tree_level nth_combine length_combine)
qed

lemma tree_levels_root:
  "1 \<le> k \<Longrightarrow> length ts = 2 ^ k \<Longrightarrow> 2 ^ k \<le> length ints \<Longrightarrow> take (2 ^ k) ints = map (root h) ts \<Longrightarrow>
   h (tree_levels h (2 ^ k) ints ! 0 @ tree_levels h (2 ^ k) ints ! 1) = root h (perfect k ts)"
proof (induction k arbitrary: ts ints)
  case 0
  then show ?case by simp
next
  case (Suc k)
  show ?case
  proof (cases "k = 0")
    case True
    then obtain a b where "ts = [a, b]" using Suc.prems(2) by (auto simp: length_Suc_conv numeral_2_eq_2)
    moreover from this have "take 2 ints = [root h a, root h b]" using True Suc.prems by simp
    then have "ints ! 0 = root h a" "ints ! 1 = root h b"
      by (auto dest: arg_cong [where f = "\<lambda>l. (l ! 0, l ! 1)"])
    ultimately show ?thesis using True by (simp add: tree_levels.simps)
  next
    case False
    then have "(2::nat) ^ 1 < 2 ^ Suc k" by (intro power_strict_increasing) auto
    then have "(2::nat) < 2 ^ Suc k" by simp
    then have "tree_levels h (2 ^ Suc k) ints = tree_levels h (2 ^ k) (tree_level h (2 ^ k) ints)"
      by (subst tree_levels.simps) simp
    moreover have "take (2 ^ k) (tree_level h (2 ^ k) ints) = map (root h) (combine ts)"
      by (rule tree_level_combine) (use Suc.prems in auto)
    ultimately show ?thesis
      using Suc.IH [of "combine ts" "tree_level h (2 ^ k) ints"] Suc.prems False
      by (simp add: length_combine)
  qed
qed

lemma nth_tree_first_level:
  assumes "length ints = cnt" "m = 2 * cnt - length hs" "length hs \<le> 2 * cnt" "cnt \<le> length hs" "i < cnt"
  shows "tree_first_level h cnt hs ints ! i =
    (if i < m then hs ! i else h (hs ! (m + 2 * (i - m)) @ hs ! (m + 2 * (i - m) + 1)))"
proof -
  let ?f = "\<lambda>j. h (hs ! (m + 2 * (j - m)) @ hs ! (m + 2 * (j - m) + 1))"
  have gen: "fold (\<lambda>j xs. xs[j := ?f j]) [m..<n] xs ! i = (if m \<le> i \<and> i < n then ?f i else xs ! i)"
    if "n \<le> length xs" "i < length xs" for n xs
    using that
  proof (induction n)
    case (Suc n)
    then show ?case by (cases "m \<le> n") (auto simp: nth_list_update less_Suc_eq)
  qed simp
  have "m \<le> cnt" "length (take m hs) = m" using assms by auto
  then have "blit ints 0 (take m hs) ! i = (if i < m then hs ! i else ints ! i)"
    "length (blit ints 0 (take m hs)) = cnt"
    using assms(1,5) by (auto simp: nth_blit)
  then show ?thesis
    using gen [of cnt "blit ints 0 (take m hs)"] assms(5) \<open>m \<le> cnt\<close>
    unfolding tree_first_level_def Let_def assms(2) [symmetric] by auto
qed

lemma length_tree_first_level [simp]:
  "2 * cnt - length hs \<le> length ints \<Longrightarrow> length (tree_first_level h cnt hs ints) = length ints"
  by (simp add: tree_first_level_def Let_def)

lemma tree_first_level_roots:
  assumes "length ints = cnt" "m = 2 * cnt - length hs" "length hs \<le> 2 * cnt" "cnt \<le> length hs"
  shows "tree_first_level h cnt hs ints =
    map (root h) (map Leaf (take m hs) @ combine (map Leaf (drop m hs)))"
proof (rule nth_equalityI)
  have l: "length (map Leaf (drop m hs)) = 2 * (cnt - m)" using assms by simp
  then have lc: "length (combine (map Leaf (drop m hs))) = cnt - m" by (rule length_combine)
  show "length (tree_first_level h cnt hs ints) =
      length (map (root h) (map Leaf (take m hs) @ combine (map Leaf (drop m hs))))"
    using assms lc by simp
  fix i assume "i < length (tree_first_level h cnt hs ints)"
  then have i: "i < cnt" using assms by simp
  show "tree_first_level h cnt hs ints ! i =
      map (root h) (map Leaf (take m hs) @ combine (map Leaf (drop m hs))) ! i"
  proof (cases "i < m")
    case True
    then show ?thesis using i assms by (simp add: nth_tree_first_level [OF assms i] nth_append)
  next
    case False
    then have "combine (map Leaf (drop m hs)) ! (i - m) =
        Node (map Leaf (drop m hs) ! (2 * (i - m))) (map Leaf (drop m hs) ! (2 * (i - m) + 1))"
      using i by (intro nth_combine [OF l]) auto
    then show ?thesis using False i assms lc
      by (simp add: nth_tree_first_level [OF assms i] nth_append)
  qed
qed

lemma tree_hash_with_eq:
  assumes "3 \<le> length hs" "length hs \<le> 2 ^ 28"
  obtains k where "1 \<le> k" "2 ^ k < length hs" "length hs \<le> 2 * 2 ^ k"
    "tree_hash_with h hs = Some (Inr (root h (merkle k hs)))"
proof -
  obtain k where k: "1 \<le> k" "2 ^ k < length hs" "length hs \<le> 2 ^ Suc k" "k < 28"
    and cnt: "tree_hash_cnt (of_nat (length hs)) = Some (Inr (2 ^ k))"
    using tree_hash_cnt_eq [OF assms] .
  have u: "unat ((2::u64) ^ k) = 2 ^ k" using k(4) by (simp add: unat_pow2)
  define m where "m = 2 * 2 ^ k - length hs"
  let ?ts = "map Leaf (take m hs) @ combine (map Leaf (drop m hs))"
  let ?ints = "tree_first_level h (2 ^ k) hs (replicate (2 ^ k) (replicate 32 0))"
  have ints: "?ints = map (root h) ?ts"
    by (rule tree_first_level_roots) (use k in \<open>auto simp: m_def\<close>)
  have "length (map Leaf (drop m hs)) = 2 * (2 ^ k - m)" using k by (simp add: m_def)
  then have len: "length ?ts = 2 ^ k" using k by (simp add: length_combine) (simp add: m_def)
  have "h (tree_levels h (2 ^ k) ?ints ! 0 @ tree_levels h (2 ^ k) ?ints ! 1) = root h (perfect k ?ts)"
    by (rule tree_levels_root) (use k len in \<open>simp_all add: ints\<close>)
  moreover have "m + 2 * (2 ^ k - m) = length hs" using k by (simp add: m_def)
  ultimately have "tree_hash_with h hs = Some (Inr (root h (merkle k hs)))"
    using assms(1) cnt u by (auto simp: tree_hash_with_def merkle_def Let_def simp flip: m_def)
  then show thesis using that k by simp
qed

lemma leaves_merkle:
  assumes "2 ^ k \<le> length hs" "length hs \<le> 2 * 2 ^ k"
  shows "leaves (merkle k hs) = hs" "all_depths (merkle k hs) \<subseteq> {k, Suc k}"
proof -
  define m where "m = 2 * 2 ^ k - length hs"
  let ?ts = "map Leaf (take m hs) @ combine (map Leaf (drop m hs))"
  have dl: "length (map Leaf (drop m hs)) = 2 * (2 ^ k - m)" using assms by (simp add: m_def)
  then have len: "length ?ts = 2 ^ k" using assms by (simp add: length_combine) (simp add: m_def)
  have "concat (map leaves (map Leaf xs)) = xs" for xs by (induction xs) simp_all
  then have "concat (map leaves ?ts) = hs" by (simp add: concat_leaves_combine)
  then show "leaves (merkle k hs) = hs"
    using leaves_perfect [OF len] by (simp add: merkle_def Let_def m_def)
  have "(\<Union>t\<in>set (combine (map Leaf (drop m hs))). all_depths t) \<subseteq> Suc ` {0}"
    by (rule depths_combine [OF dl]) auto
  moreover have "(\<Union>t\<in>set (map Leaf (take m hs)). all_depths t) \<subseteq> {0}" by auto
  ultimately have "(\<Union>t\<in>set ?ts. all_depths t) \<subseteq> {0, Suc 0}"
    unfolding set_append UN_Un by blast
  then have "all_depths (perfect k ?ts) \<subseteq> {0 + k, Suc (0 + k)}" by (rule depths_perfect [OF len])
  then show "all_depths (merkle k hs) \<subseteq> {k, Suc k}" by (simp add: merkle_def Let_def m_def)
qed

section \<open>Binding: equal roots mean equal leaves or a collision\<close>

primrec shape :: "mtree \<Rightarrow> mtree" where
  "shape (Leaf x) = Leaf []"
| "shape (Node l r) = Node (shape l) (shape r)"

lemma shape_combine: "map shape (combine ts) = combine (map shape ts)"
  by (induction ts rule: combine.induct) auto

lemma shape_perfect:
  "ts \<noteq> [] \<Longrightarrow> length ts = length ts' \<Longrightarrow> map shape ts = map shape ts' \<Longrightarrow>
   shape (perfect k ts) = shape (perfect k ts')"
proof (induction k arbitrary: ts ts')
  case 0
  then show ?case by (cases ts; cases ts') auto
next
  case (Suc k)
  have "map shape (combine ts) = map shape (combine ts')"
    using Suc.prems by (simp add: shape_combine)
  moreover have "combine ts \<noteq> []" using Suc.prems(1) by (cases ts rule: combine.cases) auto
  moreover have "length (combine ts) = length (combine ts')"
    using calculation(1) map_eq_imp_length_eq by blast
  ultimately show ?case using Suc.IH by simp
qed

lemma shape_merkle:
  assumes "length hs = length hs'" "2 ^ k \<le> length hs" "length hs \<le> 2 * 2 ^ k"
  shows "shape (merkle k hs) = shape (merkle k hs')"
proof -
  define m where "m = 2 * 2 ^ k - length hs"
  have leaf: "map shape (map Leaf xs) = replicate (length xs) (Leaf [])" for xs
    by (simp add: comp_def map_replicate_const)
  let ?ts = "\<lambda>hs. map Leaf (take m hs) @ combine (map Leaf (drop m hs))"
  have sh: "map shape (?ts hs) = map shape (?ts hs')"
    by (simp only: map_append shape_combine leaf length_take length_drop assms(1))
  have "length (map Leaf (drop m hs)) = 2 * (2 ^ k - m)" using assms by (simp add: m_def)
  then have "length (?ts hs) = 2 ^ k" using assms by (simp add: length_combine) (simp add: m_def)
  then have "?ts hs \<noteq> []" by (metis length_0_conv power_not_zero zero_neq_numeral)
  then show ?thesis
    using shape_perfect [OF _ map_eq_imp_length_eq [OF sh] sh, of k] assms(1)
    by (simp add: merkle_def Let_def m_def)
qed

locale node_hash =
  fixes h :: "bytes \<Rightarrow> bytes"
  assumes length_h: "length (h m) = 32"
begin

lemma length_root: "list_all (\<lambda>x. length x = 32) (leaves t) \<Longrightarrow> length (root h t) = 32"
  by (cases t) (simp_all add: length_h)

lemma root_binding:
  assumes "shape t = shape t'" "root h t = root h t'"
    and "list_all (\<lambda>x. length x = 32) (leaves t)" "list_all (\<lambda>x. length x = 32) (leaves t')"
  shows "leaves t = leaves t' \<or> (\<exists>x y. x \<noteq> y \<and> length x = 64 \<and> length y = 64 \<and> h x = h y)"
  using assms
proof (induction t arbitrary: t')
  case (Leaf x)
  then show ?case by (cases t') auto
next
  case (Node l r)
  then obtain l' r' where t': "t' = Node l' r'" by (cases t') auto
  have len: "length (root h l) = 32" "length (root h r) = 32" "length (root h l') = 32" "length (root h r') = 32"
    using Node.prems t' by (simp_all add: length_root)
  show ?case
  proof (cases "root h l @ root h r = root h l' @ root h r'")
    case True
    then have "root h l = root h l'" "root h r = root h r'" using len by simp_all
    then show ?thesis using Node t' by (auto simp: list_all_append)
  next
    case False
    moreover have "h (root h l @ root h r) = h (root h l' @ root h r')" using Node.prems(2) t' by simp
    moreover have "length (root h l @ root h r) = 64" "length (root h l' @ root h r') = 64"
      using len by simp_all
    ultimately show ?thesis by blast
  qed
qed

lemma tree_hash_with_binding:
  assumes "length hs = length hs'" "3 \<le> length hs" "length hs \<le> 2 ^ 28"
    and "list_all (\<lambda>x. length x = 32) hs" "list_all (\<lambda>x. length x = 32) hs'"
    and "tree_hash_with h hs = tree_hash_with h hs'"
  shows "hs = hs' \<or> (\<exists>x y. x \<noteq> y \<and> length x = 64 \<and> length y = 64 \<and> h x = h y)"
proof -
  obtain k where k: "2 ^ k < length hs" "length hs \<le> 2 * 2 ^ k"
    and e: "tree_hash_with h hs = Some (Inr (root h (merkle k hs)))"
    using tree_hash_with_eq [OF assms(2,3)] .
  obtain k' where k': "2 ^ k' < length hs'" "length hs' \<le> 2 * 2 ^ k'"
    and e': "tree_hash_with h hs' = Some (Inr (root h (merkle k' hs')))"
    using tree_hash_with_eq [of hs' h] assms(1-3) by auto
  have "(2::nat) ^ k < 2 ^ Suc k'" "(2::nat) ^ k' < 2 ^ Suc k" using k k' assms(1) by simp_all
  then have "k < Suc k'" "k' < Suc k" by (simp_all only: power_strict_increasing_iff one_less_numeral_iff
      semiring_norm)
  then have "k' = k" by simp
  have l: "leaves (merkle k hs) = hs" "leaves (merkle k hs') = hs'"
    using k assms(1) by (simp_all add: leaves_merkle)
  have "leaves (merkle k hs) = leaves (merkle k hs') \<or>
      (\<exists>x y. x \<noteq> y \<and> length x = 64 \<and> length y = 64 \<and> h x = h y)"
  proof (rule root_binding)
    show "shape (merkle k hs) = shape (merkle k hs')" 
      by (rule shape_merkle) (use assms(1) k in simp_all)
    show "root h (merkle k hs) = root h (merkle k hs')" using e e' assms(6) \<open>k' = k\<close> by simp
  qed (simp_all add: l assms(4,5))
  then show ?thesis by (simp add: l)
qed

end

interpretation fast: node_hash cn_fast_digest
  by unfold_locales simp

section \<open>Properties\<close>

text \<open>C10: for every non-empty list of at most \<open>2 ^ 28\<close> hashes, \<open>tree_hash\<close> returns the root of a
  binary tree that has the hashes as its leaves, in order, all within one level of each other.\<close>

theorem tree_hash_is_merkle_root:
  assumes "1 \<le> length hs" "length hs \<le> 2 ^ 28"
  shows "\<exists>t k. tree_hash hs = Some (Inr (root cn_fast_digest t)) \<and> leaves t = hs
    \<and> all_depths t \<subseteq> {k, Suc k}"
proof -
  consider "length hs = 1" | "length hs = 2" | "3 \<le> length hs" using assms(1) by linarith
  then show ?thesis
  proof cases
    case 1
    then obtain a where "hs = [a]" by (auto simp: length_Suc_conv)
    then show ?thesis
      by (intro exI [of _ "Leaf a"] exI [of _ 0]) (simp add: tree_hash_def tree_hash_with_def)
  next
    case 2
    then obtain a b where "hs = [a, b]" by (auto simp: length_Suc_conv numeral_2_eq_2)
    then show ?thesis
      by (intro exI [of _ "Node (Leaf a) (Leaf b)"] exI [of _ 0])
        (simp add: tree_hash_def tree_hash_with_def)
  next
    case 3
    then obtain k where k: "2 ^ k < length hs" "length hs \<le> 2 * 2 ^ k"
      and e: "tree_hash hs = Some (Inr (root cn_fast_digest (merkle k hs)))"
      using tree_hash_with_eq [of hs cn_fast_digest] assms(2) by (auto simp: tree_hash_def)
    then show ?thesis
      using leaves_merkle [OF less_imp_le [OF k(1)] k(2)]
      by (intro exI [of _ "merkle k hs"] exI [of _ k] conjI)
  qed
qed

theorem tree_hash_is_merkle_root_witness:
  "\<exists>t k. tree_hash [replicate 32 1, replicate 32 2, replicate 32 3] =
      Some (Inr (root cn_fast_digest t))
    \<and> leaves t = [replicate 32 1, replicate 32 2, replicate 32 3] \<and> all_depths t \<subseteq> {k, Suc k}"
  by (rule tree_hash_is_merkle_root) simp_all



text \<open>C23: on the range that the assertions admit, \<open>tree_hash_cnt\<close> returns, and returns the largest
  power of two strictly below the count.\<close>

theorem tree_hash_cnt_largest_power:
  assumes "3 \<le> n" "n \<le> 2 ^ 28"
  shows "\<exists>k. tree_hash_cnt (of_nat n) = Some (Inr (2 ^ k)) \<and> 2 ^ k < n \<and> n \<le> 2 * 2 ^ k
    \<and> unat (2 ^ k :: u64) = 2 ^ k"
proof -
  obtain k where "2 ^ k < n" "n \<le> 2 ^ Suc k" "k < 28" "tree_hash_cnt (of_nat n) = Some (Inr (2 ^ k))"
    using tree_hash_cnt_eq [OF assms] .
  then show ?thesis by (auto simp: unat_pow2)
qed

theorem tree_hash_cnt_largest_power_witness:
  "\<exists>k. tree_hash_cnt (of_nat 4) = Some (Inr (2 ^ k)) \<and> 2 ^ k < (4::nat) \<and> 4 \<le> 2 * (2::nat) ^ k
    \<and> unat (2 ^ k :: u64) = 2 ^ k"
  by (rule tree_hash_cnt_largest_power) simp_all

end
