(* ===== verification/Oaes_Tables.thy ===== *)
theory Oaes_Tables
  imports Prelude
begin

text \<open>
  The byte-level part of \<^verbatim>\<open>libcryptonote/crypto/oaes_lib.c\<close>: the substitution tables, the
  multiplication tables of GF(2^8), and the steps of an AES round on a column or a block, with
  their inverses.  The reference is arithmetic in GF(2^8) modulo \<open>x^8 + x^4 + x^3 + x + 1\<close>:
  every table entry is proved to be the product, or the affine image of the inverse, that the
  standard defines, and each step is proved to be undone by its inverse.
\<close>

section \<open>Return codes\<close>

datatype OAES_RET =
    OAES_RET_SUCCESS | OAES_RET_UNKNOWN | OAES_RET_ARG1 | OAES_RET_ARG2 | OAES_RET_ARG3
  | OAES_RET_ARG4 | OAES_RET_ARG5 | OAES_RET_NOKEY | OAES_RET_MEM | OAES_RET_BUF
  | OAES_RET_HEADER | OAES_RET_COUNT

text \<open>
  \<open>_rc = _rc || f()\<close> is the integer 0 or 1 of C's logical or: any failure becomes 1, which is
  \<open>OAES_RET_UNKNOWN\<close>.
\<close>

definition rc_or :: "OAES_RET \<Rightarrow> OAES_RET \<Rightarrow> OAES_RET" where
  "rc_or rc r =
     (if rc \<noteq> OAES_RET_SUCCESS \<or> r \<noteq> OAES_RET_SUCCESS then OAES_RET_UNKNOWN else OAES_RET_SUCCESS)"

text \<open>A helper that first returns \<open>OAES_RET_ARG1\<close> for a null pointer and then changes its target.\<close>

definition on_pointer :: "('a \<Rightarrow> 'a) \<Rightarrow> 'a option \<Rightarrow> OAES_RET \<times> 'a option" where
  "on_pointer f p =
     (case p of None \<Rightarrow> (OAES_RET_ARG1, None) | Some x \<Rightarrow> (OAES_RET_SUCCESS, Some (f x)))"

section \<open>Tables\<close>

definition OAES_BLOCK_SIZE :: nat where
  "OAES_BLOCK_SIZE = 16"

definition oaes_gf_8 :: bytes where
  "oaes_gf_8 = [0x01, 0x02, 0x04, 0x08, 0x10, 0x20, 0x40, 0x80, 0x1b, 0x36]"

definition oaes_sub_byte_value :: "bytes list" where
  "oaes_sub_byte_value = [
    [0x63, 0x7c, 0x77, 0x7b, 0xf2, 0x6b, 0x6f, 0xc5, 0x30, 0x01, 0x67, 0x2b, 0xfe, 0xd7, 0xab, 0x76],
    [0xca, 0x82, 0xc9, 0x7d, 0xfa, 0x59, 0x47, 0xf0, 0xad, 0xd4, 0xa2, 0xaf, 0x9c, 0xa4, 0x72, 0xc0],
    [0xb7, 0xfd, 0x93, 0x26, 0x36, 0x3f, 0xf7, 0xcc, 0x34, 0xa5, 0xe5, 0xf1, 0x71, 0xd8, 0x31, 0x15],
    [0x04, 0xc7, 0x23, 0xc3, 0x18, 0x96, 0x05, 0x9a, 0x07, 0x12, 0x80, 0xe2, 0xeb, 0x27, 0xb2, 0x75],
    [0x09, 0x83, 0x2c, 0x1a, 0x1b, 0x6e, 0x5a, 0xa0, 0x52, 0x3b, 0xd6, 0xb3, 0x29, 0xe3, 0x2f, 0x84],
    [0x53, 0xd1, 0x00, 0xed, 0x20, 0xfc, 0xb1, 0x5b, 0x6a, 0xcb, 0xbe, 0x39, 0x4a, 0x4c, 0x58, 0xcf],
    [0xd0, 0xef, 0xaa, 0xfb, 0x43, 0x4d, 0x33, 0x85, 0x45, 0xf9, 0x02, 0x7f, 0x50, 0x3c, 0x9f, 0xa8],
    [0x51, 0xa3, 0x40, 0x8f, 0x92, 0x9d, 0x38, 0xf5, 0xbc, 0xb6, 0xda, 0x21, 0x10, 0xff, 0xf3, 0xd2],
    [0xcd, 0x0c, 0x13, 0xec, 0x5f, 0x97, 0x44, 0x17, 0xc4, 0xa7, 0x7e, 0x3d, 0x64, 0x5d, 0x19, 0x73],
    [0x60, 0x81, 0x4f, 0xdc, 0x22, 0x2a, 0x90, 0x88, 0x46, 0xee, 0xb8, 0x14, 0xde, 0x5e, 0x0b, 0xdb],
    [0xe0, 0x32, 0x3a, 0x0a, 0x49, 0x06, 0x24, 0x5c, 0xc2, 0xd3, 0xac, 0x62, 0x91, 0x95, 0xe4, 0x79],
    [0xe7, 0xc8, 0x37, 0x6d, 0x8d, 0xd5, 0x4e, 0xa9, 0x6c, 0x56, 0xf4, 0xea, 0x65, 0x7a, 0xae, 0x08],
    [0xba, 0x78, 0x25, 0x2e, 0x1c, 0xa6, 0xb4, 0xc6, 0xe8, 0xdd, 0x74, 0x1f, 0x4b, 0xbd, 0x8b, 0x8a],
    [0x70, 0x3e, 0xb5, 0x66, 0x48, 0x03, 0xf6, 0x0e, 0x61, 0x35, 0x57, 0xb9, 0x86, 0xc1, 0x1d, 0x9e],
    [0xe1, 0xf8, 0x98, 0x11, 0x69, 0xd9, 0x8e, 0x94, 0x9b, 0x1e, 0x87, 0xe9, 0xce, 0x55, 0x28, 0xdf],
    [0x8c, 0xa1, 0x89, 0x0d, 0xbf, 0xe6, 0x42, 0x68, 0x41, 0x99, 0x2d, 0x0f, 0xb0, 0x54, 0xbb, 0x16]]"

definition oaes_inv_sub_byte_value :: "bytes list" where
  "oaes_inv_sub_byte_value = [
    [0x52, 0x09, 0x6a, 0xd5, 0x30, 0x36, 0xa5, 0x38, 0xbf, 0x40, 0xa3, 0x9e, 0x81, 0xf3, 0xd7, 0xfb],
    [0x7c, 0xe3, 0x39, 0x82, 0x9b, 0x2f, 0xff, 0x87, 0x34, 0x8e, 0x43, 0x44, 0xc4, 0xde, 0xe9, 0xcb],
    [0x54, 0x7b, 0x94, 0x32, 0xa6, 0xc2, 0x23, 0x3d, 0xee, 0x4c, 0x95, 0x0b, 0x42, 0xfa, 0xc3, 0x4e],
    [0x08, 0x2e, 0xa1, 0x66, 0x28, 0xd9, 0x24, 0xb2, 0x76, 0x5b, 0xa2, 0x49, 0x6d, 0x8b, 0xd1, 0x25],
    [0x72, 0xf8, 0xf6, 0x64, 0x86, 0x68, 0x98, 0x16, 0xd4, 0xa4, 0x5c, 0xcc, 0x5d, 0x65, 0xb6, 0x92],
    [0x6c, 0x70, 0x48, 0x50, 0xfd, 0xed, 0xb9, 0xda, 0x5e, 0x15, 0x46, 0x57, 0xa7, 0x8d, 0x9d, 0x84],
    [0x90, 0xd8, 0xab, 0x00, 0x8c, 0xbc, 0xd3, 0x0a, 0xf7, 0xe4, 0x58, 0x05, 0xb8, 0xb3, 0x45, 0x06],
    [0xd0, 0x2c, 0x1e, 0x8f, 0xca, 0x3f, 0x0f, 0x02, 0xc1, 0xaf, 0xbd, 0x03, 0x01, 0x13, 0x8a, 0x6b],
    [0x3a, 0x91, 0x11, 0x41, 0x4f, 0x67, 0xdc, 0xea, 0x97, 0xf2, 0xcf, 0xce, 0xf0, 0xb4, 0xe6, 0x73],
    [0x96, 0xac, 0x74, 0x22, 0xe7, 0xad, 0x35, 0x85, 0xe2, 0xf9, 0x37, 0xe8, 0x1c, 0x75, 0xdf, 0x6e],
    [0x47, 0xf1, 0x1a, 0x71, 0x1d, 0x29, 0xc5, 0x89, 0x6f, 0xb7, 0x62, 0x0e, 0xaa, 0x18, 0xbe, 0x1b],
    [0xfc, 0x56, 0x3e, 0x4b, 0xc6, 0xd2, 0x79, 0x20, 0x9a, 0xdb, 0xc0, 0xfe, 0x78, 0xcd, 0x5a, 0xf4],
    [0x1f, 0xdd, 0xa8, 0x33, 0x88, 0x07, 0xc7, 0x31, 0xb1, 0x12, 0x10, 0x59, 0x27, 0x80, 0xec, 0x5f],
    [0x60, 0x51, 0x7f, 0xa9, 0x19, 0xb5, 0x4a, 0x0d, 0x2d, 0xe5, 0x7a, 0x9f, 0x93, 0xc9, 0x9c, 0xef],
    [0xa0, 0xe0, 0x3b, 0x4d, 0xae, 0x2a, 0xf5, 0xb0, 0xc8, 0xeb, 0xbb, 0x3c, 0x83, 0x53, 0x99, 0x61],
    [0x17, 0x2b, 0x04, 0x7e, 0xba, 0x77, 0xd6, 0x26, 0xe1, 0x69, 0x14, 0x63, 0x55, 0x21, 0x0c, 0x7d]]"

definition oaes_gf_mul_2 :: "bytes list" where
  "oaes_gf_mul_2 = [
    [0x00, 0x02, 0x04, 0x06, 0x08, 0x0a, 0x0c, 0x0e, 0x10, 0x12, 0x14, 0x16, 0x18, 0x1a, 0x1c, 0x1e],
    [0x20, 0x22, 0x24, 0x26, 0x28, 0x2a, 0x2c, 0x2e, 0x30, 0x32, 0x34, 0x36, 0x38, 0x3a, 0x3c, 0x3e],
    [0x40, 0x42, 0x44, 0x46, 0x48, 0x4a, 0x4c, 0x4e, 0x50, 0x52, 0x54, 0x56, 0x58, 0x5a, 0x5c, 0x5e],
    [0x60, 0x62, 0x64, 0x66, 0x68, 0x6a, 0x6c, 0x6e, 0x70, 0x72, 0x74, 0x76, 0x78, 0x7a, 0x7c, 0x7e],
    [0x80, 0x82, 0x84, 0x86, 0x88, 0x8a, 0x8c, 0x8e, 0x90, 0x92, 0x94, 0x96, 0x98, 0x9a, 0x9c, 0x9e],
    [0xa0, 0xa2, 0xa4, 0xa6, 0xa8, 0xaa, 0xac, 0xae, 0xb0, 0xb2, 0xb4, 0xb6, 0xb8, 0xba, 0xbc, 0xbe],
    [0xc0, 0xc2, 0xc4, 0xc6, 0xc8, 0xca, 0xcc, 0xce, 0xd0, 0xd2, 0xd4, 0xd6, 0xd8, 0xda, 0xdc, 0xde],
    [0xe0, 0xe2, 0xe4, 0xe6, 0xe8, 0xea, 0xec, 0xee, 0xf0, 0xf2, 0xf4, 0xf6, 0xf8, 0xfa, 0xfc, 0xfe],
    [0x1b, 0x19, 0x1f, 0x1d, 0x13, 0x11, 0x17, 0x15, 0x0b, 0x09, 0x0f, 0x0d, 0x03, 0x01, 0x07, 0x05],
    [0x3b, 0x39, 0x3f, 0x3d, 0x33, 0x31, 0x37, 0x35, 0x2b, 0x29, 0x2f, 0x2d, 0x23, 0x21, 0x27, 0x25],
    [0x5b, 0x59, 0x5f, 0x5d, 0x53, 0x51, 0x57, 0x55, 0x4b, 0x49, 0x4f, 0x4d, 0x43, 0x41, 0x47, 0x45],
    [0x7b, 0x79, 0x7f, 0x7d, 0x73, 0x71, 0x77, 0x75, 0x6b, 0x69, 0x6f, 0x6d, 0x63, 0x61, 0x67, 0x65],
    [0x9b, 0x99, 0x9f, 0x9d, 0x93, 0x91, 0x97, 0x95, 0x8b, 0x89, 0x8f, 0x8d, 0x83, 0x81, 0x87, 0x85],
    [0xbb, 0xb9, 0xbf, 0xbd, 0xb3, 0xb1, 0xb7, 0xb5, 0xab, 0xa9, 0xaf, 0xad, 0xa3, 0xa1, 0xa7, 0xa5],
    [0xdb, 0xd9, 0xdf, 0xdd, 0xd3, 0xd1, 0xd7, 0xd5, 0xcb, 0xc9, 0xcf, 0xcd, 0xc3, 0xc1, 0xc7, 0xc5],
    [0xfb, 0xf9, 0xff, 0xfd, 0xf3, 0xf1, 0xf7, 0xf5, 0xeb, 0xe9, 0xef, 0xed, 0xe3, 0xe1, 0xe7, 0xe5]]"

definition oaes_gf_mul_3 :: "bytes list" where
  "oaes_gf_mul_3 = [
    [0x00, 0x03, 0x06, 0x05, 0x0c, 0x0f, 0x0a, 0x09, 0x18, 0x1b, 0x1e, 0x1d, 0x14, 0x17, 0x12, 0x11],
    [0x30, 0x33, 0x36, 0x35, 0x3c, 0x3f, 0x3a, 0x39, 0x28, 0x2b, 0x2e, 0x2d, 0x24, 0x27, 0x22, 0x21],
    [0x60, 0x63, 0x66, 0x65, 0x6c, 0x6f, 0x6a, 0x69, 0x78, 0x7b, 0x7e, 0x7d, 0x74, 0x77, 0x72, 0x71],
    [0x50, 0x53, 0x56, 0x55, 0x5c, 0x5f, 0x5a, 0x59, 0x48, 0x4b, 0x4e, 0x4d, 0x44, 0x47, 0x42, 0x41],
    [0xc0, 0xc3, 0xc6, 0xc5, 0xcc, 0xcf, 0xca, 0xc9, 0xd8, 0xdb, 0xde, 0xdd, 0xd4, 0xd7, 0xd2, 0xd1],
    [0xf0, 0xf3, 0xf6, 0xf5, 0xfc, 0xff, 0xfa, 0xf9, 0xe8, 0xeb, 0xee, 0xed, 0xe4, 0xe7, 0xe2, 0xe1],
    [0xa0, 0xa3, 0xa6, 0xa5, 0xac, 0xaf, 0xaa, 0xa9, 0xb8, 0xbb, 0xbe, 0xbd, 0xb4, 0xb7, 0xb2, 0xb1],
    [0x90, 0x93, 0x96, 0x95, 0x9c, 0x9f, 0x9a, 0x99, 0x88, 0x8b, 0x8e, 0x8d, 0x84, 0x87, 0x82, 0x81],
    [0x9b, 0x98, 0x9d, 0x9e, 0x97, 0x94, 0x91, 0x92, 0x83, 0x80, 0x85, 0x86, 0x8f, 0x8c, 0x89, 0x8a],
    [0xab, 0xa8, 0xad, 0xae, 0xa7, 0xa4, 0xa1, 0xa2, 0xb3, 0xb0, 0xb5, 0xb6, 0xbf, 0xbc, 0xb9, 0xba],
    [0xfb, 0xf8, 0xfd, 0xfe, 0xf7, 0xf4, 0xf1, 0xf2, 0xe3, 0xe0, 0xe5, 0xe6, 0xef, 0xec, 0xe9, 0xea],
    [0xcb, 0xc8, 0xcd, 0xce, 0xc7, 0xc4, 0xc1, 0xc2, 0xd3, 0xd0, 0xd5, 0xd6, 0xdf, 0xdc, 0xd9, 0xda],
    [0x5b, 0x58, 0x5d, 0x5e, 0x57, 0x54, 0x51, 0x52, 0x43, 0x40, 0x45, 0x46, 0x4f, 0x4c, 0x49, 0x4a],
    [0x6b, 0x68, 0x6d, 0x6e, 0x67, 0x64, 0x61, 0x62, 0x73, 0x70, 0x75, 0x76, 0x7f, 0x7c, 0x79, 0x7a],
    [0x3b, 0x38, 0x3d, 0x3e, 0x37, 0x34, 0x31, 0x32, 0x23, 0x20, 0x25, 0x26, 0x2f, 0x2c, 0x29, 0x2a],
    [0x0b, 0x08, 0x0d, 0x0e, 0x07, 0x04, 0x01, 0x02, 0x13, 0x10, 0x15, 0x16, 0x1f, 0x1c, 0x19, 0x1a]]"

definition oaes_gf_mul_9 :: "bytes list" where
  "oaes_gf_mul_9 = [
    [0x00, 0x09, 0x12, 0x1b, 0x24, 0x2d, 0x36, 0x3f, 0x48, 0x41, 0x5a, 0x53, 0x6c, 0x65, 0x7e, 0x77],
    [0x90, 0x99, 0x82, 0x8b, 0xb4, 0xbd, 0xa6, 0xaf, 0xd8, 0xd1, 0xca, 0xc3, 0xfc, 0xf5, 0xee, 0xe7],
    [0x3b, 0x32, 0x29, 0x20, 0x1f, 0x16, 0x0d, 0x04, 0x73, 0x7a, 0x61, 0x68, 0x57, 0x5e, 0x45, 0x4c],
    [0xab, 0xa2, 0xb9, 0xb0, 0x8f, 0x86, 0x9d, 0x94, 0xe3, 0xea, 0xf1, 0xf8, 0xc7, 0xce, 0xd5, 0xdc],
    [0x76, 0x7f, 0x64, 0x6d, 0x52, 0x5b, 0x40, 0x49, 0x3e, 0x37, 0x2c, 0x25, 0x1a, 0x13, 0x08, 0x01],
    [0xe6, 0xef, 0xf4, 0xfd, 0xc2, 0xcb, 0xd0, 0xd9, 0xae, 0xa7, 0xbc, 0xb5, 0x8a, 0x83, 0x98, 0x91],
    [0x4d, 0x44, 0x5f, 0x56, 0x69, 0x60, 0x7b, 0x72, 0x05, 0x0c, 0x17, 0x1e, 0x21, 0x28, 0x33, 0x3a],
    [0xdd, 0xd4, 0xcf, 0xc6, 0xf9, 0xf0, 0xeb, 0xe2, 0x95, 0x9c, 0x87, 0x8e, 0xb1, 0xb8, 0xa3, 0xaa],
    [0xec, 0xe5, 0xfe, 0xf7, 0xc8, 0xc1, 0xda, 0xd3, 0xa4, 0xad, 0xb6, 0xbf, 0x80, 0x89, 0x92, 0x9b],
    [0x7c, 0x75, 0x6e, 0x67, 0x58, 0x51, 0x4a, 0x43, 0x34, 0x3d, 0x26, 0x2f, 0x10, 0x19, 0x02, 0x0b],
    [0xd7, 0xde, 0xc5, 0xcc, 0xf3, 0xfa, 0xe1, 0xe8, 0x9f, 0x96, 0x8d, 0x84, 0xbb, 0xb2, 0xa9, 0xa0],
    [0x47, 0x4e, 0x55, 0x5c, 0x63, 0x6a, 0x71, 0x78, 0x0f, 0x06, 0x1d, 0x14, 0x2b, 0x22, 0x39, 0x30],
    [0x9a, 0x93, 0x88, 0x81, 0xbe, 0xb7, 0xac, 0xa5, 0xd2, 0xdb, 0xc0, 0xc9, 0xf6, 0xff, 0xe4, 0xed],
    [0x0a, 0x03, 0x18, 0x11, 0x2e, 0x27, 0x3c, 0x35, 0x42, 0x4b, 0x50, 0x59, 0x66, 0x6f, 0x74, 0x7d],
    [0xa1, 0xa8, 0xb3, 0xba, 0x85, 0x8c, 0x97, 0x9e, 0xe9, 0xe0, 0xfb, 0xf2, 0xcd, 0xc4, 0xdf, 0xd6],
    [0x31, 0x38, 0x23, 0x2a, 0x15, 0x1c, 0x07, 0x0e, 0x79, 0x70, 0x6b, 0x62, 0x5d, 0x54, 0x4f, 0x46]]"

definition oaes_gf_mul_b :: "bytes list" where
  "oaes_gf_mul_b = [
    [0x00, 0x0b, 0x16, 0x1d, 0x2c, 0x27, 0x3a, 0x31, 0x58, 0x53, 0x4e, 0x45, 0x74, 0x7f, 0x62, 0x69],
    [0xb0, 0xbb, 0xa6, 0xad, 0x9c, 0x97, 0x8a, 0x81, 0xe8, 0xe3, 0xfe, 0xf5, 0xc4, 0xcf, 0xd2, 0xd9],
    [0x7b, 0x70, 0x6d, 0x66, 0x57, 0x5c, 0x41, 0x4a, 0x23, 0x28, 0x35, 0x3e, 0x0f, 0x04, 0x19, 0x12],
    [0xcb, 0xc0, 0xdd, 0xd6, 0xe7, 0xec, 0xf1, 0xfa, 0x93, 0x98, 0x85, 0x8e, 0xbf, 0xb4, 0xa9, 0xa2],
    [0xf6, 0xfd, 0xe0, 0xeb, 0xda, 0xd1, 0xcc, 0xc7, 0xae, 0xa5, 0xb8, 0xb3, 0x82, 0x89, 0x94, 0x9f],
    [0x46, 0x4d, 0x50, 0x5b, 0x6a, 0x61, 0x7c, 0x77, 0x1e, 0x15, 0x08, 0x03, 0x32, 0x39, 0x24, 0x2f],
    [0x8d, 0x86, 0x9b, 0x90, 0xa1, 0xaa, 0xb7, 0xbc, 0xd5, 0xde, 0xc3, 0xc8, 0xf9, 0xf2, 0xef, 0xe4],
    [0x3d, 0x36, 0x2b, 0x20, 0x11, 0x1a, 0x07, 0x0c, 0x65, 0x6e, 0x73, 0x78, 0x49, 0x42, 0x5f, 0x54],
    [0xf7, 0xfc, 0xe1, 0xea, 0xdb, 0xd0, 0xcd, 0xc6, 0xaf, 0xa4, 0xb9, 0xb2, 0x83, 0x88, 0x95, 0x9e],
    [0x47, 0x4c, 0x51, 0x5a, 0x6b, 0x60, 0x7d, 0x76, 0x1f, 0x14, 0x09, 0x02, 0x33, 0x38, 0x25, 0x2e],
    [0x8c, 0x87, 0x9a, 0x91, 0xa0, 0xab, 0xb6, 0xbd, 0xd4, 0xdf, 0xc2, 0xc9, 0xf8, 0xf3, 0xee, 0xe5],
    [0x3c, 0x37, 0x2a, 0x21, 0x10, 0x1b, 0x06, 0x0d, 0x64, 0x6f, 0x72, 0x79, 0x48, 0x43, 0x5e, 0x55],
    [0x01, 0x0a, 0x17, 0x1c, 0x2d, 0x26, 0x3b, 0x30, 0x59, 0x52, 0x4f, 0x44, 0x75, 0x7e, 0x63, 0x68],
    [0xb1, 0xba, 0xa7, 0xac, 0x9d, 0x96, 0x8b, 0x80, 0xe9, 0xe2, 0xff, 0xf4, 0xc5, 0xce, 0xd3, 0xd8],
    [0x7a, 0x71, 0x6c, 0x67, 0x56, 0x5d, 0x40, 0x4b, 0x22, 0x29, 0x34, 0x3f, 0x0e, 0x05, 0x18, 0x13],
    [0xca, 0xc1, 0xdc, 0xd7, 0xe6, 0xed, 0xf0, 0xfb, 0x92, 0x99, 0x84, 0x8f, 0xbe, 0xb5, 0xa8, 0xa3]]"

definition oaes_gf_mul_d :: "bytes list" where
  "oaes_gf_mul_d = [
    [0x00, 0x0d, 0x1a, 0x17, 0x34, 0x39, 0x2e, 0x23, 0x68, 0x65, 0x72, 0x7f, 0x5c, 0x51, 0x46, 0x4b],
    [0xd0, 0xdd, 0xca, 0xc7, 0xe4, 0xe9, 0xfe, 0xf3, 0xb8, 0xb5, 0xa2, 0xaf, 0x8c, 0x81, 0x96, 0x9b],
    [0xbb, 0xb6, 0xa1, 0xac, 0x8f, 0x82, 0x95, 0x98, 0xd3, 0xde, 0xc9, 0xc4, 0xe7, 0xea, 0xfd, 0xf0],
    [0x6b, 0x66, 0x71, 0x7c, 0x5f, 0x52, 0x45, 0x48, 0x03, 0x0e, 0x19, 0x14, 0x37, 0x3a, 0x2d, 0x20],
    [0x6d, 0x60, 0x77, 0x7a, 0x59, 0x54, 0x43, 0x4e, 0x05, 0x08, 0x1f, 0x12, 0x31, 0x3c, 0x2b, 0x26],
    [0xbd, 0xb0, 0xa7, 0xaa, 0x89, 0x84, 0x93, 0x9e, 0xd5, 0xd8, 0xcf, 0xc2, 0xe1, 0xec, 0xfb, 0xf6],
    [0xd6, 0xdb, 0xcc, 0xc1, 0xe2, 0xef, 0xf8, 0xf5, 0xbe, 0xb3, 0xa4, 0xa9, 0x8a, 0x87, 0x90, 0x9d],
    [0x06, 0x0b, 0x1c, 0x11, 0x32, 0x3f, 0x28, 0x25, 0x6e, 0x63, 0x74, 0x79, 0x5a, 0x57, 0x40, 0x4d],
    [0xda, 0xd7, 0xc0, 0xcd, 0xee, 0xe3, 0xf4, 0xf9, 0xb2, 0xbf, 0xa8, 0xa5, 0x86, 0x8b, 0x9c, 0x91],
    [0x0a, 0x07, 0x10, 0x1d, 0x3e, 0x33, 0x24, 0x29, 0x62, 0x6f, 0x78, 0x75, 0x56, 0x5b, 0x4c, 0x41],
    [0x61, 0x6c, 0x7b, 0x76, 0x55, 0x58, 0x4f, 0x42, 0x09, 0x04, 0x13, 0x1e, 0x3d, 0x30, 0x27, 0x2a],
    [0xb1, 0xbc, 0xab, 0xa6, 0x85, 0x88, 0x9f, 0x92, 0xd9, 0xd4, 0xc3, 0xce, 0xed, 0xe0, 0xf7, 0xfa],
    [0xb7, 0xba, 0xad, 0xa0, 0x83, 0x8e, 0x99, 0x94, 0xdf, 0xd2, 0xc5, 0xc8, 0xeb, 0xe6, 0xf1, 0xfc],
    [0x67, 0x6a, 0x7d, 0x70, 0x53, 0x5e, 0x49, 0x44, 0x0f, 0x02, 0x15, 0x18, 0x3b, 0x36, 0x21, 0x2c],
    [0x0c, 0x01, 0x16, 0x1b, 0x38, 0x35, 0x22, 0x2f, 0x64, 0x69, 0x7e, 0x73, 0x50, 0x5d, 0x4a, 0x47],
    [0xdc, 0xd1, 0xc6, 0xcb, 0xe8, 0xe5, 0xf2, 0xff, 0xb4, 0xb9, 0xae, 0xa3, 0x80, 0x8d, 0x9a, 0x97]]"

definition oaes_gf_mul_e :: "bytes list" where
  "oaes_gf_mul_e = [
    [0x00, 0x0e, 0x1c, 0x12, 0x38, 0x36, 0x24, 0x2a, 0x70, 0x7e, 0x6c, 0x62, 0x48, 0x46, 0x54, 0x5a],
    [0xe0, 0xee, 0xfc, 0xf2, 0xd8, 0xd6, 0xc4, 0xca, 0x90, 0x9e, 0x8c, 0x82, 0xa8, 0xa6, 0xb4, 0xba],
    [0xdb, 0xd5, 0xc7, 0xc9, 0xe3, 0xed, 0xff, 0xf1, 0xab, 0xa5, 0xb7, 0xb9, 0x93, 0x9d, 0x8f, 0x81],
    [0x3b, 0x35, 0x27, 0x29, 0x03, 0x0d, 0x1f, 0x11, 0x4b, 0x45, 0x57, 0x59, 0x73, 0x7d, 0x6f, 0x61],
    [0xad, 0xa3, 0xb1, 0xbf, 0x95, 0x9b, 0x89, 0x87, 0xdd, 0xd3, 0xc1, 0xcf, 0xe5, 0xeb, 0xf9, 0xf7],
    [0x4d, 0x43, 0x51, 0x5f, 0x75, 0x7b, 0x69, 0x67, 0x3d, 0x33, 0x21, 0x2f, 0x05, 0x0b, 0x19, 0x17],
    [0x76, 0x78, 0x6a, 0x64, 0x4e, 0x40, 0x52, 0x5c, 0x06, 0x08, 0x1a, 0x14, 0x3e, 0x30, 0x22, 0x2c],
    [0x96, 0x98, 0x8a, 0x84, 0xae, 0xa0, 0xb2, 0xbc, 0xe6, 0xe8, 0xfa, 0xf4, 0xde, 0xd0, 0xc2, 0xcc],
    [0x41, 0x4f, 0x5d, 0x53, 0x79, 0x77, 0x65, 0x6b, 0x31, 0x3f, 0x2d, 0x23, 0x09, 0x07, 0x15, 0x1b],
    [0xa1, 0xaf, 0xbd, 0xb3, 0x99, 0x97, 0x85, 0x8b, 0xd1, 0xdf, 0xcd, 0xc3, 0xe9, 0xe7, 0xf5, 0xfb],
    [0x9a, 0x94, 0x86, 0x88, 0xa2, 0xac, 0xbe, 0xb0, 0xea, 0xe4, 0xf6, 0xf8, 0xd2, 0xdc, 0xce, 0xc0],
    [0x7a, 0x74, 0x66, 0x68, 0x42, 0x4c, 0x5e, 0x50, 0x0a, 0x04, 0x16, 0x18, 0x32, 0x3c, 0x2e, 0x20],
    [0xec, 0xe2, 0xf0, 0xfe, 0xd4, 0xda, 0xc8, 0xc6, 0x9c, 0x92, 0x80, 0x8e, 0xa4, 0xaa, 0xb8, 0xb6],
    [0x0c, 0x02, 0x10, 0x1e, 0x34, 0x3a, 0x28, 0x26, 0x7c, 0x72, 0x60, 0x6e, 0x44, 0x4a, 0x58, 0x56],
    [0x37, 0x39, 0x2b, 0x25, 0x0f, 0x01, 0x13, 0x1d, 0x47, 0x49, 0x5b, 0x55, 0x7f, 0x71, 0x63, 0x6d],
    [0xd7, 0xd9, 0xcb, 0xc5, 0xef, 0xe1, 0xf3, 0xfd, 0xa7, 0xa9, 0xbb, 0xb5, 0x9f, 0x91, 0x83, 0x8d]]"

section \<open>Steps on bytes, columns and blocks\<close>

text \<open>Row = high nibble, column = low nibble.\<close>

definition table_at :: "bytes list \<Rightarrow> byte \<Rightarrow> byte" where
  "table_at t b = t ! unat (drop_bit 4 (b AND 0xf0)) ! unat (b AND 0x0f)"

definition sub_byte :: "byte \<Rightarrow> byte" where
  "sub_byte b = table_at oaes_sub_byte_value b"

definition inv_sub_byte :: "byte \<Rightarrow> byte" where
  "inv_sub_byte b = table_at oaes_inv_sub_byte_value b"

definition oaes_sub_byte :: "byte option \<Rightarrow> OAES_RET \<times> byte option" where
  "oaes_sub_byte = on_pointer sub_byte"

definition oaes_inv_sub_byte :: "byte option \<Rightarrow> OAES_RET \<times> byte option" where
  "oaes_inv_sub_byte = on_pointer inv_sub_byte"

definition word_rot_left :: "bytes \<Rightarrow> bytes" where
  "word_rot_left w = [w ! 1, w ! 2, w ! 3, w ! 0]"

definition oaes_word_rot_left :: "bytes option \<Rightarrow> OAES_RET \<times> bytes option" where
  "oaes_word_rot_left = on_pointer word_rot_left"

definition shift_rows :: "bytes \<Rightarrow> bytes" where
  "shift_rows block =
    [block ! 0x00, block ! 0x05, block ! 0x0a, block ! 0x0f,
     block ! 0x04, block ! 0x09, block ! 0x0e, block ! 0x03,
     block ! 0x08, block ! 0x0d, block ! 0x02, block ! 0x07,
     block ! 0x0c, block ! 0x01, block ! 0x06, block ! 0x0b]"

definition oaes_shift_rows :: "bytes option \<Rightarrow> OAES_RET \<times> bytes option" where
  "oaes_shift_rows = on_pointer shift_rows"

definition inv_shift_rows :: "bytes \<Rightarrow> bytes" where
  "inv_shift_rows block =
    [block ! 0x00, block ! 0x0d, block ! 0x0a, block ! 0x07,
     block ! 0x04, block ! 0x01, block ! 0x0e, block ! 0x0b,
     block ! 0x08, block ! 0x05, block ! 0x02, block ! 0x0f,
     block ! 0x0c, block ! 0x09, block ! 0x06, block ! 0x03]"

definition oaes_inv_shift_rows :: "bytes option \<Rightarrow> OAES_RET \<times> bytes option" where
  "oaes_inv_shift_rows = on_pointer inv_shift_rows"

definition oaes_gf_mul :: "byte \<Rightarrow> byte \<Rightarrow> byte" where
  "oaes_gf_mul left right =
     (if right = 0x02 then table_at oaes_gf_mul_2 left
      else if right = 0x03 then table_at oaes_gf_mul_3 left
      else if right = 0x09 then table_at oaes_gf_mul_9 left
      else if right = 0x0b then table_at oaes_gf_mul_b left
      else if right = 0x0d then table_at oaes_gf_mul_d left
      else if right = 0x0e then table_at oaes_gf_mul_e left
      else left)"

definition mix_cols :: "bytes \<Rightarrow> bytes" where
  "mix_cols w =
    [oaes_gf_mul (w ! 0) 0x02 XOR oaes_gf_mul (w ! 1) 0x03 XOR w ! 2 XOR w ! 3,
     w ! 0 XOR oaes_gf_mul (w ! 1) 0x02 XOR oaes_gf_mul (w ! 2) 0x03 XOR w ! 3,
     w ! 0 XOR w ! 1 XOR oaes_gf_mul (w ! 2) 0x02 XOR oaes_gf_mul (w ! 3) 0x03,
     oaes_gf_mul (w ! 0) 0x03 XOR w ! 1 XOR w ! 2 XOR oaes_gf_mul (w ! 3) 0x02]"

definition oaes_mix_cols :: "bytes option \<Rightarrow> OAES_RET \<times> bytes option" where
  "oaes_mix_cols = on_pointer mix_cols"

definition inv_mix_cols :: "bytes \<Rightarrow> bytes" where
  "inv_mix_cols w =
    [oaes_gf_mul (w ! 0) 0x0e XOR oaes_gf_mul (w ! 1) 0x0b XOR
       oaes_gf_mul (w ! 2) 0x0d XOR oaes_gf_mul (w ! 3) 0x09,
     oaes_gf_mul (w ! 0) 0x09 XOR oaes_gf_mul (w ! 1) 0x0e XOR
       oaes_gf_mul (w ! 2) 0x0b XOR oaes_gf_mul (w ! 3) 0x0d,
     oaes_gf_mul (w ! 0) 0x0d XOR oaes_gf_mul (w ! 1) 0x09 XOR
       oaes_gf_mul (w ! 2) 0x0e XOR oaes_gf_mul (w ! 3) 0x0b,
     oaes_gf_mul (w ! 0) 0x0b XOR oaes_gf_mul (w ! 1) 0x0d XOR
       oaes_gf_mul (w ! 2) 0x09 XOR oaes_gf_mul (w ! 3) 0x0e]"

definition oaes_inv_mix_cols :: "bytes option \<Rightarrow> OAES_RET \<times> bytes option" where
  "oaes_inv_mix_cols = on_pointer inv_mix_cols"

section \<open>The reference field\<close>

text \<open>Multiplication by \<open>x\<close> and by an arbitrary element, most significant factor bit first.\<close>

definition xtime :: "byte \<Rightarrow> byte" where
  "xtime a = push_bit 1 a XOR (if bit a 7 then 0x1b else 0)"

definition gf_mult :: "byte \<Rightarrow> byte \<Rightarrow> byte" where
  "gf_mult a b =
     fold (\<lambda>i acc. xtime acc XOR (if bit b i then a else 0)) [7, 6, 5, 4, 3, 2, 1, 0] 0"

text \<open>
  The affine map of the standard: bit \<open>i\<close> is the sum of bits \<open>i, i+4, i+5, i+6, i+7\<close> (modulo 8)
  and of bit \<open>i\<close> of 0x63; and its inverse.
\<close>

definition rotl8 :: "nat \<Rightarrow> byte \<Rightarrow> byte" where
  "rotl8 n b = (push_bit n b OR drop_bit (8 - n) b)"

definition affine :: "byte \<Rightarrow> byte" where
  "affine b = b XOR rotl8 1 b XOR rotl8 2 b XOR rotl8 3 b XOR rotl8 4 b XOR 0x63"

definition inv_affine :: "byte \<Rightarrow> byte" where
  "inv_affine s = rotl8 1 s XOR rotl8 3 s XOR rotl8 6 s XOR 0x05"

section \<open>The tables hold what the field defines\<close>

definition all_bytes :: bytes where
  "all_bytes = map of_nat [0..<256]"

lemma unat_byte: "unat (b::byte) < 256"
  using unsigned_less [of b, where ?'a = nat] by simp

lemma length_all_bytes [simp]: "length all_bytes = 256"
  by (simp add: all_bytes_def)

lemma nth_all_bytes [simp]: "all_bytes ! unat b = b"
  using unat_byte [of b] by (simp add: all_bytes_def)

lemma nth_concat_rows:
  "\<forall>r\<in>set t. length r = n \<Longrightarrow> y < length t \<Longrightarrow> x < n \<Longrightarrow> concat t ! (n * y + x) = t ! y ! x"
proof (induction t arbitrary: y)
  case (Cons r t)
  then show ?case by (cases y) (simp_all add: nth_append)
qed simp

lemma unat_nibbles: "unat (b::byte) = 16 * unat (drop_bit 4 (b AND 0xf0)) + unat (b AND 0x0f)"
proof -
  have "(b AND 0x0f) = take_bit 4 b" by (simp add: take_bit_eq_mask mask_eq_exp_minus_1)
  moreover have "drop_bit 4 (b AND 0xf0) = drop_bit 4 b"
  proof (rule bit_word_eqI)
    fix n assume n: "n < LENGTH(8)"
    show "bit (drop_bit 4 (b AND 0xf0)) n = bit (drop_bit 4 b) n"
    proof (cases "n < 4")
      case True
      then have "n = 0 \<or> n = 1 \<or> n = 2 \<or> n = 3" by linarith
      then show ?thesis by (auto simp: bit_drop_bit_eq bit_and_iff simp del: drop_bit_and)
    next
      case False
      then show ?thesis using bit_imp_le_length [of b "4 + n"]
        by (auto simp: bit_drop_bit_eq bit_and_iff simp del: drop_bit_and)
    qed
  qed
  moreover have "unat (take_bit 4 b) = unat b mod 16" "unat (drop_bit 4 b) = unat b div 16"
    by (simp_all only: unsigned_take_bit_eq unsigned_drop_bit_eq take_bit_eq_mod drop_bit_eq_div)
      (simp_all add: unat_mod unat_div)
  ultimately show ?thesis by (simp only: mult_div_mod_eq)
qed

lemma table_at_concat:
  assumes "length t = 16" "\<forall>r\<in>set t. length r = 16"
  shows "table_at t b = concat t ! unat b"
proof -
  have "unat (drop_bit 4 (b AND 0xf0)) < 16" "unat (b AND 0x0f) < 16"
    using unat_nibbles [of b] unat_byte [of b]
      word_and_le1 [of b "0x0f", THEN word_le_nat_alt [THEN iffD1]] by auto
  then show ?thesis
    using assms nth_concat_rows [of t 16 "unat (drop_bit 4 (b AND 0xf0))" "unat (b AND 0x0f)"]
    by (simp add: table_at_def unat_nibbles [of b])
qed

lemma table_at_map:
  assumes "length t = 16" "\<forall>r\<in>set t. length r = 16" "concat t = map f all_bytes"
  shows "table_at t b = f b"
  using assms unat_byte [of b] by (simp add: table_at_concat)

lemma all_bytes_list: "all_bytes = [
    0x00, 0x01, 0x02, 0x03, 0x04, 0x05, 0x06, 0x07, 0x08, 0x09, 0x0a, 0x0b, 0x0c, 0x0d, 0x0e,
    0x0f, 0x10, 0x11, 0x12, 0x13, 0x14, 0x15, 0x16, 0x17, 0x18, 0x19, 0x1a, 0x1b, 0x1c, 0x1d,
    0x1e, 0x1f, 0x20, 0x21, 0x22, 0x23, 0x24, 0x25, 0x26, 0x27, 0x28, 0x29, 0x2a, 0x2b, 0x2c,
    0x2d, 0x2e, 0x2f, 0x30, 0x31, 0x32, 0x33, 0x34, 0x35, 0x36, 0x37, 0x38, 0x39, 0x3a, 0x3b,
    0x3c, 0x3d, 0x3e, 0x3f, 0x40, 0x41, 0x42, 0x43, 0x44, 0x45, 0x46, 0x47, 0x48, 0x49, 0x4a,
    0x4b, 0x4c, 0x4d, 0x4e, 0x4f, 0x50, 0x51, 0x52, 0x53, 0x54, 0x55, 0x56, 0x57, 0x58, 0x59,
    0x5a, 0x5b, 0x5c, 0x5d, 0x5e, 0x5f, 0x60, 0x61, 0x62, 0x63, 0x64, 0x65, 0x66, 0x67, 0x68,
    0x69, 0x6a, 0x6b, 0x6c, 0x6d, 0x6e, 0x6f, 0x70, 0x71, 0x72, 0x73, 0x74, 0x75, 0x76, 0x77,
    0x78, 0x79, 0x7a, 0x7b, 0x7c, 0x7d, 0x7e, 0x7f, 0x80, 0x81, 0x82, 0x83, 0x84, 0x85, 0x86,
    0x87, 0x88, 0x89, 0x8a, 0x8b, 0x8c, 0x8d, 0x8e, 0x8f, 0x90, 0x91, 0x92, 0x93, 0x94, 0x95,
    0x96, 0x97, 0x98, 0x99, 0x9a, 0x9b, 0x9c, 0x9d, 0x9e, 0x9f, 0xa0, 0xa1, 0xa2, 0xa3, 0xa4,
    0xa5, 0xa6, 0xa7, 0xa8, 0xa9, 0xaa, 0xab, 0xac, 0xad, 0xae, 0xaf, 0xb0, 0xb1, 0xb2, 0xb3,
    0xb4, 0xb5, 0xb6, 0xb7, 0xb8, 0xb9, 0xba, 0xbb, 0xbc, 0xbd, 0xbe, 0xbf, 0xc0, 0xc1, 0xc2,
    0xc3, 0xc4, 0xc5, 0xc6, 0xc7, 0xc8, 0xc9, 0xca, 0xcb, 0xcc, 0xcd, 0xce, 0xcf, 0xd0, 0xd1,
    0xd2, 0xd3, 0xd4, 0xd5, 0xd6, 0xd7, 0xd8, 0xd9, 0xda, 0xdb, 0xdc, 0xdd, 0xde, 0xdf, 0xe0,
    0xe1, 0xe2, 0xe3, 0xe4, 0xe5, 0xe6, 0xe7, 0xe8, 0xe9, 0xea, 0xeb, 0xec, 0xed, 0xee, 0xef,
    0xf0, 0xf1, 0xf2, 0xf3, 0xf4, 0xf5, 0xf6, 0xf7, 0xf8, 0xf9, 0xfa, 0xfb, 0xfc, 0xfd, 0xfe,
    0xff]"
  by code_simp


lemma gf_mul_tables:
  "concat oaes_gf_mul_2 = map xtime all_bytes"
  "concat oaes_gf_mul_3 = map (\<lambda>a. xtime a XOR a) all_bytes"
  "concat oaes_gf_mul_9 = map (\<lambda>a. xtime (xtime (xtime a)) XOR a) all_bytes"
  "concat oaes_gf_mul_b = map (\<lambda>a. xtime (xtime (xtime a)) XOR (xtime a XOR a)) all_bytes"
  "concat oaes_gf_mul_d = map (\<lambda>a. xtime (xtime (xtime a)) XOR (xtime (xtime a) XOR a)) all_bytes"
  "concat oaes_gf_mul_e = map (\<lambda>a. xtime (xtime (xtime a)) XOR (xtime (xtime a) XOR xtime a)) all_bytes"
  by (simp_all add: oaes_gf_mul_2_def oaes_gf_mul_3_def oaes_gf_mul_9_def oaes_gf_mul_b_def
      oaes_gf_mul_d_def oaes_gf_mul_e_def all_bytes_list xtime_def)

lemma inv_sub_table:
  "map (\<lambda>b. concat oaes_inv_sub_byte_value ! unat b) (concat oaes_sub_byte_value) = all_bytes"
  by code_simp

lemma sub_table:
  "list_all2 (\<lambda>a s. affine (inv_affine s) = s \<and> gf_mult a (inv_affine s) = (if a = 0 then 0 else 1)
     \<and> (a = 0 \<longrightarrow> inv_affine s = 0)) all_bytes (concat oaes_sub_byte_value)"
  by code_simp

lemma table_shapes:
  "length oaes_sub_byte_value = 16" "\<forall>r\<in>set oaes_sub_byte_value. length r = 16"
  "length oaes_inv_sub_byte_value = 16" "\<forall>r\<in>set oaes_inv_sub_byte_value. length r = 16"
  "length oaes_gf_mul_2 = 16" "\<forall>r\<in>set oaes_gf_mul_2. length r = 16"
  "length oaes_gf_mul_3 = 16" "\<forall>r\<in>set oaes_gf_mul_3. length r = 16"
  "length oaes_gf_mul_9 = 16" "\<forall>r\<in>set oaes_gf_mul_9. length r = 16"
  "length oaes_gf_mul_b = 16" "\<forall>r\<in>set oaes_gf_mul_b. length r = 16"
  "length oaes_gf_mul_d = 16" "\<forall>r\<in>set oaes_gf_mul_d. length r = 16"
  "length oaes_gf_mul_e = 16" "\<forall>r\<in>set oaes_gf_mul_e. length r = 16"
  by (simp_all add: oaes_sub_byte_value_def oaes_inv_sub_byte_value_def oaes_gf_mul_2_def
      oaes_gf_mul_3_def oaes_gf_mul_9_def oaes_gf_mul_b_def oaes_gf_mul_d_def oaes_gf_mul_e_def)

lemma oaes_gf_mul_eqs:
  "oaes_gf_mul a 2 = xtime a"
  "oaes_gf_mul a 3 = xtime a XOR a"
  "oaes_gf_mul a 9 = xtime (xtime (xtime a)) XOR a"
  "oaes_gf_mul a 0xb = xtime (xtime (xtime a)) XOR (xtime a XOR a)"
  "oaes_gf_mul a 0xd = xtime (xtime (xtime a)) XOR (xtime (xtime a) XOR a)"
  "oaes_gf_mul a 0xe = xtime (xtime (xtime a)) XOR (xtime (xtime a) XOR xtime a)"
  using gf_mul_tables [THEN table_at_map [rotated 2]] table_shapes
  by (simp_all add: oaes_gf_mul_def)

lemma xtime_0 [simp]: "xtime 0 = 0"
  by (simp add: xtime_def)

lemma xtime_xor: "xtime (a XOR b) = xtime a XOR xtime b"
  by (rule bit_word_eqI) (auto simp: xtime_def bit_xor_iff push_bit_xor)

lemma sub_byte_nth: "sub_byte a = concat oaes_sub_byte_value ! unat a"
  by (simp add: sub_byte_def table_at_concat table_shapes)

lemma inv_sub_byte_nth: "inv_sub_byte a = concat oaes_inv_sub_byte_value ! unat a"
  by (simp add: inv_sub_byte_def table_at_concat table_shapes)

lemma length_concat_rows:
  "\<forall>r\<in>set t. length r = n \<Longrightarrow> length (concat t) = n * length t"
  by (induction t) auto

lemma inv_sub_byte_sub_byte [simp]: "inv_sub_byte (sub_byte a) = a"
proof -
  have "map (\<lambda>b. inv_sub_byte b) (concat oaes_sub_byte_value) ! unat a = a"
    using inv_sub_table by (simp add: inv_sub_byte_nth)
  moreover have "unat a < length (concat oaes_sub_byte_value)"
    using unat_byte [of a] length_concat_rows [OF table_shapes(2)] by (simp add: table_shapes)
  ultimately show ?thesis by (simp add: sub_byte_nth del: length_concat)
qed

lemma sub_byte_affine:
  "sub_byte a = affine (inv_affine (sub_byte a))"
  "gf_mult a (inv_affine (sub_byte a)) = (if a = 0 then 0 else 1)"
  "a = 0 \<Longrightarrow> inv_affine (sub_byte a) = 0"
proof -
  have "unat a < length all_bytes" using unat_byte [of a] by simp
  from list_all2_nthD [OF sub_table this]
  show "sub_byte a = affine (inv_affine (sub_byte a))"
    "gf_mult a (inv_affine (sub_byte a)) = (if a = 0 then 0 else 1)"
    "a = 0 \<Longrightarrow> inv_affine (sub_byte a) = 0"
    by (simp_all only: sub_byte_nth nth_all_bytes)
qed

lemma inv_mix_cols_mix_cols:
  "inv_mix_cols (mix_cols [a, b, c, d]) = [a, b, c, d]"
  by (simp add: inv_mix_cols_def mix_cols_def oaes_gf_mul_eqs xtime_xor xor_ac)

lemma gf_mult_eqs: 
  "oaes_gf_mul a 2 = gf_mult a 2"
  "oaes_gf_mul a 3 = gf_mult a 3"
  "oaes_gf_mul a 9 = gf_mult a 9"
  "oaes_gf_mul a 0xb = gf_mult a 0xb"
  "oaes_gf_mul a 0xd = gf_mult a 0xd"
  "oaes_gf_mul a 0xe = gf_mult a 0xe"
  by (simp_all add: oaes_gf_mul_eqs gf_mult_def xtime_xor xor_ac)

section \<open>What the tables and steps compute\<close>

text \<open>For the six constants the code multiplies with, \<open>oaes_gf_mul\<close> returns the product in
  GF(2^8) modulo x^8 + x^4 + x^3 + x + 1, for every one of the 256 left operands.\<close>

lemma gf_mul_is_field_product:
  "r \<in> {0x02, 0x03, 0x09, 0x0b, 0x0d, 0x0e} \<Longrightarrow> oaes_gf_mul a r = gf_mult a r"
  using gf_mult_eqs by auto

lemma gf_mul_is_field_product_witness:
  "(0x0e::byte) \<in> {0x02, 0x03, 0x09, 0x0b, 0x0d, 0x0e} \<and> oaes_gf_mul 0x57 0x0e = gf_mult 0x57 0x0e"
  using gf_mul_is_field_product [of "0x0e" "0x57"] by simp

text \<open>The substitution table is the S-box of the standard: every entry is the affine image of
  the multiplicative inverse of its index (of 0 for index 0).\<close>

lemma sub_byte_is_affine_inverse:
  "\<exists>i. sub_byte a = affine i \<and> (if a = 0 then i = 0 else gf_mult a i = 1)"
  using sub_byte_affine [of a] by (intro exI [of _ "inv_affine (sub_byte a)"]) (simp split: if_splits)

lemma length_aes_steps [simp]:
  "length (shift_rows b) = 16" "length (inv_shift_rows b) = 16"
  "length (mix_cols w) = 4" "length (inv_mix_cols w) = 4" "length (word_rot_left w) = 4"
  by (simp_all add: shift_rows_def inv_shift_rows_def mix_cols_def inv_mix_cols_def word_rot_left_def)

lemma list_4: "length xs = 4 \<Longrightarrow> xs = [xs ! 0, xs ! 1, xs ! 2, xs ! 3]"
  by (rule nth_equalityI) (auto simp: less_Suc_eq numeral_eq_Suc)

lemma list_16:
  "length xs = 16 \<Longrightarrow> xs = [xs ! 0, xs ! 1, xs ! 2, xs ! 3, xs ! 4, xs ! 5, xs ! 6, xs ! 7,
     xs ! 8, xs ! 9, xs ! 10, xs ! 11, xs ! 12, xs ! 13, xs ! 14, xs ! 15]"
  by (rule nth_equalityI) (auto simp: less_Suc_eq numeral_eq_Suc)

lemma inv_mix_cols_cancel: "length w = 4 \<Longrightarrow> inv_mix_cols (mix_cols w) = w"
  by (metis list_4 inv_mix_cols_mix_cols)

lemma inv_shift_rows_cancel: "length b = 16 \<Longrightarrow> inv_shift_rows (shift_rows b) = b"
  using list_16 [of b] by (simp add: inv_shift_rows_def shift_rows_def)

end
