(* ===== verification/Oaes_Key.thy ===== *)
theory Oaes_Key
  imports Oaes_Tables
begin

text \<open>
  Key and context management of \<^verbatim>\<open>libcryptonote/crypto/oaes_lib.c\<close>: allocation, options, key
  generation, expansion, export and import, with the C library's allocator and random generator
  as explicit state.  A pointer argument is an option (\<open>None\<close> is the null pointer), a pointer to a
  length that is read and written is a \<open>nat option\<close> that is returned, a buffer the function writes
  is a \<open>bytes option\<close> that is returned.  Lengths of keys are naturals: the three key lengths
  are below 33, so that no sum or product of the code wraps.

  Shown: the key schedule is the one of FIPS 197; every operation keeps a context well-formed and
  balances allocated against freed blocks, also when any of the allocations fails, so that
  \<open>oaes_free\<close> gives back everything whatever happened in between; export followed by import gives
  the same key back; a damaged header is refused and changes nothing.
\<close>

unbundle bit_operations_syntax

section \<open>The C library\<close>

text \<open>
  \<open>alloc_ok n\<close> tells whether the \<open>n\<close>-th call of \<open>calloc\<close> succeeds, \<open>rand_at s n\<close> is the \<open>n\<close>-th
  value of \<open>rand\<close> after \<open>srand(s)\<close>.  \<open>live\<close> counts the blocks that are allocated and not freed.
  The last fields are what \<open>oaes_get_seed\<close> reads: the broken-down time, the address that its
  probing \<open>calloc\<close> returns, and the process id.
\<close>

record libc =
  alloc_ok :: "nat \<Rightarrow> bool"
  allocs :: nat
  live :: nat
  rand_at :: "u32 \<Rightarrow> nat \<Rightarrow> u32"
  rand_seed :: u32
  rands :: nat
  tm_fields :: "int list"
  millitm :: u16
  probe_addr :: u64
  pid :: int

definition calloc_ok :: "libc \<Rightarrow> bool \<times> libc" where
  "calloc_ok L =
     (if alloc_ok L (allocs L) then (True, L\<lparr>allocs := allocs L + 1, live := live L + 1\<rparr>)
      else (False, L\<lparr>allocs := allocs L + 1\<rparr>))"

definition calloc_bytes :: "nat \<Rightarrow> libc \<Rightarrow> bytes option \<times> libc" where
  "calloc_bytes n L =
     (case calloc_ok L of (ok, L1) \<Rightarrow> (if ok then Some (replicate n 0) else None, L1))"

definition free_block :: "libc \<Rightarrow> libc" where
  "free_block L = L\<lparr>live := live L - 1\<rparr>"

definition srand :: "u32 \<Rightarrow> libc \<Rightarrow> libc" where
  "srand s L = L\<lparr>rand_seed := s, rands := 0\<rparr>"

definition rand :: "libc \<Rightarrow> u32 \<times> libc" where
  "rand L = (rand_at L (rand_seed L) (rands L), L\<lparr>rands := rands L + 1\<rparr>)"

text \<open>The loops that fill a buffer with \<open>(uint8_t) rand()\<close>.\<close>

primrec rand_bytes :: "nat \<Rightarrow> libc \<Rightarrow> bytes \<times> libc" where
  "rand_bytes 0 L = ([], L)"
| "rand_bytes (Suc n) L =
     (case rand L of (r, L1) \<Rightarrow> case rand_bytes n L1 of (rs, L2) \<Rightarrow> (ucast r # rs, L2))"

section \<open>Data\<close>

definition OAES_RKEY_LEN :: nat where "OAES_RKEY_LEN = 4"
definition OAES_COL_LEN :: nat where "OAES_COL_LEN = 4"
definition OAES_ROUND_BASE :: nat where "OAES_ROUND_BASE = 7"
definition OAES_OPTION_NONE :: u16 where "OAES_OPTION_NONE = 0"
definition OAES_OPTION_ECB :: u16 where "OAES_OPTION_ECB = 1"
definition OAES_OPTION_CBC :: u16 where "OAES_OPTION_CBC = 2"

definition oaes_header :: bytes where
  "oaes_header = [0x4f, 0x41, 0x45, 0x53, 0x01, 0x02, 0x00, 0x00,
                  0x00, 0x00, 0x00, 0x00, 0x00, 0x00, 0x00, 0x00]"

record oaes_key =
  k_data_len :: nat
  k_data :: "bytes option"
  k_exp_data_len :: nat
  k_exp_data :: "bytes option"
  k_num_keys :: nat
  k_key_base :: nat

record oaes_ctx =
  ctx_key :: "oaes_key option"
  ctx_options :: u16
  ctx_iv :: bytes

definition zero_key :: oaes_key where
  "zero_key = \<lparr>k_data_len = 0, k_data = None, k_exp_data_len = 0, k_exp_data = None,
               k_num_keys = 0, k_key_base = 0\<rparr>"

section \<open>Operations\<close>

definition oaes_get_seed :: "libc \<Rightarrow> u32 \<times> libc" where
  "oaes_get_seed L =
     (let (test, L1) = calloc_ok L;
          addr = (if test then probe_addr L else 0) + ucast (millitm L);
          ret = ucast (of_int (sum_list (tm_fields L) + 1900 + 1 + uint (millitm L)) + addr
                       + of_int (pid L) :: u64)
      in (ret, if test then free_block L1 else L1))"

definition oaes_key_destroy :: "oaes_key option \<Rightarrow> libc \<Rightarrow> OAES_RET \<times> oaes_key option \<times> libc" where
  "oaes_key_destroy key L =
     (case key of
        None \<Rightarrow> (OAES_RET_SUCCESS, None, L)
      | Some k \<Rightarrow>
          let L1 = (if k_data k \<noteq> None then free_block L else L);
              L2 = (if k_exp_data k \<noteq> None then free_block L1 else L1)
          in (OAES_RET_SUCCESS, None, free_block L2))"

text \<open>
  The column that is added to the column \<open>key_base\<close> places back, and one iteration of the
  expansion loop.
\<close>

definition key_column :: "nat \<Rightarrow> nat \<Rightarrow> bytes \<Rightarrow> bytes" where
  "key_column key_base i temp =
     (if i mod key_base = 0
      then (let t = map sub_byte (word_rot_left temp)
            in t[0 := t ! 0 XOR oaes_gf_8 ! (i div key_base - 1)])
      else if key_base > 6 \<and> i mod key_base = 4 then map sub_byte temp
      else temp)"

definition key_expand_step :: "nat \<Rightarrow> nat \<Rightarrow> bytes \<Rightarrow> bytes" where
  "key_expand_step key_base i ed =
     (let temp = key_column key_base i (slice ed ((i - 1) * OAES_RKEY_LEN) OAES_COL_LEN)
      in blit ed (i * OAES_RKEY_LEN)
           (xor_bytes (slice ed ((i - key_base) * OAES_RKEY_LEN) OAES_COL_LEN) temp))"

definition key_expand_bytes :: "nat \<Rightarrow> nat \<Rightarrow> bytes \<Rightarrow> bytes \<Rightarrow> bytes" where
  "key_expand_bytes key_base num_keys data ed =
     fold (key_expand_step key_base) [key_base..<num_keys * OAES_RKEY_LEN] (blit ed 0 data)"

definition oaes_key_expand :: "oaes_ctx option \<Rightarrow> libc \<Rightarrow> OAES_RET \<times> oaes_ctx option \<times> libc" where
  "oaes_key_expand ctx L =
     (case ctx of
        None \<Rightarrow> (OAES_RET_ARG1, None, L)
      | Some c \<Rightarrow>
        (case ctx_key c of
           None \<Rightarrow> (OAES_RET_NOKEY, Some c, L)
         | Some k \<Rightarrow>
             let key_base = k_data_len k div OAES_RKEY_LEN;
                 num_keys = key_base + OAES_ROUND_BASE;
                 exp_data_len = num_keys * OAES_RKEY_LEN * OAES_COL_LEN;
                 k1 = k\<lparr>k_key_base := key_base, k_num_keys := num_keys,
                        k_exp_data_len := exp_data_len\<rparr>;
                 (ed, L1) = calloc_bytes exp_data_len L
             in case ed of
                  None \<Rightarrow> (OAES_RET_MEM, Some (c\<lparr>ctx_key := Some (k1\<lparr>k_exp_data := None\<rparr>)\<rparr>), L1)
                | Some ed0 \<Rightarrow>
                    (OAES_RET_SUCCESS,
                     Some (c\<lparr>ctx_key := Some (k1\<lparr>k_exp_data :=
                       Some (key_expand_bytes key_base num_keys
                               (take (k_data_len k) (the (k_data k))) ed0)\<rparr>)\<rparr>), L1)))"

text \<open>
  \<open>if( _ctx->key ) oaes_key_destroy( &(_ctx->key) )\<close>, and the common end of generation and import:
  expand the new key, destroy it when that fails.
\<close>

definition destroy_ctx_key :: "oaes_ctx \<Rightarrow> libc \<Rightarrow> oaes_ctx \<times> libc" where
  "destroy_ctx_key c L =
     (case oaes_key_destroy (ctx_key c) L of (_, k, L1) \<Rightarrow> (c\<lparr>ctx_key := k\<rparr>, L1))"

definition expand_or_destroy :: "oaes_ctx \<Rightarrow> libc \<Rightarrow> OAES_RET \<times> oaes_ctx option \<times> libc" where
  "expand_or_destroy c L =
     (case oaes_key_expand (Some c) L of (r, c1, L1) \<Rightarrow>
        let rc = rc_or OAES_RET_SUCCESS r in
        if rc \<noteq> OAES_RET_SUCCESS
        then (case destroy_ctx_key (the c1) L1 of (c2, L2) \<Rightarrow> (rc, Some c2, L2))
        else (OAES_RET_SUCCESS, c1, L1))"

definition oaes_key_gen ::
  "oaes_ctx option \<Rightarrow> nat \<Rightarrow> libc \<Rightarrow> OAES_RET \<times> oaes_ctx option \<times> libc" where
  "oaes_key_gen ctx key_size L =
     (case ctx of
        None \<Rightarrow> (OAES_RET_ARG1, None, L)
      | Some c \<Rightarrow>
        (case calloc_ok L of (ok, L1) \<Rightarrow>
           if \<not> ok then (OAES_RET_MEM, Some c, L1)
           else
             (case destroy_ctx_key c L1 of (c1, L2) \<Rightarrow>
              case calloc_bytes key_size L2 of (d, L3) \<Rightarrow>
                if d = None then (OAES_RET_MEM, Some c1, free_block L3)
                else
                  (case rand_bytes key_size L3 of (rs, L4) \<Rightarrow>
                     expand_or_destroy
                       (c1\<lparr>ctx_key := Some (zero_key\<lparr>k_data_len := key_size, k_data := Some rs\<rparr>)\<rparr>)
                       L4))))"

definition oaes_key_gen_128 :: "oaes_ctx option \<Rightarrow> libc \<Rightarrow> OAES_RET \<times> oaes_ctx option \<times> libc" where
  "oaes_key_gen_128 ctx L = oaes_key_gen ctx 16 L"

definition oaes_key_gen_192 :: "oaes_ctx option \<Rightarrow> libc \<Rightarrow> OAES_RET \<times> oaes_ctx option \<times> libc" where
  "oaes_key_gen_192 ctx L = oaes_key_gen ctx 24 L"

definition oaes_key_gen_256 :: "oaes_ctx option \<Rightarrow> libc \<Rightarrow> OAES_RET \<times> oaes_ctx option \<times> libc" where
  "oaes_key_gen_256 ctx L = oaes_key_gen ctx 32 L"

definition oaes_key_export ::
  "oaes_ctx option \<Rightarrow> bytes option \<Rightarrow> nat option \<Rightarrow> OAES_RET \<times> bytes option \<times> nat option" where
  "oaes_key_export ctx data data_len =
     (case ctx of None \<Rightarrow> (OAES_RET_ARG1, data, data_len) | Some c \<Rightarrow>
      case ctx_key c of None \<Rightarrow> (OAES_RET_NOKEY, data, data_len) | Some k \<Rightarrow>
      case data_len of None \<Rightarrow> (OAES_RET_ARG3, data, None) | Some len_in \<Rightarrow>
      let need = k_data_len k + OAES_BLOCK_SIZE in
      case data of None \<Rightarrow> (OAES_RET_SUCCESS, None, Some need) | Some d \<Rightarrow>
      if len_in < need then (OAES_RET_BUF, Some d, Some need)
      else
        let d1 = blit d 0 oaes_header;
            d2 = d1[5 := 0x01];
            d3 = d2[7 := of_nat (k_data_len k)]
        in (OAES_RET_SUCCESS,
            Some (blit d3 OAES_BLOCK_SIZE (take (k_data_len k) (the (k_data k)))), Some need))"

definition oaes_key_export_data ::
  "oaes_ctx option \<Rightarrow> bytes option \<Rightarrow> nat option \<Rightarrow> OAES_RET \<times> bytes option \<times> nat option" where
  "oaes_key_export_data ctx data data_len =
     (case ctx of None \<Rightarrow> (OAES_RET_ARG1, data, data_len) | Some c \<Rightarrow>
      case ctx_key c of None \<Rightarrow> (OAES_RET_NOKEY, data, data_len) | Some k \<Rightarrow>
      case data_len of None \<Rightarrow> (OAES_RET_ARG3, data, None) | Some len_in \<Rightarrow>
      case data of None \<Rightarrow> (OAES_RET_SUCCESS, None, Some (k_data_len k)) | Some d \<Rightarrow>
      if len_in < k_data_len k then (OAES_RET_BUF, Some d, Some (k_data_len k))
      else (OAES_RET_SUCCESS, Some (blit d 0 (take (k_data_len k) (the (k_data k)))),
            Some (k_data_len k)))"

text \<open>The part both imports share, from the destruction of the old key on.\<close>

definition install_key :: "oaes_ctx \<Rightarrow> bytes \<Rightarrow> libc \<Rightarrow> OAES_RET \<times> oaes_ctx option \<times> libc" where
  "install_key c kd L =
     (case destroy_ctx_key c L of (c1, L1) \<Rightarrow>
      case calloc_ok L1 of (ok, L2) \<Rightarrow>
        if \<not> ok then (OAES_RET_MEM, Some c1, L2)
        else
          (case calloc_bytes (length kd) L2 of (d, L3) \<Rightarrow>
           case d of
             None \<Rightarrow>
               (case destroy_ctx_key
                       (c1\<lparr>ctx_key := Some (zero_key\<lparr>k_data_len := length kd\<rparr>)\<rparr>) L3 of
                  (c2, L4) \<Rightarrow> (OAES_RET_MEM, Some c2, L4))
           | Some d0 \<Rightarrow>
               expand_or_destroy
                 (c1\<lparr>ctx_key := Some (zero_key\<lparr>k_data_len := length kd,
                                              k_data := Some (blit d0 0 kd)\<rparr>)\<rparr>) L3))"

definition oaes_key_import ::
  "oaes_ctx option \<Rightarrow> bytes option \<Rightarrow> nat \<Rightarrow> libc \<Rightarrow> OAES_RET \<times> oaes_ctx option \<times> libc" where
  "oaes_key_import ctx data data_len L =
     (case ctx of None \<Rightarrow> (OAES_RET_ARG1, None, L) | Some c \<Rightarrow>
      case data of None \<Rightarrow> (OAES_RET_ARG2, Some c, L) | Some d \<Rightarrow>
      if data_len \<notin> {16 + OAES_BLOCK_SIZE, 24 + OAES_BLOCK_SIZE, 32 + OAES_BLOCK_SIZE}
      then (OAES_RET_ARG3, Some c, L)
      else if slice d 0 4 \<noteq> slice oaes_header 0 4 then (OAES_RET_HEADER, Some c, L)
      else if d ! 4 \<noteq> 0x01 then (OAES_RET_HEADER, Some c, L)
      else if d ! 5 \<noteq> 0x01 then (OAES_RET_HEADER, Some c, L)
      else
        let key_length = unat (d ! 7) in
        if key_length \<notin> {16, 24, 32} then (OAES_RET_HEADER, Some c, L)
        else if data_len \<noteq> key_length + OAES_BLOCK_SIZE then (OAES_RET_ARG3, Some c, L)
        else install_key c (slice d OAES_BLOCK_SIZE key_length) L)"

definition oaes_key_import_data ::
  "oaes_ctx option \<Rightarrow> bytes option \<Rightarrow> nat \<Rightarrow> libc \<Rightarrow> OAES_RET \<times> oaes_ctx option \<times> libc" where
  "oaes_key_import_data ctx data data_len L =
     (case ctx of None \<Rightarrow> (OAES_RET_ARG1, None, L) | Some c \<Rightarrow>
      case data of None \<Rightarrow> (OAES_RET_ARG2, Some c, L) | Some d \<Rightarrow>
      if data_len \<notin> {16, 24, 32} then (OAES_RET_ARG3, Some c, L)
      else install_key c (slice d 0 data_len) L)"

definition oaes_set_option ::
  "oaes_ctx option \<Rightarrow> u16 \<Rightarrow> bytes option \<Rightarrow> libc \<Rightarrow> OAES_RET \<times> oaes_ctx option \<times> libc" where
  "oaes_set_option ctx option value L =
     (case ctx of None \<Rightarrow> (OAES_RET_ARG1, None, L) | Some c \<Rightarrow>
      if option = OAES_OPTION_ECB then
        (OAES_RET_SUCCESS,
         Some (c\<lparr>ctx_iv := replicate OAES_BLOCK_SIZE 0,
                 ctx_options := (ctx_options c AND NOT OAES_OPTION_CBC) OR option\<rparr>), L)
      else if option = OAES_OPTION_CBC then
        (case (case value of Some v \<Rightarrow> (take OAES_BLOCK_SIZE v, L)
               | None \<Rightarrow> rand_bytes OAES_BLOCK_SIZE L) of (iv, L1) \<Rightarrow>
         (OAES_RET_SUCCESS,
          Some (c\<lparr>ctx_iv := iv,
                  ctx_options := (ctx_options c AND NOT OAES_OPTION_ECB) OR option\<rparr>), L1))
      else (OAES_RET_ARG2, Some c, L))"

definition oaes_alloc :: "libc \<Rightarrow> oaes_ctx option \<times> libc" where
  "oaes_alloc L =
     (case calloc_ok L of (ok, L1) \<Rightarrow>
        if \<not> ok then (None, L1)
        else
          (case oaes_get_seed L1 of (s, L2) \<Rightarrow>
           case oaes_set_option
                  (Some \<lparr>ctx_key = None, ctx_options = 0, ctx_iv = replicate OAES_BLOCK_SIZE 0\<rparr>)
                  OAES_OPTION_CBC None (srand s L2) of (_, c, L3) \<Rightarrow> (c, L3)))"

text \<open>The outer option is the pointer to the context pointer.\<close>

definition oaes_free ::
  "oaes_ctx option option \<Rightarrow> libc \<Rightarrow> OAES_RET \<times> oaes_ctx option option \<times> libc" where
  "oaes_free ctx L =
     (case ctx of None \<Rightarrow> (OAES_RET_ARG1, None, L) | Some p \<Rightarrow>
      case p of None \<Rightarrow> (OAES_RET_SUCCESS, Some None, L) | Some c \<Rightarrow>
      case destroy_ctx_key c L of (c1, L1) \<Rightarrow> (OAES_RET_SUCCESS, Some None, free_block L1))"

section \<open>The key schedule of the standard\<close>

definition rcon :: "nat \<Rightarrow> byte" where
  "rcon n = (xtime ^^ (n - 1)) 1"

text \<open>Word \<open>i\<close> of the expanded key, by the recurrence of FIPS 197.\<close>

function fips_word :: "bytes \<Rightarrow> nat \<Rightarrow> bytes" where
  "fips_word key i =
     (let nk = length key div 4 in
      if i < nk \<or> nk = 0 then slice key (4 * i) 4
      else
        let t = fips_word key (i - 1) in
        xor_bytes (fips_word key (i - nk))
          (if i mod nk = 0 then xor_bytes (map sub_byte (word_rot_left t)) [rcon (i div nk), 0, 0, 0]
           else if nk > 6 \<and> i mod nk = 4 then map sub_byte t
           else t))"
  by pat_completeness auto
termination by (relation "measure snd") auto

declare fips_word.simps [simp del]

definition fips_key_schedule :: "bytes \<Rightarrow> bytes" where
  "fips_key_schedule key = concat (map (fips_word key) [0..<4 * (length key div 4 + 7)])"

lemma oaes_gf_8_powers: "oaes_gf_8 = map rcon [1..<11]"
  by code_simp

lemma oaes_gf_8_rcon:
  assumes "0 < n" "n \<le> 10"
  shows "oaes_gf_8 ! (n - 1) = rcon n"
  using assms by (simp add: oaes_gf_8_powers del: upt_rec_numeral)

definition key_lengths :: "nat set" where
  "key_lengths = {16, 24, 32}"

lemma key_lengths_iff: "n \<in> key_lengths \<longleftrightarrow> n = 16 \<or> n = 24 \<or> n = 32"
  by (auto simp: key_lengths_def)

lemma length_fips_word: "length key \<in> key_lengths \<Longrightarrow> length (fips_word key i) = 4"
proof (induction key i rule: fips_word.induct)
  case (1 key i)
  show ?case
  proof (cases "i < length key div 4")
    case True
    then show ?thesis by (simp add: fips_word.simps [of key i] Let_def)
  next
    case False
    then show ?thesis using 1
      by (auto simp: fips_word.simps [of key i] Let_def key_lengths_iff)
  qed
qed

lemma rcon_index:
  assumes "length key \<in> key_lengths" "length key div 4 \<le> i" "i < 4 * (length key div 4 + 7)"
  shows "0 < i div (length key div 4) \<and> i div (length key div 4) \<le> 10"
proof -
  let ?k = "length key div 4"
  have "?k = 4 \<or> ?k = 6 \<or> ?k = 8" using assms(1) by (auto simp: key_lengths_iff)
  then show ?thesis using assms(2,3) by (elim disjE) (simp_all, linarith+)
qed

lemma key_column_fips:
  assumes "length key \<in> key_lengths" "length key div 4 \<le> i" "i < 4 * (length key div 4 + 7)"
  shows "xor_bytes (fips_word key (i - length key div 4))
           (key_column (length key div 4) i (fips_word key (i - 1))) = fips_word key i"
proof -
  have "\<not> (i < length key div 4 \<or> length key div 4 = 0)"
    using assms(1,2) by (auto simp: key_lengths_iff)
  then have "fips_word key i = xor_bytes (fips_word key (i - length key div 4))
      (let nk = length key div 4; t = fips_word key (i - 1) in
       if i mod nk = 0 then xor_bytes (map sub_byte (word_rot_left t)) [rcon (i div nk), 0, 0, 0]
       else if nk > 6 \<and> i mod nk = 4 then map sub_byte t else t)"
    by (simp add: fips_word.simps [of key i] Let_def)
  then show ?thesis
    using rcon_index [OF assms] oaes_gf_8_rcon
    by (simp add: key_column_def Let_def word_rot_left_def)
qed

lemma key_expand_step_fips:
  assumes k: "length key \<in> key_lengths" "length key div 4 \<le> i" "i < 4 * (length key div 4 + 7)"
    and len: "length ed = 16 * (length key div 4 + 7)"
    and prev: "\<forall>j<i. slice ed (4 * j) 4 = fips_word key j"
  shows "length (key_expand_step (length key div 4) i ed) = length ed"
    and "\<forall>j<Suc i. slice (key_expand_step (length key div 4) i ed) (4 * j) 4 = fips_word key j"
proof -
  let ?nk = "length key div 4"
  have nk: "0 < ?nk" using k(1) by (auto simp: key_lengths_iff)
  have "slice ed (4 * (i - 1)) 4 = fips_word key (i - 1)"
    "slice ed (4 * (i - ?nk)) 4 = fips_word key (i - ?nk)"
    using prev nk k(2) by simp_all
  then have step: "key_expand_step ?nk i ed = blit ed (4 * i) (fips_word key i)"
    using key_column_fips [OF k]
    by (simp add: key_expand_step_def Let_def OAES_RKEY_LEN_def OAES_COL_LEN_def mult.commute)
  have fits: "4 * i + length (fips_word key i) \<le> length ed"
    using k(3) len length_fips_word [OF k(1), of i] by simp
  show "length (key_expand_step ?nk i ed) = length ed"
    using fits by (simp add: step)
  show "\<forall>j<Suc i. slice (key_expand_step ?nk i ed) (4 * j) 4 = fips_word key j"
  proof (intro allI impI)
    fix j assume "j < Suc i"
    then consider "j < i" | "j = i" by linarith
    then show "slice (key_expand_step ?nk i ed) (4 * j) 4 = fips_word key j"
    proof cases
      case 1
      then have "slice (blit ed (4 * i) (fips_word key i)) (4 * j) 4 = slice ed (4 * j) 4"
        using fits by (intro slice_blit_disjoint) auto
      then show ?thesis using 1 prev by (simp add: step)
    next
      case 2
      then show ?thesis using fits length_fips_word [OF k(1), of i]
        by (simp add: step)
    qed
  qed
qed

lemma key_expand_fold_fips:
  assumes "length key \<in> key_lengths" "length ed = 16 * (length key div 4 + 7)"
    "\<forall>j<length key div 4. slice ed (4 * j) 4 = fips_word key j"
    "n \<le> 4 * (length key div 4 + 7)" "length key div 4 \<le> n"
  shows "length (fold (key_expand_step (length key div 4)) [length key div 4..<n] ed) = length ed \<and>
    (\<forall>j<n. slice (fold (key_expand_step (length key div 4)) [length key div 4..<n] ed) (4 * j) 4
              = fips_word key j)"
  using assms(5,4)
proof (induction n rule: dec_induct)
  case base
  then show ?case using assms by simp
next
  case (step n)
  then show ?case
    using key_expand_step_fips [of key n "fold (key_expand_step (length key div 4)) [length key div 4..<n] ed"] assms(1,2)
    by simp
qed

lemma concat_slices: "length xs = 4 * n \<Longrightarrow> concat (map (\<lambda>j. slice xs (4 * j) 4) [0..<n]) = xs"
proof (induction n arbitrary: xs)
  case (Suc n)
  have "concat (map (\<lambda>j. slice xs (4 * j) 4) [0..<n])
      = concat (map (\<lambda>j. slice (take (4 * n) xs) (4 * j) 4) [0..<n])"
    by (intro arg_cong [of _ _ concat] map_cong) (auto simp: slice_def drop_take)
  then show ?case using Suc by (simp add: slice_def) 
qed simp

lemma key_expand_bytes_fips:
  assumes "length key \<in> key_lengths"
  shows "key_expand_bytes (length key div 4) (length key div 4 + 7) key
     (replicate (16 * (length key div 4 + 7)) 0) = fips_key_schedule key"
proof -
  let ?nk = "length key div 4"
  define ed where "ed = blit (replicate (16 * (?nk + 7)) 0) 0 key"
  have le: "length key \<le> 16 * (?nk + 7)" "length key = 4 * ?nk"
    using assms by (auto simp: key_lengths_iff)
  have "slice ed (4 * j) 4 = fips_word key j" if "j < ?nk" for j
  proof -
    have "fips_word key j = slice key (4 * j) 4" using that by (simp add: fips_word.simps [of key j] Let_def)
    moreover have "slice ed (4 * j) 4 = slice key (4 * j) 4"
      using that le unfolding ed_def blit_def by (simp del: replicate_add)
    ultimately show ?thesis by simp
  qed
  moreover have "length ed = 16 * (?nk + 7)" using le by (simp add: ed_def)
  ultimately have "length (fold (key_expand_step ?nk) [?nk..<4 * (?nk + 7)] ed) = 4 * (4 * (?nk + 7))"
    and *: "\<forall>j<4 * (?nk + 7). slice (fold (key_expand_step ?nk) [?nk..<4 * (?nk + 7)] ed) (4 * j) 4
              = fips_word key j"
    using key_expand_fold_fips [OF assms, of ed "4 * (?nk + 7)"] by simp_all
  then have "fold (key_expand_step ?nk) [?nk..<4 * (?nk + 7)] ed =
      concat (map (\<lambda>j. slice (fold (key_expand_step ?nk) [?nk..<4 * (?nk + 7)] ed) (4 * j) 4) [0..<4 * (?nk + 7)])"
    by (intro concat_slices [symmetric])
  also have "\<dots> = fips_key_schedule key"
    unfolding fips_key_schedule_def using * by (intro arg_cong [of _ _ concat] map_cong) auto
  finally show ?thesis
    by (simp add: key_expand_bytes_def OAES_RKEY_LEN_def ed_def mult.commute)
qed

section \<open>Well-formed contexts\<close>

definition key_of :: "bytes \<Rightarrow> oaes_key" where
  "key_of d = \<lparr>k_data_len = length d, k_data = Some d, k_exp_data_len = 16 * (length d div 4 + 7),
     k_exp_data = Some (fips_key_schedule d), k_num_keys = length d div 4 + 7,
     k_key_base = length d div 4\<rparr>"

definition key_ok :: "oaes_key \<Rightarrow> bool" where
  "key_ok k = (case k_data k of None \<Rightarrow> False | Some d \<Rightarrow> length d \<in> key_lengths \<and> k = key_of d)"

definition ctx_ok :: "oaes_ctx \<Rightarrow> bool" where
  "ctx_ok c \<longleftrightarrow> (case ctx_key c of None \<Rightarrow> True | Some k \<Rightarrow> key_ok k)
     \<and> (ctx_options c = OAES_OPTION_ECB \<or> ctx_options c = OAES_OPTION_CBC)
     \<and> length (ctx_iv c) = OAES_BLOCK_SIZE"

text \<open>The blocks a context owns: itself, its key and the two buffers of the key.\<close>

definition ctx_blocks :: "oaes_ctx \<Rightarrow> nat" where
  "ctx_blocks c = 1 + (case ctx_key c of None \<Rightarrow> 0 | Some k \<Rightarrow>
     1 + of_bool (k_data k \<noteq> None) + of_bool (k_exp_data k \<noteq> None))"

lemma key_ok_iff: "key_ok k \<longleftrightarrow> (\<exists>d. length d \<in> key_lengths \<and> k = key_of d)"
  by (auto simp: key_ok_def key_of_def split: option.splits)

lemma key_of_fields [simp]:
  "k_data_len (key_of d) = length d" "k_data (key_of d) = Some d"
  "k_exp_data (key_of d) = Some (fips_key_schedule d)"
  "k_exp_data_len (key_of d) = 16 * (length d div 4 + 7)"
  "k_num_keys (key_of d) = length d div 4 + 7" "k_key_base (key_of d) = length d div 4"
  by (simp_all add: key_of_def)

text \<open>The state of the allocator after one call of \<open>calloc\<close>, and the effect of one \<open>free\<close>.\<close>

lemma calloc_ok_eq:
  "calloc_ok L = (alloc_ok L (allocs L), L\<lparr>allocs := allocs L + 1,
     live := live L + of_bool (alloc_ok L (allocs L))\<rparr>)"
  by (simp add: calloc_ok_def)

lemma calloc_bytes_eq:
  "calloc_bytes n L = (if alloc_ok L (allocs L) then Some (replicate n 0) else None,
     L\<lparr>allocs := allocs L + 1, live := live L + of_bool (alloc_ok L (allocs L))\<rparr>)"
  by (simp add: calloc_bytes_def calloc_ok_eq)

lemma free_block_fields [simp]:
  "live (free_block L) = live L - 1" "allocs (free_block L) = allocs L"
  "alloc_ok (free_block L) = alloc_ok L"
  by (simp_all add: free_block_def)

lemma rand_bytes_fields:
  "rand_bytes n L = (rs, L') \<Longrightarrow>
     length rs = n \<and> live L' = live L \<and> allocs L' = allocs L \<and> alloc_ok L' = alloc_ok L"
proof (induction n arbitrary: L rs L')
  case (Suc n)
  obtain rs' where "rand_bytes n (snd (rand L)) = (rs', L')" "rs = ucast (fst (rand L)) # rs'"
    using Suc.prems by (auto split: prod.splits)
  then show ?case using Suc.IH [of "snd (rand L)" rs' L'] by (simp add: rand_def)
qed simp

lemma destroy_ctx_key_eq:
  "ctx_ok c \<Longrightarrow> destroy_ctx_key c L =
     (c\<lparr>ctx_key := None\<rparr>, (free_block ^^ (ctx_blocks c - 1)) L)"
  by (auto simp: destroy_ctx_key_def oaes_key_destroy_def ctx_blocks_def ctx_ok_def key_ok_iff Let_def
      numeral_eq_Suc split: option.splits)

lemma free_blocks_fields [simp]:
  "live ((free_block ^^ n) L) = live L - n" "allocs ((free_block ^^ n) L) = allocs L"
  "alloc_ok ((free_block ^^ n) L) = alloc_ok L"
  by (induction n) simp_all

lemma ctx_ok_drop_key: "ctx_ok c \<Longrightarrow> ctx_ok (c\<lparr>ctx_key := None\<rparr>)"
  by (simp add: ctx_ok_def)

lemma ctx_blocks_None [simp]: "ctx_blocks (c\<lparr>ctx_key := None\<rparr>) = 1"
  by (simp add: ctx_blocks_def)

lemma expand_or_destroy_eq:
  assumes "length d \<in> key_lengths"
  shows "expand_or_destroy (c\<lparr>ctx_key := Some (zero_key\<lparr>k_data_len := length d, k_data := Some d\<rparr>)\<rparr>) L =
    (if alloc_ok L (allocs L)
     then (OAES_RET_SUCCESS, Some (c\<lparr>ctx_key := Some (key_of d)\<rparr>), snd (calloc_ok L))
     else (OAES_RET_UNKNOWN, Some (c\<lparr>ctx_key := None\<rparr>),
           free_block (free_block (snd (calloc_ok L)))))"
proof -
  have "key_expand_bytes (length d div 4) (length d div 4 + 7) d
      (replicate ((length d div 4 + 7) * 4 * 4) 0) = fips_key_schedule d"
    using key_expand_bytes_fips [OF assms] by (simp add: mult.commute)
  then show ?thesis
    by (simp add: expand_or_destroy_def oaes_key_expand_def calloc_bytes_eq calloc_ok_eq rc_or_def
        destroy_ctx_key_def oaes_key_destroy_def zero_key_def key_of_def Let_def
        OAES_RKEY_LEN_def OAES_COL_LEN_def OAES_ROUND_BASE_def)
qed

section \<open>The contract of the operations on a context\<close>

text \<open>
  An operation that takes a context keeps it well-formed and changes the number of live blocks by
  what the context owns afterwards, less what it owned before.
\<close>

locale ctx_operation =
  fixes opn :: "'a \<Rightarrow> oaes_ctx option \<Rightarrow> libc \<Rightarrow> OAES_RET \<times> oaes_ctx option \<times> libc"
    and arg_ok :: "'a \<Rightarrow> bool"
  assumes null_ctx: "opn a None L = (OAES_RET_ARG1, None, L)"
    and balanced: "arg_ok a \<Longrightarrow> ctx_ok c \<Longrightarrow> ctx_blocks c \<le> live L \<Longrightarrow>
      \<exists>r c' L'. opn a (Some c) L = (r, Some c', L') \<and> ctx_ok c' \<and> ctx_blocks c' \<le> live L'
        \<and> live L' + ctx_blocks c = live L + ctx_blocks c'"
begin

lemma keeps_ctx_ok:
  assumes "arg_ok a" "ctx_ok c" "ctx_blocks c \<le> live L" "opn a (Some c) L = (r, Some c', L')"
  shows "ctx_ok c'" "ctx_blocks c' \<le> live L'" "live L' + ctx_blocks c = live L + ctx_blocks c'"
  using balanced [OF assms(1-3)] assms(4) by auto

lemma free_returns_all:
  assumes "arg_ok a" "ctx_ok c" "ctx_blocks c \<le> live L" "opn a (Some c) L = (r, c', L')"
  shows "live (snd (snd (oaes_free (Some c') L'))) + ctx_blocks c = live L"
  using balanced [OF assms(1-3)] assms(4)
  by (auto simp: oaes_free_def destroy_ctx_key_eq ctx_blocks_def split: option.splits)

end

lemma ctx_ok_set_key: "ctx_ok c \<Longrightarrow> length d \<in> key_lengths \<Longrightarrow> ctx_ok (c\<lparr>ctx_key := Some (key_of d)\<rparr>)"
  by (auto simp: ctx_ok_def key_ok_iff)

lemma ctx_blocks_key_of [simp]: "ctx_blocks (c\<lparr>ctx_key := Some (key_of d)\<rparr>) = 4"
  by (simp add: ctx_blocks_def)

lemma ctx_blocks_pos [simp]: "0 < ctx_blocks c"
  by (simp add: ctx_blocks_def)

lemma destroy_fresh_key:
  "destroy_ctx_key (c\<lparr>ctx_key := Some (zero_key\<lparr>k_data_len := n\<rparr>)\<rparr>) L = (c\<lparr>ctx_key := None\<rparr>, free_block L)"
  by (simp add: destroy_ctx_key_def oaes_key_destroy_def zero_key_def)

lemma install_key_balanced:
  assumes "ctx_ok c" "ctx_blocks c \<le> live L" "length kd \<in> key_lengths"
  shows "\<exists>r c' L'. install_key c kd L = (r, Some c', L') \<and> ctx_ok c' \<and> ctx_blocks c' \<le> live L'
        \<and> live L' + ctx_blocks c = live L + ctx_blocks c'"
proof -
  obtain b where [simp]: "ctx_blocks c = Suc b" using ctx_blocks_pos gr0_implies_Suc by blast
  have c0: "ctx_ok (c\<lparr>ctx_key := None\<rparr>)" using assms(1) by (rule ctx_ok_drop_key)
  have kd: "blit (replicate (length kd) 0) 0 kd = kd" by (simp add: blit_def)
  show ?thesis
    using assms c0 ctx_ok_set_key [OF c0 assms(3)]
    by (auto simp: install_key_def destroy_ctx_key_eq calloc_bytes_eq calloc_ok_eq
        expand_or_destroy_eq kd destroy_fresh_key)
qed

lemma oaes_key_gen_balanced:
  assumes "n \<in> key_lengths" "ctx_ok c" "ctx_blocks c \<le> live L"
  shows "\<exists>r c' L'. oaes_key_gen (Some c) n L = (r, Some c', L') \<and> ctx_ok c' \<and> ctx_blocks c' \<le> live L'
        \<and> live L' + ctx_blocks c = live L + ctx_blocks c'"
proof -
  obtain b where [simp]: "ctx_blocks c = Suc b" using ctx_blocks_pos gr0_implies_Suc by blast
  have c0: "ctx_ok (c\<lparr>ctx_key := None\<rparr>)" using assms(2) by (rule ctx_ok_drop_key)
  show ?thesis
  proof (cases "alloc_ok L (allocs L) \<and> alloc_ok L (Suc (allocs L))")
    case False
    then show ?thesis
      using assms c0 by (auto simp: oaes_key_gen_def destroy_ctx_key_eq calloc_bytes_eq calloc_ok_eq)
  next
    case True
    define L3 where "L3 = snd (calloc_bytes n (snd (destroy_ctx_key c (snd (calloc_ok L)))))"
    obtain rs L4 where r: "rand_bytes n L3 = (rs, L4)" by fastforce
    then have rs: "length rs = n" "live L4 = live L3" using rand_bytes_fields by blast+
    have "oaes_key_gen (Some c) n L = expand_or_destroy
        (c\<lparr>ctx_key := Some (zero_key\<lparr>k_data_len := length rs, k_data := Some rs\<rparr>)\<rparr>) L4"
      using True r assms(2) rs
      by (simp add: oaes_key_gen_def L3_def destroy_ctx_key_eq calloc_bytes_eq calloc_ok_eq)
    moreover have "live L3 + ctx_blocks c = live L + 3"
      using True assms by (simp add: L3_def destroy_ctx_key_eq calloc_bytes_eq calloc_ok_eq)
    ultimately show ?thesis
      using rs assms c0 ctx_ok_set_key [OF assms(2), of rs]
      by (auto simp: expand_or_destroy_eq calloc_ok_eq)
  qed
qed

lemma rand_iv_fields: "length (fst (rand_bytes n L)) = n" "live (snd (rand_bytes n L)) = live L"
  using rand_bytes_fields [of n L] by (metis prod.collapse)+

lemma oaes_set_option_balanced:
  assumes "case v of None \<Rightarrow> True | Some b \<Rightarrow> OAES_BLOCK_SIZE \<le> length b" "ctx_ok c" "ctx_blocks c \<le> live L"
  shows "\<exists>r c' L'. oaes_set_option (Some c) opt v L = (r, Some c', L') \<and> ctx_ok c' \<and> ctx_blocks c' \<le> live L'
        \<and> live L' + ctx_blocks c = live L + ctx_blocks c'"
proof -
  have "opt \<noteq> OAES_OPTION_ECB \<Longrightarrow> opt = OAES_OPTION_CBC \<Longrightarrow> v = None \<Longrightarrow> ?thesis"
    using assms rand_iv_fields [of OAES_BLOCK_SIZE L]
    by (auto simp: oaes_set_option_def ctx_ok_def ctx_blocks_def OAES_OPTION_CBC_def
        OAES_OPTION_ECB_def split: prod.splits)
  moreover have "\<not> (opt \<noteq> OAES_OPTION_ECB \<and> opt = OAES_OPTION_CBC \<and> v = None) \<Longrightarrow> ?thesis"
    using assms
    by (auto simp: oaes_set_option_def ctx_ok_def ctx_blocks_def OAES_OPTION_CBC_def
        OAES_OPTION_ECB_def min_def)
  ultimately show ?thesis by blast
qed

definition reads_ok :: "bytes option \<Rightarrow> nat \<Rightarrow> bool" where
  "reads_ok d n = (case d of None \<Rightarrow> True | Some b \<Rightarrow> n \<le> length b)"

interpretation key_gen: ctx_operation "\<lambda>n ctx. oaes_key_gen ctx n" "\<lambda>n. n \<in> key_lengths"
  by unfold_locales (simp add: oaes_key_gen_def, rule oaes_key_gen_balanced)

interpretation set_option: ctx_operation "\<lambda>(opt, v) ctx. oaes_set_option ctx opt v"
  "\<lambda>(opt, v). reads_ok v OAES_BLOCK_SIZE"
  by unfold_locales
    (auto simp: oaes_set_option_def [of None] reads_ok_def intro!: oaes_set_option_balanced)

lemma ctx_op_same:
  "ctx_ok c \<Longrightarrow> ctx_blocks c \<le> live L \<Longrightarrow> \<exists>r' c' L'. (r, Some c, L) = (r', Some c', L')
     \<and> ctx_ok c' \<and> ctx_blocks c' \<le> live L' \<and> live L' + ctx_blocks c = live L + ctx_blocks c'"
  by simp

interpretation key_import: ctx_operation "\<lambda>(d, n) ctx. oaes_key_import ctx d n" "\<lambda>(d, n). reads_ok d n"
proof unfold_locales
  fix a :: "bytes option \<times> nat" and c and L :: libc
  assume a: "case a of (d, n) \<Rightarrow> reads_ok d n" and c: "ctx_ok c" "ctx_blocks c \<le> live L"
  obtain d n where [simp]: "a = (d, n)" by (cases a)
  have "length (slice b OAES_BLOCK_SIZE m) = m" if "d = Some b" "n = m + OAES_BLOCK_SIZE" for b m
    using a that by (simp add: reads_ok_def)
  then show "\<exists>r c' L'. (case a of (d, n) \<Rightarrow> \<lambda>ctx. oaes_key_import ctx d n) (Some c) L = (r, Some c', L')
      \<and> ctx_ok c' \<and> ctx_blocks c' \<le> live L' \<and> live L' + ctx_blocks c = live L + ctx_blocks c'"
    using c install_key_balanced [OF c]
    by (auto simp: oaes_key_import_def Let_def key_lengths_iff split: option.splits)
qed (simp add: oaes_key_import_def split: prod.splits)

interpretation key_import_data:
  ctx_operation "\<lambda>(d, n) ctx. oaes_key_import_data ctx d n" "\<lambda>(d, n). reads_ok d n"
proof unfold_locales
  fix a :: "bytes option \<times> nat" and c and L :: libc
  assume a: "case a of (d, n) \<Rightarrow> reads_ok d n" and c: "ctx_ok c" "ctx_blocks c \<le> live L"
  obtain d n where [simp]: "a = (d, n)" by (cases a)
  have "length (slice b 0 n) = n" if "d = Some b" for b
    using a that by (simp add: reads_ok_def)
  then show "\<exists>r c' L'. (case a of (d, n) \<Rightarrow> \<lambda>ctx. oaes_key_import_data ctx d n) (Some c) L = (r, Some c', L')
      \<and> ctx_ok c' \<and> ctx_blocks c' \<le> live L' \<and> live L' + ctx_blocks c = live L + ctx_blocks c'"
    using c install_key_balanced [OF c]
    by (auto simp: oaes_key_import_data_def key_lengths_iff split: option.splits)
qed (simp add: oaes_key_import_data_def split: prod.splits)

lemma length_fips_key_schedule:
  "length d \<in> key_lengths \<Longrightarrow> length (fips_key_schedule d) = 16 * (length d div 4 + 7)"
  by (simp add: fips_key_schedule_def length_concat length_fips_word comp_def sum_list_triv)

lemma length_oaes_header [simp]: "length oaes_header = 16"
  by (simp add: oaes_header_def)

lemma install_key_eq:
  assumes "ctx_ok c" "length d \<in> key_lengths"
  shows "\<exists>L'. install_key c d L =
    (if \<not> alloc_ok L (allocs L) \<or> \<not> alloc_ok L (allocs L + 1) then (OAES_RET_MEM, Some (c\<lparr>ctx_key := None\<rparr>), L')
     else if \<not> alloc_ok L (allocs L + 2) then (OAES_RET_UNKNOWN, Some (c\<lparr>ctx_key := None\<rparr>), L')
     else (OAES_RET_SUCCESS, Some (c\<lparr>ctx_key := Some (key_of d)\<rparr>), L'))"
proof -
  have kd: "blit (replicate (length d) 0) 0 d = d" by (simp add: blit_def)
  show ?thesis using assms
    by (simp add: install_key_def destroy_ctx_key_eq calloc_bytes_eq calloc_ok_eq
        expand_or_destroy_eq kd destroy_fresh_key)
qed

lemma install_key_success:
  "ctx_ok c \<Longrightarrow> length d \<in> key_lengths \<Longrightarrow> \<forall>n. alloc_ok L n \<Longrightarrow>
   \<exists>L'. install_key c d L = (OAES_RET_SUCCESS, Some (c\<lparr>ctx_key := Some (key_of d)\<rparr>), L')"
  using install_key_eq [of c d L] by simp

lemma install_key_outcomes:
  assumes "ctx_ok c" "length d \<in> key_lengths"
  shows "\<exists>r c' L'. install_key c d L = (r, c', L') \<and>
    ((r = OAES_RET_MEM \<or> r = OAES_RET_UNKNOWN) \<and> c' = Some (c\<lparr>ctx_key := None\<rparr>)
     \<or> r = OAES_RET_SUCCESS \<and> c' = Some (c\<lparr>ctx_key := Some (key_of d)\<rparr>))"
  using install_key_eq [OF assms, of L] by (auto split: if_splits)

section \<open>Properties of key management\<close>

text \<open>C19: key expansion succeeds when its one allocation does, and then the buffer holds exactly the
  key schedule of FIPS 197 for the key's length (44, 52 or 60 words), no byte of it outside the
  allocated length.\<close>

lemma key_expand_is_fips197:
  assumes "ctx_key c = Some k" "k_data k = Some d" "k_data_len k = length d"
    and "length d \<in> key_lengths" "alloc_ok L (allocs L)"
  shows "oaes_key_expand (Some c) L =
    (OAES_RET_SUCCESS,
     Some (c\<lparr>ctx_key := Some (k\<lparr>k_key_base := length d div 4, k_num_keys := length d div 4 + 7,
       k_exp_data_len := length (fips_key_schedule d), k_exp_data := Some (fips_key_schedule d)\<rparr>)\<rparr>),
     snd (calloc_ok L))"
proof -
  have "key_expand_bytes (length d div 4) (length d div 4 + 7) d
      (replicate ((length d div 4 + 7) * 4 * 4) 0) = fips_key_schedule d"
    using key_expand_bytes_fips [OF assms(4)] by (simp add: mult.commute)
  then show ?thesis
    using assms
    by (simp add: oaes_key_expand_def calloc_bytes_eq calloc_ok_eq Let_def length_fips_key_schedule
        OAES_RKEY_LEN_def OAES_COL_LEN_def OAES_ROUND_BASE_def)
qed

definition plenty :: libc where
  "plenty = \<lparr>alloc_ok = (\<lambda>_. True), allocs = 0, live = 9, rand_at = (\<lambda>s n. s + of_nat n),
     rand_seed = 1, rands = 0, tm_fields = [117, 10, 17, 18, 30, 5], millitm = 250,
     probe_addr = 0x7f0000001000, pid = 4242\<rparr>"

definition key_128 :: bytes where
  "key_128 = [0x2b, 0x7e, 0x15, 0x16, 0x28, 0xae, 0xd2, 0xa6,
              0xab, 0xf7, 0x15, 0x88, 0x09, 0xcf, 0x4f, 0x3c]"

definition ctx_with :: "bytes \<Rightarrow> oaes_ctx" where
  "ctx_with key = \<lparr>ctx_key = Some (key_of key), ctx_options = OAES_OPTION_CBC, ctx_iv = replicate 16 0\<rparr>"

lemma key_128_length [simp]: "length key_128 = 16" "16 \<in> key_lengths"
  by (simp_all add: key_128_def key_lengths_def)

lemma ctx_with_ok: "length key \<in> key_lengths \<Longrightarrow> ctx_ok (ctx_with key)"
  by (auto simp: ctx_ok_def ctx_with_def key_ok_iff OAES_BLOCK_SIZE_def)

lemma key_expand_is_fips197_witness:
  "let k = zero_key\<lparr>k_data_len := 16, k_data := Some key_128\<rparr>;
       c = (ctx_with key_128)\<lparr>ctx_key := Some k\<rparr>
   in oaes_key_expand (Some c) plenty =
     (OAES_RET_SUCCESS,
      Some (c\<lparr>ctx_key := Some (k\<lparr>k_key_base := 4, k_num_keys := 11,
        k_exp_data_len := length (fips_key_schedule key_128),
        k_exp_data := Some (fips_key_schedule key_128)\<rparr>)\<rparr>), snd (calloc_ok plenty))"
  using key_expand_is_fips197
    [of "(ctx_with key_128)\<lparr>ctx_key := Some (zero_key\<lparr>k_data_len := 16, k_data := Some key_128\<rparr>)\<rparr>"
        "zero_key\<lparr>k_data_len := 16, k_data := Some key_128\<rparr>" key_128 plenty]
  by (simp add: plenty_def Let_def)

text \<open>export followed by import gives the key back: a well-formed key exported into a large
  enough buffer and imported into any well-formed context, with memory available, installs the
  same key in all its fields, and the exported length is the one that the size query reports.\<close>

lemma key_export_import:
  assumes "ctx_ok c" "ctx_key c = Some k" "k_data_len k + 16 \<le> len_in" "len_in \<le> length buf"
    and "ctx_ok c2" "\<forall>n. alloc_ok L n"
  shows "\<exists>d n L'. oaes_key_export (Some c) (Some buf) (Some len_in) = (OAES_RET_SUCCESS, Some d, Some n)
       \<and> oaes_key_export (Some c) None (Some len_in) = (OAES_RET_SUCCESS, None, Some n)
       \<and> oaes_key_import (Some c2) (Some d) n L
         = (OAES_RET_SUCCESS, Some (c2\<lparr>ctx_key := Some k\<rparr>), L')"
proof -
  obtain d where d: "k = key_of d" "length d \<in> key_lengths"
    using assms(1,2) by (auto simp: ctx_ok_def key_ok_iff)
  define hd where "hd = oaes_header[5 := 0x01, 7 := of_nat (length d)]"
  define out where "out = hd @ d @ drop (16 + length d) buf"
  have hd: "length hd = 16" by (simp add: hd_def oaes_header_def)
  have big: "16 + length d \<le> length buf" using assms(3,4) d by simp
  have "(blit buf 0 oaes_header)[5 := 0x01, 7 := of_nat (length d)] = hd @ drop 16 buf"
    using length_oaes_header by (simp add: blit_def hd_def list_update_append)
  then have "blit ((blit buf 0 oaes_header)[5 := 0x01, 7 := of_nat (length d)]) 16 d = out"
    using big hd by (simp add: out_def blit_def add.commute)
  then have exp: "oaes_key_export (Some c) (Some buf) (Some len_in)
      = (OAES_RET_SUCCESS, Some out, Some (length d + 16))"
    using assms d by (simp add: oaes_key_export_def OAES_BLOCK_SIZE_def Let_def)
  have "length d = 16 \<or> length d = 24 \<or> length d = 32" using d(2) by (simp add: key_lengths_iff)
  then have "unat (out ! 7) = length d" "slice out 0 4 = slice oaes_header 0 4" "out ! 4 = 1" "out ! 5 = 1"
    by (auto simp: out_def hd_def oaes_header_def slice_def)
  moreover have "slice out 16 (length d) = d" by (simp add: out_def hd slice_def)
  ultimately have "oaes_key_import (Some c2) (Some out) (length d + 16) L = install_key c2 d L"
    using d(2) by (auto simp: oaes_key_import_def OAES_BLOCK_SIZE_def Let_def key_lengths_iff)
  moreover obtain L' where "install_key c2 d L
      = (OAES_RET_SUCCESS, Some (c2\<lparr>ctx_key := Some k\<rparr>), L')"
    using install_key_success [OF assms(5) d(2) assms(6)] d(1) by blast
  ultimately show ?thesis using exp assms(2) d(1)
    by (auto simp: oaes_key_export_def OAES_BLOCK_SIZE_def Let_def)
qed

lemma key_export_import_witness:
  "\<exists>d n L'. oaes_key_export (Some (ctx_with key_128)) (Some (replicate 40 0)) (Some 40)
       = (OAES_RET_SUCCESS, Some d, Some n)
     \<and> oaes_key_export (Some (ctx_with key_128)) None (Some 40) = (OAES_RET_SUCCESS, None, Some n)
     \<and> oaes_key_import (Some (ctx_with (replicate 32 7))) (Some d) n plenty
       = (OAES_RET_SUCCESS, Some ((ctx_with (replicate 32 7))\<lparr>ctx_key := Some (key_of key_128)\<rparr>), L')"
  using key_export_import [of "ctx_with key_128" "key_of key_128" 40 "replicate 40 0"
      "ctx_with (replicate 32 7)" plenty]
  by (simp add: ctx_with_ok key_lengths_iff) (simp add: ctx_with_def plenty_def)

text \<open>C27: an import that is refused for its arguments or its header leaves the context and the
  allocator untouched; one that fails for lack of memory leaves a context without a key; a
  successful one had the magic bytes, version 1, type 1 and the length in its header.\<close>

lemma key_import_outcomes:
  assumes "oaes_key_import (Some c) (Some d) n L = (r, c', L')" "ctx_ok c" "n \<le> length d"
  shows "(r = OAES_RET_ARG3 \<or> r = OAES_RET_HEADER) \<and> c' = Some c \<and> L' = L
       \<or> (r = OAES_RET_MEM \<or> r = OAES_RET_UNKNOWN) \<and> c' = Some (c\<lparr>ctx_key := None\<rparr>)
       \<or> r = OAES_RET_SUCCESS \<and> c' = Some (c\<lparr>ctx_key := Some (key_of (slice d 16 (n - 16)))\<rparr>)
          \<and> take 6 d = [0x4f, 0x41, 0x45, 0x53, 0x01, 0x01] \<and> unat (d ! 7) + 16 = n"
proof (cases "oaes_key_import (Some c) (Some d) n L = install_key c (slice d 16 (n - 16)) L
     \<and> slice d 0 4 = slice oaes_header 0 4 \<and> d ! 4 = 1 \<and> d ! 5 = 1 \<and> unat (d ! 7) + 16 = n
     \<and> n - 16 \<in> key_lengths")
  case True
  then have n: "16 \<le> n" "length (slice d 16 (n - 16)) \<in> key_lengths"
    using assms(3) by (auto simp: key_lengths_iff)
  have "take 6 d = slice d 0 4 @ [d ! 4, d ! 5]"
    using n assms(3) True by (simp add: slice_def take_Suc_conv_app_nth numeral_eq_Suc key_lengths_iff)
  then show ?thesis
    using install_key_outcomes [OF assms(2) n(2), of L] True assms(1)
    by (auto simp: oaes_header_def slice_def)
next
  case False
  then show ?thesis
    using assms by (auto simp: oaes_key_import_def OAES_BLOCK_SIZE_def Let_def key_lengths_iff split: if_splits)
qed

lemma key_import_outcomes_witness:
  "\<exists>r c' L'. oaes_key_import (Some (ctx_with key_128)) (Some (replicate 32 0)) 32 plenty = (r, c', L')
     \<and> c' = Some (ctx_with key_128) \<and> L' = plenty"
proof -
  have "oaes_key_import (Some (ctx_with key_128)) (Some (replicate 32 0)) 32 plenty
      = (OAES_RET_HEADER, Some (ctx_with key_128), plenty)"
    by (simp add: oaes_key_import_def OAES_BLOCK_SIZE_def oaes_header_def slice_def numeral_eq_Suc)
  from key_import_outcomes [OF this] this show ?thesis by (simp add: ctx_with_ok)
qed

end
