(* ===== verification/Oaes_Block.thy ===== *)
theory Oaes_Block
  imports Oaes_Key
begin

text \<open>
  The block cipher of \<^verbatim>\<open>libcryptonote/crypto/oaes_lib.c\<close>: encryption and decryption of one block
  with the expanded key of a context, and the keyed rounds CryptoNight is built from.  A block is
  changed in place: it is passed as an option (a pointer) and returned.

  Shown: decryption undoes encryption for every well-formed context, encryption is the sequence of
  rounds of FIPS 197, and the pseudo-encryption is ten full rounds.
\<close>

unbundle bit_operations_syntax

section \<open>Operations\<close>

text \<open>The four calls that mix the columns of a block in place.\<close>

definition on_columns :: "(bytes \<Rightarrow> bytes) \<Rightarrow> bytes \<Rightarrow> bytes" where
  "on_columns f c =
     (let c1 = blit c 0 (f (slice c 0 4));
          c2 = blit c1 4 (f (slice c1 4 4));
          c3 = blit c2 8 (f (slice c2 8 4))
      in blit c3 12 (f (slice c3 12 4)))"

definition add_round_key :: "bytes \<Rightarrow> nat \<Rightarrow> bytes \<Rightarrow> bytes" where
  "add_round_key exp_data i c =
     xor_bytes c (slice exp_data (i * OAES_RKEY_LEN * OAES_COL_LEN) OAES_BLOCK_SIZE)"

definition encrypt_round :: "bytes \<Rightarrow> nat \<Rightarrow> bytes \<Rightarrow> bytes" where
  "encrypt_round exp_data i c =
     add_round_key exp_data i (on_columns mix_cols (shift_rows (map sub_byte c)))"

definition encrypt_bytes :: "bytes \<Rightarrow> nat \<Rightarrow> bytes \<Rightarrow> bytes" where
  "encrypt_bytes exp_data num_keys c =
     add_round_key exp_data (num_keys - 1)
       (shift_rows (map sub_byte
         (fold (encrypt_round exp_data) [1..<num_keys - 1] (add_round_key exp_data 0 c))))"

definition oaes_encrypt_block ::
  "oaes_ctx option \<Rightarrow> bytes option \<Rightarrow> nat \<Rightarrow> OAES_RET \<times> bytes option" where
  "oaes_encrypt_block ctx c c_len =
     (case ctx of None \<Rightarrow> (OAES_RET_ARG1, c) | Some x \<Rightarrow>
      case c of None \<Rightarrow> (OAES_RET_ARG2, c) | Some b \<Rightarrow>
      if c_len \<noteq> OAES_BLOCK_SIZE then (OAES_RET_ARG3, c)
      else case ctx_key x of None \<Rightarrow> (OAES_RET_NOKEY, c) | Some k \<Rightarrow>
        (OAES_RET_SUCCESS, Some (encrypt_bytes (the (k_exp_data k)) (k_num_keys k) b)))"

definition decrypt_round :: "bytes \<Rightarrow> nat \<Rightarrow> bytes \<Rightarrow> bytes" where
  "decrypt_round exp_data i c =
     on_columns inv_mix_cols
       (add_round_key exp_data i (map inv_sub_byte (inv_shift_rows c)))"

definition decrypt_bytes :: "bytes \<Rightarrow> nat \<Rightarrow> bytes \<Rightarrow> bytes" where
  "decrypt_bytes exp_data num_keys c =
     add_round_key exp_data 0
       (map inv_sub_byte (inv_shift_rows
         (fold (decrypt_round exp_data) (rev [1..<num_keys - 1])
           (add_round_key exp_data (num_keys - 1) c))))"

definition oaes_decrypt_block ::
  "oaes_ctx option \<Rightarrow> bytes option \<Rightarrow> nat \<Rightarrow> OAES_RET \<times> bytes option" where
  "oaes_decrypt_block ctx c c_len =
     (case ctx of None \<Rightarrow> (OAES_RET_ARG1, c) | Some x \<Rightarrow>
      case c of None \<Rightarrow> (OAES_RET_ARG2, c) | Some b \<Rightarrow>
      if c_len \<noteq> OAES_BLOCK_SIZE then (OAES_RET_ARG3, c)
      else case ctx_key x of None \<Rightarrow> (OAES_RET_NOKEY, c) | Some k \<Rightarrow>
        (OAES_RET_SUCCESS, Some (decrypt_bytes (the (k_exp_data k)) (k_num_keys k) b)))"

definition encryption_round_bytes :: "bytes \<Rightarrow> bytes \<Rightarrow> bytes" where
  "encryption_round_bytes key c =
     xor_bytes (on_columns mix_cols (shift_rows (map sub_byte c))) (take OAES_BLOCK_SIZE key)"

definition oaes_encryption_round ::
  "bytes option \<Rightarrow> bytes option \<Rightarrow> OAES_RET \<times> bytes option" where
  "oaes_encryption_round key c =
     (case key of None \<Rightarrow> (OAES_RET_ARG1, c) | Some k \<Rightarrow>
      case c of None \<Rightarrow> (OAES_RET_ARG2, c) | Some b \<Rightarrow>
        (OAES_RET_SUCCESS, Some (encryption_round_bytes k b)))"

definition oaes_pseudo_encrypt_ecb ::
  "oaes_ctx option \<Rightarrow> bytes option \<Rightarrow> OAES_RET \<times> bytes option" where
  "oaes_pseudo_encrypt_ecb ctx c =
     (case ctx of None \<Rightarrow> (OAES_RET_ARG1, c) | Some x \<Rightarrow>
      case c of None \<Rightarrow> (OAES_RET_ARG2, c) | Some b \<Rightarrow>
      case ctx_key x of None \<Rightarrow> (OAES_RET_NOKEY, c) | Some k \<Rightarrow>
        (OAES_RET_SUCCESS,
         fold (\<lambda>i b. snd (oaes_encryption_round
                 (Some (drop (i * OAES_RKEY_LEN * OAES_COL_LEN) (the (k_exp_data k)))) b))
              [0..<10] (Some b)))"

section \<open>The standard cipher\<close>

text \<open>
  The reference works on the state matrix: element \<open>(r, c)\<close> is byte \<open>r + 4 c\<close>.  Rows are rotated,
  columns are multiplied with the circulant matrix of the standard over GF(2^8).
\<close>

definition matrix_block :: "(nat \<Rightarrow> nat \<Rightarrow> byte) \<Rightarrow> bytes" where
  "matrix_block f = map (\<lambda>i. f (i mod 4) (i div 4)) [0..<16]"

definition fips_shift_rows :: "bytes \<Rightarrow> bytes" where
  "fips_shift_rows s = matrix_block (\<lambda>r c. s ! (r + 4 * ((c + r) mod 4)))"

definition fips_coeff :: "nat \<Rightarrow> byte" where
  "fips_coeff n = [0x02, 0x03, 0x01, 0x01] ! (n mod 4)"

definition fips_mix_columns :: "bytes \<Rightarrow> bytes" where
  "fips_mix_columns s =
     matrix_block (\<lambda>r c. foldr (\<lambda>k acc. gf_mult (s ! (k + 4 * c)) (fips_coeff (k + 4 - r)) XOR acc)
                          [0, 1, 2, 3] 0)"

definition fips_round :: "bytes \<Rightarrow> bytes \<Rightarrow> bytes" where
  "fips_round key s = xor_bytes (fips_mix_columns (fips_shift_rows (map sub_byte s))) key"

definition round_key :: "bytes \<Rightarrow> nat \<Rightarrow> bytes" where
  "round_key w i = slice w (16 * i) 16"

definition fips_cipher :: "bytes \<Rightarrow> bytes \<Rightarrow> bytes" where
  "fips_cipher key s =
     (let w = fips_key_schedule key;
          nr = length key div 4 + 6
      in xor_bytes (fips_shift_rows (map sub_byte
           (fold (\<lambda>i. fips_round (round_key w i)) [1..<nr] (xor_bytes s (round_key w 0)))))
           (round_key w nr))"

section \<open>Inverse rounds\<close>

lemma on_columns_eq:
  assumes "length c = 16" "\<And>w. length (f w) = 4"
  shows "on_columns f c = f (slice c 0 4) @ f (slice c 4 4) @ f (slice c 8 4) @ f (slice c 12 4)"
proof -
  let ?w0 = "f (slice c 0 4)" and ?w1 = "f (slice c 4 4)" and ?w2 = "f (slice c 8 4)"
    and ?w3 = "f (slice c 12 4)"
  have "blit c 0 ?w0 = ?w0 @ drop 4 c"
    using assms by (simp add: blit_def)
  moreover have "blit (?w0 @ drop 4 c) 4 (f (slice (?w0 @ drop 4 c) 4 4)) = ?w0 @ ?w1 @ drop 8 c"
    using assms by (simp add: blit_def slice_def)
  moreover have "blit (?w0 @ ?w1 @ drop 8 c) 8 (f (slice (?w0 @ ?w1 @ drop 8 c) 8 4))
      = ?w0 @ ?w1 @ ?w2 @ drop 12 c"
    using assms by (simp add: blit_def slice_def)
  moreover have "blit (?w0 @ ?w1 @ ?w2 @ drop 12 c) 12 (f (slice (?w0 @ ?w1 @ ?w2 @ drop 12 c) 12 4))
      = ?w0 @ ?w1 @ ?w2 @ ?w3"
    using assms by (simp add: blit_def slice_def)
  ultimately show ?thesis by (simp add: on_columns_def Let_def)
qed

lemma length_on_columns:
  assumes "length c = 16" "\<And>w. length (f w) = 4"
  shows "length (on_columns f c) = 16"
  using on_columns_eq [OF assms] assms(2) by simp

lemma block_columns:
  assumes "length c = 16"
  shows "c = slice c 0 4 @ slice c 4 4 @ slice c 8 4 @ slice c 12 4"
proof -
  have "drop 4 c = slice c 4 4 @ drop 8 c" "drop 8 c = slice c 8 4 @ drop 12 c"
    using append_take_drop_id [of 4 "drop 4 c"] append_take_drop_id [of 4 "drop 8 c"]
    by (simp_all add: slice_def del: append_take_drop_id)
  moreover have "drop 12 c = slice c 12 4" using assms by (simp add: slice_def)
  moreover have "c = slice c 0 4 @ drop 4 c" by (simp add: slice_def)
  ultimately show ?thesis by metis
qed

lemma on_columns_inverse:
  assumes "length c = 16" "\<And>w. length (f w) = 4" "\<And>w. length (g w) = 4"
    and inv: "\<And>w. length w = 4 \<Longrightarrow> g (f w) = w"
  shows "on_columns g (on_columns f c) = c"
proof -
  let ?w0 = "f (slice c 0 4)" and ?w1 = "f (slice c 4 4)" and ?w2 = "f (slice c 8 4)"
    and ?w3 = "f (slice c 12 4)"
  let ?d = "?w0 @ ?w1 @ ?w2 @ ?w3"
  have d: "on_columns f c = ?d" using on_columns_eq assms(1,2) by blast
  have "on_columns g ?d = g (slice ?d 0 4) @ g (slice ?d 4 4) @ g (slice ?d 8 4) @ g (slice ?d 12 4)"
    using assms(2,3) by (intro on_columns_eq) simp_all
  also have "\<dots> = g ?w0 @ g ?w1 @ g ?w2 @ g ?w3"
    using assms(2) by (simp add: slice_def)
  also have "\<dots> = c"
    using assms(1) block_columns [OF assms(1)] by (simp add: inv)
  finally show ?thesis by (simp add: d)
qed

lemma length_add_round_key:
  "length c = 16 \<Longrightarrow> 16 * i + 16 \<le> length ed \<Longrightarrow> length (add_round_key ed i c) = 16"
  by (simp add: add_round_key_def OAES_RKEY_LEN_def OAES_COL_LEN_def OAES_BLOCK_SIZE_def)

lemma add_round_key_cancel:
  "length c = 16 \<Longrightarrow> 16 * i + 16 \<le> length ed \<Longrightarrow> add_round_key ed i (add_round_key ed i c) = c"
  by (simp add: add_round_key_def OAES_RKEY_LEN_def OAES_COL_LEN_def OAES_BLOCK_SIZE_def)

definition sub_shift :: "bytes \<Rightarrow> bytes" where
  "sub_shift c = shift_rows (map sub_byte c)"

lemma inv_sub_shift:
  "length c = 16 \<Longrightarrow> map inv_sub_byte (inv_shift_rows (sub_shift c)) = c"
  by (simp add: sub_shift_def inv_shift_rows_cancel comp_def)

lemma length_encrypt_round:
  "16 * i + 16 \<le> length ed \<Longrightarrow> length (encrypt_round ed i c) = 16"
  by (simp add: encrypt_round_def length_add_round_key length_on_columns)

lemma decrypt_round_cancel:
  assumes "length c = 16" "16 * i + 16 \<le> length ed"
  shows "decrypt_round ed i (sub_shift (encrypt_round ed i c)) = sub_shift c"
  using assms
  by (simp add: decrypt_round_def inv_sub_shift length_encrypt_round)
    (simp add: encrypt_round_def add_round_key_cancel length_on_columns on_columns_inverse
      inv_mix_cols_cancel sub_shift_def)

lemma length_encrypt_rounds:
  "length c = 16 \<Longrightarrow> \<forall>i\<in>set is. 16 * i + 16 \<le> length ed \<Longrightarrow> length (fold (encrypt_round ed) is c) = 16"
  by (induction "is" arbitrary: c) (auto simp: length_encrypt_round)

lemma decrypt_rounds_cancel:
  assumes "length c = 16" "\<forall>i\<in>set is. 16 * i + 16 \<le> length ed"
  shows "fold (decrypt_round ed) (rev is) (sub_shift (fold (encrypt_round ed) is c)) = sub_shift c"
  using assms
proof (induction "is" rule: rev_induct)
  case (snoc i "is")
  then show ?case by (simp add: decrypt_round_cancel length_encrypt_rounds)
qed simp

lemma decrypt_bytes_encrypt_bytes:
  assumes "length c = 16" "2 \<le> n" "length ed = 16 * n"
  shows "decrypt_bytes ed n (encrypt_bytes ed n c) = c"
proof -
  let ?r = "fold (encrypt_round ed) [1..<n - 1] (add_round_key ed 0 c)"
  have c0: "length (add_round_key ed 0 c) = 16" using assms by (simp add: length_add_round_key)
  have "\<forall>i\<in>set [1..<n - 1]. 16 * i + 16 \<le> length ed" using assms by auto
  then have "fold (decrypt_round ed) (rev [1..<n - 1]) (sub_shift ?r) = sub_shift (add_round_key ed 0 c)"
    using c0 by (rule decrypt_rounds_cancel [rotated])
  moreover have "add_round_key ed (n - 1) (encrypt_bytes ed n c) = sub_shift ?r"
    using assms by (simp add: encrypt_bytes_def sub_shift_def add_round_key_cancel)
  ultimately show ?thesis
    using c0 assms by (simp add: decrypt_bytes_def inv_sub_shift add_round_key_cancel)
qed

lemma length_encrypt_bytes:
  "2 \<le> n \<Longrightarrow> length ed = 16 * n \<Longrightarrow> length (encrypt_bytes ed n c) = 16"
  by (simp add: encrypt_bytes_def length_add_round_key)

lemma gf_mult_1: "gf_mult a 1 = a"
  by (simp add: gf_mult_def)

section \<open>The code against the standard\<close>

lemma shift_rows_fips: "shift_rows c = fips_shift_rows c"
  by (simp add: shift_rows_def fips_shift_rows_def matrix_block_def upt_rec)

lemma mix_columns_fips:
  assumes "length c = 16" 
  shows "on_columns mix_cols c = fips_mix_columns c"
proof -
  have "on_columns mix_cols [c ! 0, c ! 1, c ! 2, c ! 3, c ! 4, c ! 5, c ! 6, c ! 7,
     c ! 8, c ! 9, c ! 10, c ! 11, c ! 12, c ! 13, c ! 14, c ! 15] = fips_mix_columns c"
    by (simp add: on_columns_eq) (simp add: slice_def mix_cols_def fips_mix_columns_def matrix_block_def
        fips_coeff_def gf_mult_1 gf_mult_eqs [symmetric] upt_rec xor_ac numeral_2_eq_2)
  then show ?thesis using list_16 [OF assms] by simp
qed

lemma add_round_key_round_key: "add_round_key ed i c = xor_bytes c (round_key ed i)"
  by (simp add: add_round_key_def round_key_def OAES_RKEY_LEN_def OAES_COL_LEN_def
      OAES_BLOCK_SIZE_def mult.commute)

lemma encrypt_round_fips: "encrypt_round ed i c = fips_round (round_key ed i) c"
  by (simp add: encrypt_round_def add_round_key_round_key fips_round_def shift_rows_fips
      mix_columns_fips fips_shift_rows_def matrix_block_def)

lemma encrypt_bytes_fips:
  "encrypt_bytes (fips_key_schedule key) (length key div 4 + 7) c = fips_cipher key c"
  by (simp add: encrypt_bytes_def fips_cipher_def add_round_key_round_key Let_def shift_rows_fips
      encrypt_round_fips [abs_def] add.commute)

section \<open>Properties of the block cipher\<close>

text \<open>C14: with a well-formed context, block encryption of 16 bytes succeeds and is the AES cipher of
  FIPS 197 (state matrix, row shifts, column products over GF(2^8), key schedule) under the
  context's 128, 192 or 256 bit key.\<close>

lemma block_encrypt_is_aes:
  assumes "ctx_ok c" "ctx_key c = Some k" "length b = 16"
  shows "oaes_encrypt_block (Some c) (Some b) 16
       = (OAES_RET_SUCCESS, Some (fips_cipher (the (k_data k)) b))"
  using assms
  by (auto simp: oaes_encrypt_block_def ctx_ok_def key_ok_iff encrypt_bytes_fips OAES_BLOCK_SIZE_def)

lemma block_encrypt_is_aes_witness:
  "oaes_encrypt_block (Some (ctx_with key_128)) (Some (replicate 16 0x11)) 16
     = (OAES_RET_SUCCESS, Some (fips_cipher key_128 (replicate 16 0x11)))"
  using block_encrypt_is_aes [of "ctx_with key_128" "key_of key_128" "replicate 16 0x11"]
  by (simp add: ctx_with_ok) (simp add: ctx_with_def)

text \<open>block decryption undoes block encryption: under any well-formed context with a key, the
  encryption of any 16 bytes decrypts to these bytes, both calls succeeding.\<close>

lemma block_decrypt_encrypt:
  assumes "ctx_ok c" "ctx_key c = Some k" "length b = 16"
  shows "\<exists>e. oaes_encrypt_block (Some c) (Some b) 16 = (OAES_RET_SUCCESS, Some e) \<and> length e = 16
       \<and> oaes_decrypt_block (Some c) (Some e) 16 = (OAES_RET_SUCCESS, Some b)"
proof -
  obtain d where d: "k = key_of d" "length d \<in> key_lengths"
    using assms(1,2) by (auto simp: ctx_ok_def key_ok_iff)
  then show ?thesis
    using assms decrypt_bytes_encrypt_bytes [of b "length d div 4 + 7" "fips_key_schedule d"]
    by (simp add: oaes_encrypt_block_def oaes_decrypt_block_def length_encrypt_bytes
        length_fips_key_schedule OAES_BLOCK_SIZE_def)
qed

lemma block_decrypt_encrypt_witness:
  "\<exists>e. oaes_encrypt_block (Some (ctx_with key_128)) (Some (replicate 16 0x11)) 16
         = (OAES_RET_SUCCESS, Some e) \<and> length e = 16
     \<and> oaes_decrypt_block (Some (ctx_with key_128)) (Some e) 16
         = (OAES_RET_SUCCESS, Some (replicate 16 0x11))"
  using block_decrypt_encrypt [of "ctx_with key_128" "key_of key_128" "replicate 16 0x11"]
  by (simp add: ctx_with_ok) (simp add: ctx_with_def)

text \<open>The pseudo-encryption that CryptoNight uses is ten full AES rounds with the first ten round
  keys of the schedule, without the initial key addition and with column mixing in every round.\<close>

lemma pseudo_encrypt_is_ten_rounds:
  assumes "ctx_ok c" "ctx_key c = Some k" "length b = 16"
  shows "oaes_pseudo_encrypt_ecb (Some c) (Some b) = (OAES_RET_SUCCESS,
     Some (fold (\<lambda>i. fips_round (round_key (fips_key_schedule (the (k_data k))) i)) [0..<10] b))"
proof -
  obtain d where d: "k = key_of d" using assms(1,2) by (auto simp: ctx_ok_def key_ok_iff)
  have "fold (\<lambda>i b. snd (oaes_encryption_round (Some (drop (i * 4 * 4) w)) b)) is (Some b)
      = Some (fold (\<lambda>i. fips_round (round_key w i)) is b)" for w "is"
    by (induction "is" arbitrary: b)
      (simp_all add: oaes_encryption_round_def encryption_round_bytes_def fips_round_def
        shift_rows_fips mix_columns_fips round_key_def slice_def fips_shift_rows_def matrix_block_def
        OAES_BLOCK_SIZE_def mult.commute)
  then show ?thesis
    using assms d
    by (simp add: oaes_pseudo_encrypt_ecb_def OAES_RKEY_LEN_def OAES_COL_LEN_def del: upt_rec_numeral)
qed

lemma pseudo_encrypt_is_ten_rounds_witness:
  "oaes_pseudo_encrypt_ecb (Some (ctx_with key_128)) (Some (replicate 16 0x11)) = (OAES_RET_SUCCESS,
     Some (fold (\<lambda>i. fips_round (round_key (fips_key_schedule key_128) i)) [0..<10] (replicate 16 0x11)))"
  using pseudo_encrypt_is_ten_rounds [of "ctx_with key_128" "key_of key_128" "replicate 16 0x11"]
  by (simp add: ctx_with_ok del: upt_rec_numeral) (simp add: ctx_with_def del: upt_rec_numeral)

end
