(* ===== verification/Oaes_Mode.thy ===== *)
theory Oaes_Mode
  imports Oaes_Block
begin

text \<open>
  Message encryption and decryption of \<^verbatim>\<open>libcryptonote/crypto/oaes_lib.c\<close> (\<open>oaes_encrypt\<close>,
  \<open>oaes_decrypt\<close>): the 16-byte header, the initialisation vector, the padding and the CBC chaining,
  with lengths as 64-bit words that wrap as \<open>size_t\<close> does.  \<open>None\<close> as the result of a call stands
  for an access outside a buffer, which the language leaves undefined.

  Shown: \<open>oaes_decrypt\<close> returns the message that \<open>oaes_encrypt\<close> was given, for every message
  length and both modes; the length that a size query reports is enough; every sequence of calls on
  a context keeps it well-formed and leaks no memory.
\<close>

unbundle bit_operations_syntax

section \<open>Encryption\<close>

definition OAES_FLAG_PAD :: byte where "OAES_FLAG_PAD = 0x01"

definition pad_len :: "u64 \<Rightarrow> u64" where
  "pad_len m_len = (if m_len mod 16 = 0 then 0 else 16 - m_len mod 16)"

text \<open>The header block: magic, version and type, the options, the flags.\<close>

definition header_for :: "oaes_ctx \<Rightarrow> byte \<Rightarrow> bytes" where
  "header_for x flags = blit (blit oaes_header 6 (le_bytes 2 (ctx_options x))) 8 [flags]"

text \<open>One iteration of the loop over the data blocks of \<open>c\<close>; \<open>i\<close> is the offset in the data.\<close>

definition pad_block :: "bytes \<Rightarrow> bytes" where
  "pad_block b = b @ map (\<lambda>j. of_nat (j + 1)) [0..<OAES_BLOCK_SIZE - length b]"

definition encrypt_step ::
  "nat \<Rightarrow> nat \<Rightarrow> OAES_RET \<times> oaes_ctx \<times> bytes \<Rightarrow> OAES_RET \<times> oaes_ctx \<times> bytes" where
  "encrypt_step m_len i s =
     (case s of (rc, x, c) \<Rightarrow>
      let block_size = min (m_len - i) OAES_BLOCK_SIZE;
          block = pad_block (slice c (2 * OAES_BLOCK_SIZE + i) block_size);
          cbc = (ctx_options x AND OAES_OPTION_CBC \<noteq> 0);
          block1 = (if cbc then xor_bytes block (ctx_iv x) else block)
      in case oaes_encrypt_block (Some x) (Some block1) OAES_BLOCK_SIZE of (r, block2) \<Rightarrow>
           (rc_or rc r,
            if cbc then x\<lparr>ctx_iv := the block2\<rparr> else x,
            blit c (2 * OAES_BLOCK_SIZE + i) (the block2)))"

text \<open>\<open>for( _i = i; _i < n; _i += OAES_BLOCK_SIZE )\<close>\<close>

function offsets_from :: "nat \<Rightarrow> nat \<Rightarrow> nat list" where
  "offsets_from i n = (if i < n then i # offsets_from (i + OAES_BLOCK_SIZE) n else [])"
  by pat_completeness auto
termination
  by (relation "measure (\<lambda>(i, n). n - i)") (auto simp: OAES_BLOCK_SIZE_def)

declare offsets_from.simps [simp del]

definition oaes_encrypt ::
  "oaes_ctx option \<Rightarrow> bytes option \<Rightarrow> u64 \<Rightarrow> bytes option \<Rightarrow> u64 option
    \<Rightarrow> OAES_RET \<times> oaes_ctx option \<times> bytes option \<times> u64 option" where
  "oaes_encrypt ctx m m_len c c_len =
     (let pl = pad_len m_len;
          flags = (if pl \<noteq> 0 then OAES_FLAG_PAD else 0) in
      case ctx of None \<Rightarrow> (OAES_RET_ARG1, None, c, c_len) | Some x \<Rightarrow>
      case m of None \<Rightarrow> (OAES_RET_ARG2, ctx, c, c_len) | Some ms \<Rightarrow>
      case c_len of None \<Rightarrow> (OAES_RET_ARG5, ctx, c, None) | Some len_in \<Rightarrow>
      let data_len = m_len + pl;
          need = 2 * of_nat OAES_BLOCK_SIZE + m_len + pl in
      case c of None \<Rightarrow> (OAES_RET_SUCCESS, ctx, None, Some need) | Some cs \<Rightarrow>
      if len_in < need then (OAES_RET_BUF, ctx, c, Some need)
      else if ctx_key x = None then (OAES_RET_NOKEY, ctx, c, Some need)
      else
        let c1 = blit cs 0 (header_for x flags);
            c2 = blit c1 OAES_BLOCK_SIZE (ctx_iv x);
            c3 = blit c2 (2 * OAES_BLOCK_SIZE) (take (unat m_len) ms)
        in case fold (encrypt_step (unat m_len)) (offsets_from 0 (unat data_len)) (OAES_RET_SUCCESS, x, c3) of
             (rc, x1, c4) \<Rightarrow> (rc, Some x1, Some c4, Some need))"

section \<open>Decryption\<close>

definition decrypt_step ::
  "oaes_ctx \<Rightarrow> u16 \<Rightarrow> bytes \<Rightarrow> nat \<Rightarrow> nat \<Rightarrow> OAES_RET \<times> bytes \<times> bytes \<Rightarrow> OAES_RET \<times> bytes \<times> bytes" where
  "decrypt_step x options c m_len i s =
     (case s of (rc, iv, m) \<Rightarrow>
      let cbc = (options AND OAES_OPTION_CBC \<noteq> 0);
          iv1 = (if cbc \<and> i > 0 then slice c (OAES_BLOCK_SIZE + i) OAES_BLOCK_SIZE else iv);
          (r, b) = oaes_decrypt_block (Some x) (Some (slice m i OAES_BLOCK_SIZE))
                     (min (m_len - i) OAES_BLOCK_SIZE);
          m1 = blit m i (the b);
          m2 = (if cbc then blit m1 i (xor_bytes (slice m1 i OAES_BLOCK_SIZE) iv1) else m1)
      in (rc_or rc r, iv1, m2))"

text \<open>
  The removal of the padding from the decrypted data; \<open>None\<close> when there is no last byte to read.
\<close>

definition is_pad :: "bytes \<Rightarrow> nat \<Rightarrow> nat \<Rightarrow> bool" where
  "is_pad m m_len temp \<longleftrightarrow> (\<forall>i<temp. unat (m ! (m_len - 1 - i)) = temp - i)"

definition remove_pad :: "bytes \<Rightarrow> nat \<Rightarrow> (OAES_RET \<times> bytes \<times> nat) option" where
  "remove_pad m m_len =
     (if m_len = 0 then None
      else
        let temp = unat (m ! (m_len - 1)) in
        if temp = 0 \<or> temp > 0x0f then Some (OAES_RET_HEADER, m, m_len)
        else if is_pad m m_len temp
        then Some (OAES_RET_SUCCESS, blit m (m_len - temp) (replicate temp 0), m_len - temp)
        else Some (OAES_RET_HEADER, m, m_len))"

definition header_valid :: "bytes \<Rightarrow> bool" where
  "header_valid c \<longleftrightarrow>
     slice c 0 4 = slice oaes_header 0 4 \<and> c ! 4 = 0x01 \<and> c ! 5 = 0x02
     \<and> (let options = le_word (slice c 6 2) :: u16 in
          options AND NOT (OAES_OPTION_ECB OR OAES_OPTION_CBC) = 0
          \<and> \<not> (options AND OAES_OPTION_ECB \<noteq> 0 \<and> options AND OAES_OPTION_CBC \<noteq> 0)
          \<and> options \<noteq> OAES_OPTION_NONE)
     \<and> c ! 8 AND NOT OAES_FLAG_PAD = 0"

definition oaes_decrypt ::
  "oaes_ctx option \<Rightarrow> bytes option \<Rightarrow> u64 \<Rightarrow> bytes option \<Rightarrow> u64 option
    \<Rightarrow> (OAES_RET \<times> bytes option \<times> u64 option) option" where
  "oaes_decrypt ctx c c_len m m_len =
     (case ctx of None \<Rightarrow> Some (OAES_RET_ARG1, m, m_len) | Some x \<Rightarrow>
      case c of None \<Rightarrow> Some (OAES_RET_ARG2, m, m_len) | Some cs \<Rightarrow>
      if c_len mod of_nat OAES_BLOCK_SIZE \<noteq> 0 then Some (OAES_RET_ARG3, m, m_len)
      else case m_len of None \<Rightarrow> Some (OAES_RET_ARG5, m, None) | Some len_in \<Rightarrow>
      let need = c_len - 2 * of_nat OAES_BLOCK_SIZE in
      case m of None \<Rightarrow> Some (OAES_RET_SUCCESS, None, Some need) | Some ms \<Rightarrow>
      if len_in < need then Some (OAES_RET_BUF, m, Some need)
      else if ctx_key x = None then Some (OAES_RET_NOKEY, m, Some need)
      else if unat c_len < OAES_BLOCK_SIZE then None
      else if \<not> header_valid cs then Some (OAES_RET_HEADER, m, Some need)
      else if unat c_len < 2 * OAES_BLOCK_SIZE then None
      else
        let options = le_word (slice cs 6 2);
            flags = cs ! 8;
            iv = slice cs OAES_BLOCK_SIZE OAES_BLOCK_SIZE;
            m1 = blit ms 0 (slice cs (2 * OAES_BLOCK_SIZE) (unat need))
        in case fold (decrypt_step x options cs (unat need)) (offsets_from 0 (unat need))
                  (OAES_RET_SUCCESS, iv, m1) of
             (rc, iv1, m2) \<Rightarrow>
               if flags AND OAES_FLAG_PAD \<noteq> 0
               then (case remove_pad m2 (unat need) of
                       None \<Rightarrow> None
                     | Some (r, m3, n) \<Rightarrow> Some (r, Some m3, Some (of_nat n)))
               else Some (OAES_RET_SUCCESS, Some m2, Some need))"

section \<open>Modes of a block cipher\<close>

fun mode_encrypt :: "bool \<Rightarrow> (bytes \<Rightarrow> bytes) \<Rightarrow> bytes \<Rightarrow> bytes list \<Rightarrow> bytes list" where
  "mode_encrypt cbc E iv [] = []"
| "mode_encrypt cbc E iv (b # bs) =
     (let e = E (if cbc then xor_bytes b iv else b)
      in e # mode_encrypt cbc E (if cbc then e else iv) bs)"

fun mode_decrypt :: "bool \<Rightarrow> (bytes \<Rightarrow> bytes) \<Rightarrow> bytes \<Rightarrow> bytes list \<Rightarrow> bytes list" where
  "mode_decrypt cbc D iv [] = []"
| "mode_decrypt cbc D iv (c # cs) =
     (if cbc then xor_bytes (D c) iv else D c) # mode_decrypt cbc D (if cbc then c else iv) cs"

text \<open>What a mode needs of a block cipher: blocks stay blocks and decryption undoes encryption.\<close>

locale block_cipher =
  fixes E D :: "'k \<Rightarrow> bytes \<Rightarrow> bytes" and valid_key :: "'k \<Rightarrow> bool"
  assumes length_E: "valid_key k \<Longrightarrow> length b = 16 \<Longrightarrow> length (E k b) = 16"
    and D_E: "valid_key k \<Longrightarrow> length b = 16 \<Longrightarrow> D k (E k b) = b"
begin

lemma mode_blocks:
  assumes "valid_key k" "length iv = 16" "\<forall>b\<in>set bs. length b = 16"
  shows "\<forall>e\<in>set (mode_encrypt cbc (E k) iv bs). length e = 16"
  using assms
proof (induction bs arbitrary: iv)
  case (Cons b bs)
  let ?e = "E k (if cbc then xor_bytes b iv else b)"
  have e: "length ?e = 16" using Cons.prems by (intro length_E) auto
  have "\<forall>e\<in>set (mode_encrypt cbc (E k) (if cbc then ?e else iv) bs). length e = 16"
    using Cons.prems e by (intro Cons.IH) auto
  with e show ?case by (simp only: mode_encrypt.simps Let_def list.set ball_simps)
qed simp

lemma length_mode_encrypt: "length (mode_encrypt cbc (E k) iv bs) = length bs"
  by (induction bs arbitrary: iv) (auto simp: Let_def)

lemma mode_decrypt_encrypt:
  assumes "valid_key k" "length iv = 16" "\<forall>b\<in>set bs. length b = 16"
  shows "mode_decrypt cbc (D k) iv (mode_encrypt cbc (E k) iv bs) = bs"
  using assms
proof (induction bs arbitrary: iv)
  case (Cons b bs)
  then show ?case by (simp add: Let_def length_E D_E)
qed simp

end

definition fips_decipher :: "bytes \<Rightarrow> bytes \<Rightarrow> bytes" where
  "fips_decipher key = decrypt_bytes (fips_key_schedule key) (length key div 4 + 7)"

interpretation aes: block_cipher fips_cipher fips_decipher "\<lambda>key. length key \<in> key_lengths"
proof unfold_locales
  fix k b :: bytes assume k: "length k \<in> key_lengths" and b: "length b = 16"
  show "length (fips_cipher k b) = 16"
    using k by (simp flip: encrypt_bytes_fips add: length_encrypt_bytes length_fips_key_schedule)
  show "fips_decipher k (fips_cipher k b) = b"
    using k b by (simp flip: encrypt_bytes_fips
        add: fips_decipher_def decrypt_bytes_encrypt_bytes length_fips_key_schedule)
qed

section \<open>The encryption loop\<close>

definition pad_bytes :: "nat \<Rightarrow> bytes" where
  "pad_bytes n = map (\<lambda>j. of_nat (j + 1)) [0..<n]"

lemma length_pad_block: "length b \<le> 16 \<Longrightarrow> length (pad_block b) = 16"
  by (simp add: pad_block_def OAES_BLOCK_SIZE_def)

lemma chunks_16_le: "b \<in> set (chunks 16 r) \<Longrightarrow> length b \<le> 16"
proof (induction "16::nat" r rule: chunks.induct)
  case (1 r)
  then show ?case by (subst (asm) (2) chunks.simps) (auto split: if_splits)
qed

lemma padded_blocks: "\<forall>b\<in>set (map pad_block (chunks 16 r)). length b = 16"
  using chunks_16_le by (auto intro: length_pad_block)

lemma concat_padded:
  "concat (map pad_block (chunks 16 r)) = r @ pad_bytes ((16 - length r mod 16) mod 16)"
proof (induction "16::nat" r rule: chunks.induct)
  case (1 r)
  show ?case
  proof (cases "length r < 16")
    case True
    then show ?thesis
      by (cases "r = []") (auto simp: chunks_short pad_block_def pad_bytes_def OAES_BLOCK_SIZE_def)
  next
    case False
    then have "r \<noteq> []" by auto
    moreover have "pad_block (take 16 r) = take 16 r" using False by (simp add: pad_block_def OAES_BLOCK_SIZE_def)
    moreover have "(length r - 16) mod 16 = length r mod 16" using False by (simp add: le_mod_geq)
    ultimately show ?thesis
      using 1 by (subst chunks.simps) (simp flip: append_assoc)
  qed
qed

lemma oaes_encrypt_block_key:
  "ctx_key x = Some (key_of d) \<Longrightarrow>
   oaes_encrypt_block (Some x) (Some b) 16 = (OAES_RET_SUCCESS, Some (fips_cipher d b))"
  by (simp add: oaes_encrypt_block_def OAES_BLOCK_SIZE_def encrypt_bytes_fips)

lemma oaes_decrypt_block_key:
  "ctx_key x = Some (key_of d) \<Longrightarrow>
   oaes_decrypt_block (Some x) (Some b) 16 = (OAES_RET_SUCCESS, Some (fips_decipher d b))"
  by (simp add: oaes_decrypt_block_def OAES_BLOCK_SIZE_def fips_decipher_def)

abbreviation is_cbc :: "u16 \<Rightarrow> bool" where
  "is_cbc options \<equiv> options AND OAES_OPTION_CBC \<noteq> 0"

lemma encrypt_step_block:
  assumes x: "ctx_key x = Some (key_of d)" "length d \<in> key_lengths" "length (ctx_iv x) = 16"
    and m: "m_len - i = length r" and p: "length p = 32 + i" and r: "r \<noteq> []" and t: "16 \<le> length (r @ t)"
  defines "b \<equiv> pad_block (take 16 r)"
  defines "e \<equiv> fips_cipher d (if is_cbc (ctx_options x) then xor_bytes b (ctx_iv x) else b)"
  shows "encrypt_step m_len i (OAES_RET_SUCCESS, x, p @ r @ t) =
    (OAES_RET_SUCCESS, if is_cbc (ctx_options x) then x\<lparr>ctx_iv := e\<rparr> else x,
     (p @ e) @ drop 16 r @ drop (16 - length r) t)" (is ?step)
    and "length e = 16"
proof -
  have lb: "length b = 16" by (simp add: b_def length_pad_block)
  show e: "length e = 16" using lb x by (simp add: e_def aes.length_E)
  have "slice (p @ r @ t) (32 + i) (min (length r) 16) = take 16 r"
    using p by (simp add: slice_def min_def)
  moreover have "blit (p @ r @ t) (32 + i) e = (p @ e) @ drop 16 r @ drop (16 - length r) t"
    using p e by (simp add: blit_def)
  ultimately show ?step
    using m by (cases "is_cbc (ctx_options x)") (simp_all add: encrypt_step_def Let_def OAES_BLOCK_SIZE_def b_def e_def oaes_encrypt_block_key [OF x(1)]
        rc_or_def del: append_assoc)
qed

lemma blocks_step: "0 < (l::nat) \<Longrightarrow> (l + 15) div 16 = 1 + (l - 16 + 15) div 16"
proof (cases "16 \<le> l")
  case True
  then obtain k where "l = k + 16" by (metis le_add_diff_inverse2)
  then show ?thesis by simp
next
  case False
  moreover assume "0 < l"
  ultimately show ?thesis by (simp add: div_nat_eqI)
qed

lemma encrypt_loop:
  assumes "ctx_key x = Some (key_of d)" "length d \<in> key_lengths" "length (ctx_iv x) = 16"
    and "m_len - i = length r" "n = i + 16 * ((length r + 15) div 16)"
    and "length p = 32 + i" "i + length r + length t \<ge> n"
  shows "\<exists>v. length v = 16 \<and>
    fold (encrypt_step m_len) (offsets_from i n) (OAES_RET_SUCCESS, x, p @ r @ t) =
    (OAES_RET_SUCCESS, x\<lparr>ctx_iv := v\<rparr>,
     p @ concat (mode_encrypt (is_cbc (ctx_options x)) (fips_cipher d) (ctx_iv x) (map pad_block (chunks 16 r)))
       @ drop (n - i - length r) t)"
  using assms
proof (induction "16::nat" r arbitrary: x p t i rule: chunks.induct)
  case (1 r)
  show ?case
  proof (cases "r = []")
    case True
    then show ?thesis using 1(4,6) by (auto simp: offsets_from.simps intro!: exI [of _ "ctx_iv x"])
  next
    case False
    then have r: "0 < length r" by simp
    define cbc where "cbc = is_cbc (ctx_options x)"
    define b where "b = pad_block (take 16 r)"
    define e where "e = fips_cipher d (if cbc then xor_bytes b (ctx_iv x) else b)"
    define x1 where "x1 = (if cbc then x\<lparr>ctx_iv := e\<rparr> else x)"
    have "16 div 16 \<le> (length r + 15) div 16" using r by (intro div_le_mono) linarith
    then have n: "i + 16 \<le> n" using 1(6) by simp
    have t: "16 \<le> length (r @ t)" using 1(8) n by simp
    note st = encrypt_step_block [OF 1(2-5,7) False t, folded cbc_def, folded b_def, folded e_def, folded x1_def]
    have x1: "ctx_key x1 = Some (key_of d)" "length (ctx_iv x1) = 16" "ctx_options x1 = ctx_options x"
      "ctx_iv x1 = (if cbc then e else ctx_iv x)" "x1\<lparr>ctx_iv := v\<rparr> = x\<lparr>ctx_iv := v\<rparr>" for v
      using 1(2,4) st(2) by (simp_all add: x1_def)
    have m': "m_len - (i + 16) = length (drop 16 r)" using 1(5) by simp
    have n': "n = i + 16 + 16 * ((length (drop 16 r) + 15) div 16)"
      unfolding 1(6) using blocks_step [OF r] by simp
    have t': "n \<le> i + 16 + length (drop 16 r) + length (drop (16 - length r) t)"
      using 1(8) n' by (cases "16 \<le> length r") simp_all
    have dr: "drop (n - (i + 16) - length (drop 16 r)) (drop (16 - length r) t) = drop (n - i - length r) t"
    proof -
      have "n - (i + 16) - length (drop 16 r) + (16 - length r) = n - i - length r" using n by simp
      then show ?thesis by (simp only: drop_drop)
    qed
    have "\<not> ((16::nat) = 0 \<or> r = [])" using False by simp
    from 1(1) [OF this x1(1) 1(3) x1(2) m' n' _ t', of "p @ e"]
    obtain v where v: "length v = 16" "fold (encrypt_step m_len) (offsets_from (i + 16) n)
        (OAES_RET_SUCCESS, x1, (p @ e) @ drop 16 r @ drop (16 - length r) t) =
      (OAES_RET_SUCCESS, x1\<lparr>ctx_iv := v\<rparr>,
       (p @ e) @ concat (mode_encrypt cbc (fips_cipher d) (ctx_iv x1) (map pad_block (chunks 16 (drop 16 r))))
       @ drop (n - i - length r) t)"
      using 1(7) st(2) unfolding x1(3) cbc_def [symmetric] dr by auto
    have ch: "chunks 16 r = take 16 r # chunks 16 (drop 16 r)"
      using False by (subst chunks.simps) simp
    have "offsets_from i n = i # offsets_from (i + 16) n"
      using n by (subst offsets_from.simps) (simp add: OAES_BLOCK_SIZE_def)
    then show ?thesis
      using v st(1) x1 by (intro exI [of _ v])
        (simp add: ch Let_def cbc_def [symmetric] b_def [symmetric] e_def [symmetric])
  qed
qed

section \<open>The decryption loop\<close>

lemma decrypt_step_block:
  assumes x: "ctx_key x = Some (key_of d)" and e: "length e = 16" and q: "length q = i" and m: "i + 16 \<le> n"
    and D: "length (fips_decipher d e) = 16" and iv: "length iv' = 16"
    and iv': "iv' = (if is_cbc opts \<and> i > 0 then slice c (16 + i) 16 else iv)"
  shows "decrypt_step x opts c n i (OAES_RET_SUCCESS, iv, q @ e @ t) = (OAES_RET_SUCCESS, iv',
     (q @ (if is_cbc opts then xor_bytes (fips_decipher d e) iv' else fips_decipher d e)) @ t)"
proof -
  have "slice (q @ e @ t) i 16 = e" using q e by (simp add: slice_def)
  moreover have "blit (q @ e @ t) i (fips_decipher d e) = q @ fips_decipher d e @ t"
    using q e D by (simp add: blit_def)
  moreover have "slice (q @ fips_decipher d e @ t) i 16 = fips_decipher d e"
    using q D by (simp add: slice_def)
  moreover have "blit (q @ fips_decipher d e @ t) i (xor_bytes (fips_decipher d e) iv')
      = q @ xor_bytes (fips_decipher d e) iv' @ t"
    using q D iv by (simp add: blit_def)
  moreover have "min (n - i) 16 = 16" using m by simp
  ultimately show ?thesis
    by (cases "is_cbc opts"; cases "0 < i")
      (simp_all add: decrypt_step_def Let_def OAES_BLOCK_SIZE_def oaes_decrypt_block_key [OF x] rc_or_def iv')
qed

lemma length_fips_decipher:
  assumes "length d \<in> key_lengths"
  shows "length (fips_decipher d e) = 16"
  using assms by (simp add: fips_decipher_def decrypt_bytes_def length_add_round_key length_fips_key_schedule)

lemma decrypt_loop:
  assumes "ctx_key x = Some (key_of d)" "length d \<in> key_lengths"
    and "\<forall>e\<in>set es. length e = 16" "n = i + 16 * length es" "length q = i"
    and "length iv = 16" "slice c (32 + i) (16 * length es) = concat es"
    and "i = 0 \<or> \<not> is_cbc opts \<longrightarrow> iv' = iv" "0 < i \<and> is_cbc opts \<longrightarrow> iv' = slice c (16 + i) 16" "length iv' = 16"
  shows "\<exists>v. fold (decrypt_step x opts c n) (offsets_from i n) (OAES_RET_SUCCESS, iv, q @ concat es @ t)
     = (OAES_RET_SUCCESS, v, q @ concat (mode_decrypt (is_cbc opts) (fips_decipher d) iv' es) @ t)"
  using assms(3-)
proof (induction es arbitrary: i q iv iv')
  case Nil
  then show ?case by (simp add: offsets_from.simps)
next
  case (Cons e es)
  let ?p = "if is_cbc opts then xor_bytes (fips_decipher d e) iv' else fips_decipher d e"
  have e: "length e = 16" using Cons.prems by simp
  have step: "decrypt_step x opts c n i (OAES_RET_SUCCESS, iv, q @ e @ concat es @ t)
      = (OAES_RET_SUCCESS, iv', (q @ ?p) @ concat es @ t)"
    using Cons.prems by (intro decrypt_step_block [OF assms(1) e]) (auto simp: length_fips_decipher [OF assms(2)])
  have sl: "slice c (32 + i) 16 = e" "slice c (32 + (i + 16)) (16 * length es) = concat es"
  proof -
    have s: "slice c (32 + i) (16 + 16 * length es) = e @ concat es" using Cons.prems(5) by simp
    have "slice c (32 + i) 16 = take 16 (slice c (32 + i) (16 + 16 * length es))"
      by (simp add: slice_def min_def)
    then show "slice c (32 + i) 16 = e" using s e by simp
    have "slice c (32 + (i + 16)) (16 * length es) = drop 16 (slice c (32 + i) (16 + 16 * length es))"
      by (simp add: slice_def drop_take add_ac)
    then show "slice c (32 + (i + 16)) (16 * length es) = concat es" using s e by simp
  qed
  have "\<exists>v. fold (decrypt_step x opts c n) (offsets_from (i + 16) n)
      (OAES_RET_SUCCESS, iv', (q @ ?p) @ concat es @ t)
    = (OAES_RET_SUCCESS, v, (q @ ?p) @ concat (mode_decrypt (is_cbc opts) (fips_decipher d)
        (if is_cbc opts then e else iv') es) @ t)"
    using Cons.prems e sl
    by (intro Cons.IH) (auto simp: length_fips_decipher [OF assms(2)] add_ac)
  moreover have "offsets_from i n = i # offsets_from (i + 16) n"
    using Cons.prems(2) by (subst offsets_from.simps) (simp add: OAES_BLOCK_SIZE_def)
  ultimately show ?case using step by simp
qed

section \<open>Whole messages\<close>

definition padded_len :: "nat \<Rightarrow> nat" where
  "padded_len l = 16 * ((l + 15) div 16)"

lemma padded_len_eq: "padded_len l = l + (16 - l mod 16) mod 16"
proof -
  obtain q r where l: "l = 16 * q + r" "r < 16"
    using mult_div_mod_eq [of 16 l] mod_less_divisor [of 16 l] by (metis zero_less_numeral)
  show ?thesis
  proof (cases r)
    case 0
    then show ?thesis using l by (simp add: padded_len_def)
  next
    case (Suc r')
    have "16 * q + r + 15 = 16 * Suc q + r'" using Suc by simp
    moreover have "(16 * Suc q + r') div 16 = Suc q" using l Suc by simp
    ultimately show ?thesis using l Suc by (simp only: padded_len_def) simp
  qed
qed

lemma padded_len_less: "l + 48 \<le> 2 ^ 64 \<Longrightarrow> 32 + padded_len l < 2 ^ 64"
  using padded_len_eq [of l] mod_less_divisor [of 16 "16 - l mod 16"] by simp

lemma pad_len_of_nat:
  assumes "l < 2 ^ 64"
  shows "pad_len (of_nat l) = of_nat ((16 - l mod 16) mod 16)"
proof -
  have u: "unat (of_nat l :: u64) = l" using assms by (simp add: unat_of_nat)
  have m: "(of_nat l :: u64) mod 16 = of_nat (l mod 16)"
    using u by (intro word_unat_eq_iff [THEN iffD2]) (simp add: unat_mod unat_of_nat)
  have z: "(of_nat (l mod 16) :: u64) = 0 \<longleftrightarrow> l mod 16 = 0"
    using assms by (simp add: word_of_nat_eq_0_iff dvd_eq_mod_eq_0)
  show ?thesis
  proof (cases "l mod 16 = 0")
    case True then show ?thesis by (simp add: pad_len_def m)
  next
    case False
    then have "(of_nat (16 - l mod 16) :: u64) = 16 - of_nat (l mod 16)" by (simp add: of_nat_diff)
    moreover have "(16 - l mod 16) mod 16 = 16 - l mod 16" using False by simp
    ultimately show ?thesis using False z by (simp only: pad_len_def m) simp
  qed
qed

lemma length_header_for [simp]: "length (header_for x f) = 16"
  by (simp add: header_for_def)

lemma unat_of_nat_u64: "k < 2 ^ 64 \<Longrightarrow> unat (of_nat k :: u64) = k"
  by (rule of_nat_inverse) simp_all

lemma of_nat_u64_zero:
  assumes "k < 2 ^ 64"
  shows "(of_nat k :: u64) = 0 \<longleftrightarrow> k = 0"
proof
  assume "(of_nat k :: u64) = 0"
  then have "unat (of_nat k :: u64) = 0" by simp
  then show "k = 0" using unat_of_nat_u64 [OF assms] by simp
qed simp

lemma encrypt_result:
  assumes "ctx_key x = Some (key_of d)" "length d \<in> key_lengths" "length (ctx_iv x) = 16"
    and l: "length ms + 48 \<le> 2 ^ 64"
    and cs: "32 + padded_len (length ms) \<le> unat len_in" "unat len_in \<le> length cs"
  shows "\<exists>v. length v = 16 \<and>
    oaes_encrypt (Some x) (Some ms) (of_nat (length ms)) (Some cs) (Some len_in) =
      (OAES_RET_SUCCESS, Some (x\<lparr>ctx_iv := v\<rparr>),
       Some (header_for x (if length ms mod 16 = 0 then 0 else OAES_FLAG_PAD) @ ctx_iv x
         @ concat (mode_encrypt (is_cbc (ctx_options x)) (fips_cipher d) (ctx_iv x)
                     (map pad_block (chunks 16 ms)))
         @ drop (32 + padded_len (length ms)) cs),
       Some (of_nat (32 + padded_len (length ms))))"
proof -
  let ?l = "length ms" and ?pl = "(16 - length ms mod 16) mod 16" and ?n = "padded_len (length ms)"
  let ?hd = "header_for x (if ?l mod 16 = 0 then 0 else OAES_FLAG_PAD)"
  have n: "?n = ?l + ?pl" "32 + ?n < 2 ^ 64" using padded_len_eq padded_len_less [OF l] by auto
  have l64: "?l < 2 ^ 64" using l by simp
  have pw: "pad_len (of_nat ?l) = of_nat ?pl" using l64 by (rule pad_len_of_nat)
  have pz: "(of_nat ?pl :: u64) = 0 \<longleftrightarrow> ?l mod 16 = 0"
  proof -
    have "?pl < 16" by simp
    then have "(of_nat ?pl :: u64) = 0 \<longleftrightarrow> ?pl = 0" by (intro of_nat_u64_zero) simp
    also have "\<dots> \<longleftrightarrow> ?l mod 16 = 0" by (cases "?l mod 16 = 0") simp_all
    finally show ?thesis .
  qed
  have need: "2 * of_nat 16 + of_nat ?l + of_nat ?pl = (of_nat (32 + ?n) :: u64)" by (simp add: n(1))
  have data: "unat (of_nat ?l + of_nat ?pl :: u64) = ?n"
    using unat_of_nat_u64 [of ?n] n by (simp only: of_nat_add [symmetric])
  have le: "\<not> len_in < of_nat (32 + ?n)"
    using cs(1) unat_of_nat_u64 [OF n(2)] by (simp only: word_less_nat_alt not_less)
  have ul: "unat (of_nat ?l :: u64) = ?l" using l64 by (rule unat_of_nat_u64)
  have "blit cs 0 ?hd = ?hd @ drop 16 cs" by (simp add: blit_def)
  moreover have "blit (?hd @ drop 16 cs) 16 (ctx_iv x) = (?hd @ ctx_iv x) @ drop 32 cs"
    using assms(3) by (simp add: blit_def)
  moreover have "blit ((?hd @ ctx_iv x) @ drop 32 cs) 32 ms = (?hd @ ctx_iv x) @ ms @ drop (32 + ?l) cs"
    using assms(3) by (simp add: blit_def add.commute)
  ultimately have mem: "blit (blit (blit cs 0 ?hd) 16 (ctx_iv x)) 32 (take ?l ms)
      = (?hd @ ctx_iv x) @ ms @ drop (32 + ?l) cs" by simp
  have pre: "?l - 0 = length ms" "?n = 0 + 16 * ((length ms + 15) div 16)"
    "length (?hd @ ctx_iv x) = 32 + 0" "?n \<le> 0 + length ms + length (drop (32 + ?l) cs)"
    subgoal by simp
    subgoal by (simp add: padded_len_def)
    subgoal using assms(3) by simp
    subgoal using cs by simp
    done
  from encrypt_loop [OF assms(1-3) pre]
  obtain v where "length v = 16"
    and loop: "fold (encrypt_step ?l) (offsets_from 0 ?n) (OAES_RET_SUCCESS, x, (?hd @ ctx_iv x) @ ms @ drop (32 + ?l) cs)
      = (OAES_RET_SUCCESS, x\<lparr>ctx_iv := v\<rparr>, (?hd @ ctx_iv x)
         @ concat (mode_encrypt (is_cbc (ctx_options x)) (fips_cipher d) (ctx_iv x) (map pad_block (chunks 16 ms)))
         @ drop (?n - ?l) (drop (32 + ?l) cs))"
    unfolding diff_zero by blast
  moreover have "drop (?n - ?l) (drop (32 + ?l) cs) = drop (32 + ?n) cs" using n by (simp add: add_ac)
  moreover have "oaes_encrypt (Some x) (Some ms) (of_nat ?l) (Some cs) (Some len_in)
      = (case fold (encrypt_step ?l) (offsets_from 0 ?n)
               (OAES_RET_SUCCESS, x, (?hd @ ctx_iv x) @ ms @ drop (32 + ?l) cs) of
           (rc, x1, c4) \<Rightarrow> (rc, Some x1, Some c4, Some (of_nat (32 + ?n))))"
    unfolding oaes_encrypt_def Let_def OAES_BLOCK_SIZE_def pw need data ul
    using le assms(1) mem pz by (cases "?l mod 16 = 0") simp_all
  ultimately show ?thesis by auto
qed

lemma header_for_eq:
  "header_for x f = [0x4f, 0x41, 0x45, 0x53, 0x01, 0x02] @ le_bytes 2 (ctx_options x) @ [f] @ replicate 7 0"
  by (simp add: header_for_def blit_def oaes_header_def numeral_eq_Suc)

lemma header_for_fields:
  "slice (header_for x f @ c) 0 4 = slice oaes_header 0 4" "(header_for x f @ c) ! 4 = 1"
  "(header_for x f @ c) ! 5 = 2" "le_word (slice (header_for x f @ c) 6 2) = ctx_options x"
  "(header_for x f @ c) ! 8 = f"
proof -
  have "slice (header_for x f @ c) 6 2 = le_bytes 2 (ctx_options x)"
    by (simp add: header_for_eq slice_def)
  then show "le_word (slice (header_for x f @ c) 6 2) = ctx_options x" by simp
qed (simp_all add: header_for_eq slice_def oaes_header_def nth_append)

lemma header_for_valid:
  assumes "ctx_options x = OAES_OPTION_ECB \<or> ctx_options x = OAES_OPTION_CBC" "f = 0 \<or> f = OAES_FLAG_PAD"
  shows "header_valid (header_for x f @ c)"
  unfolding header_valid_def header_for_fields Let_def
  using assms by (auto simp: OAES_OPTION_ECB_def
      OAES_OPTION_CBC_def OAES_OPTION_NONE_def OAES_FLAG_PAD_def)

lemma length_pad_bytes [simp]: "length (pad_bytes n) = n"
  by (simp add: pad_bytes_def)

lemma remove_pad_pad_bytes:
  assumes "0 < n" "n < 16"
  shows "remove_pad (ms @ pad_bytes n @ t) (length ms + n)
    = Some (OAES_RET_SUCCESS, ms @ replicate n 0 @ t, length ms)"
proof -
  have at: "unat ((ms @ pad_bytes n @ t) ! (length ms + n - 1 - i)) = n - i" if "i < n" for i
  proof -
    have "length ms + n - 1 - i = length ms + (n - 1 - i)" using that by simp
    then have "(ms @ pad_bytes n @ t) ! (length ms + n - 1 - i) = pad_bytes n ! (n - 1 - i)"
      using that by (simp only: nth_append_length_plus) (simp add: nth_append)
    also have "\<dots> = of_nat (n - i)" using that by (simp add: pad_bytes_def Suc_diff_Suc)
    finally have "(ms @ pad_bytes n @ t) ! (length ms + n - 1 - i) = of_nat (n - i)" .
    moreover have "unat (of_nat (n - i) :: byte) = n - i"
      using assms by (intro of_nat_inverse) simp_all
    ultimately show ?thesis by metis
  qed
  have "blit (ms @ pad_bytes n @ t) (length ms) (replicate n 0) = ms @ replicate n 0 @ t"
    by (simp add: blit_def)
  then show ?thesis using at at [of 0] assms by (simp add: remove_pad_def is_pad_def Let_def)
qed

lemma decrypt_result:
  assumes y: "ctx_key y = Some (key_of d)" "length d \<in> key_lengths"
    and opts: "ctx_options x = OAES_OPTION_ECB \<or> ctx_options x = OAES_OPTION_CBC"
    and f: "f = 0 \<or> f = OAES_FLAG_PAD" and iv: "length iv = 16"
    and es: "\<forall>e\<in>set es. length e = 16" "32 + 16 * length es < 2 ^ 64"
    and mb: "16 * length es \<le> unat len_in" "unat len_in \<le> length mb"
  defines "P \<equiv> concat (mode_decrypt (is_cbc (ctx_options x)) (fips_decipher d) iv es)"
  shows "oaes_decrypt (Some y) (Some (header_for x f @ iv @ concat es @ t)) (of_nat (32 + 16 * length es))
      (Some mb) (Some len_in) =
    (if f = 0 then Some (OAES_RET_SUCCESS, Some (P @ drop (16 * length es) mb), Some (of_nat (16 * length es)))
     else case remove_pad (P @ drop (16 * length es) mb) (16 * length es) of
            None \<Rightarrow> None | Some (r, m3, n) \<Rightarrow> Some (r, Some m3, Some (of_nat n)))"
proof -
  let ?c = "header_for x f @ iv @ concat es @ t" and ?n = "16 * length es"
  have ces: "length (concat es) = ?n" using es(1) by (induction es) auto
  have ul: "unat (of_nat (32 + ?n) :: u64) = 32 + ?n" using es(2) by (rule unat_of_nat_u64)
  have "unat ((of_nat (32 + ?n) :: u64) mod 16) = (32 + ?n) mod 16" using ul by (simp add: unat_mod)
  then have m16: "(of_nat (32 + ?n) :: u64) mod of_nat 16 = 0"
    by (metis (no_types) mod_add_self1 mod_mult_self1_is_0 unsigned_eq_0_iff of_nat_numeral mod_mult_self2 numeral_Bit0 mult_2 mod_self mod_0 add_0 mod_add_left_eq)
  have need: "(of_nat (32 + ?n) :: u64) - 2 * of_nat 16 = of_nat ?n" by simp
  have un: "unat (of_nat ?n :: u64) = ?n" using es(2) by (intro unat_of_nat_u64) linarith
  have le: "\<not> len_in < of_nat ?n" using mb(1) un by (simp only: word_less_nat_alt not_less)
  have c32: "slice ?c 32 ?n = concat es" "slice ?c 16 16 = iv"
    using iv ces by (simp_all add: slice_def)
  have mem: "blit mb 0 (concat es) = [] @ concat es @ drop ?n mb" by (simp add: blit_def ces)
  have pre: "?n = 0 + 16 * length es" "length ([] :: bytes) = 0" "length iv = 16"
    "slice ?c (32 + 0) (16 * length es) = concat es"
    "0 = (0::nat) \<or> \<not> is_cbc (ctx_options x) \<longrightarrow> iv = iv"
    "0 < (0::nat) \<and> is_cbc (ctx_options x) \<longrightarrow> iv = slice ?c (16 + 0) 16" "length iv = 16"
    using c32 iv by (simp_all only: add_0_right) simp_all
  obtain v where "fold (decrypt_step y (ctx_options x) ?c ?n) (offsets_from 0 ?n)
      (OAES_RET_SUCCESS, iv, [] @ concat es @ drop ?n mb) = (OAES_RET_SUCCESS, v, P @ drop ?n mb)"
    using decrypt_loop [OF y es(1) pre, of "drop ?n mb"] unfolding P_def by auto
  moreover have "f AND OAES_FLAG_PAD \<noteq> 0 \<longleftrightarrow> f \<noteq> 0" using f by (auto simp: OAES_FLAG_PAD_def)
  ultimately show ?thesis
    unfolding oaes_decrypt_def Let_def OAES_BLOCK_SIZE_def need m16 ul un
    using le y(1) mem c32 header_for_valid [OF opts f] header_for_fields [of x f "iv @ concat es @ t"]
    by (simp del: slice_append_left slice_append_right)
qed

section \<open>Every sequence of calls on a context\<close>

lemma need_of_nat:
  assumes "l + 48 \<le> 2 ^ 64"
  shows "2 * of_nat OAES_BLOCK_SIZE + of_nat l + pad_len (of_nat l) = (of_nat (32 + padded_len l) :: u64)"
  using pad_len_of_nat [of l] assms by (simp add: padded_len_eq OAES_BLOCK_SIZE_def)

lemma encrypt_keeps_ctx_ok:
  assumes "ctx_ok x" "length ms + 48 \<le> 2 ^ 64"
    and "case (c, c_len) of (Some cs, Some len_in) \<Rightarrow> unat len_in \<le> length cs | _ \<Rightarrow> True"
  shows "\<exists>r x' c' n. oaes_encrypt (Some x) (Some ms) (of_nat (length ms)) c c_len = (r, Some x', c', n)
     \<and> ctx_ok x' \<and> ctx_blocks x' = ctx_blocks x"
proof (cases "\<exists>cs len_in. c = Some cs \<and> c_len = Some len_in \<and> ctx_key x \<noteq> None
    \<and> \<not> len_in < of_nat (32 + padded_len (length ms))")
  case True
  then obtain cs len_in where c: "c = Some cs" "c_len = Some len_in" "ctx_key x \<noteq> None"
    "\<not> len_in < of_nat (32 + padded_len (length ms))" by blast
  have "32 + padded_len (length ms) \<le> unat len_in"
    using c(4) unat_of_nat_u64 [OF padded_len_less [OF assms(2)]]
    by (simp only: word_less_nat_alt not_less)
  moreover obtain d where d: "ctx_key x = Some (key_of d)" "length d \<in> key_lengths"
    using c(3) assms(1) by (auto simp: ctx_ok_def key_ok_iff)
  moreover have "length (ctx_iv x) = 16" using assms(1) by (simp add: ctx_ok_def OAES_BLOCK_SIZE_def)
  ultimately obtain v where "length v = 16" "\<exists>c'. oaes_encrypt (Some x) (Some ms) (of_nat (length ms)) c c_len
      = (OAES_RET_SUCCESS, Some (x\<lparr>ctx_iv := v\<rparr>), c', Some (of_nat (32 + padded_len (length ms))))"
    using encrypt_result [of x d ms len_in cs] assms c by auto
  moreover have "ctx_ok (x\<lparr>ctx_iv := v\<rparr>)" "ctx_blocks (x\<lparr>ctx_iv := v\<rparr>) = ctx_blocks x"
    using assms(1) \<open>length v = 16\<close> by (simp_all add: ctx_ok_def ctx_blocks_def OAES_BLOCK_SIZE_def)
  ultimately show ?thesis by blast
next
  case False
  then show ?thesis
    using assms(1) need_of_nat [OF assms(2)]
    by (auto simp: oaes_encrypt_def Let_def split: option.splits if_splits)
qed

text \<open>
  The states of a context from its allocation on, with the calls that can change it and the
  caller's duty for each: a buffer is as long as the length passed with it, an explicit
  initialisation vector has 16 bytes, a message fits the address space.
\<close>

inductive reachable :: "libc \<Rightarrow> oaes_ctx \<Rightarrow> libc \<Rightarrow> bool" for L0 where
  alloc: "oaes_alloc L0 = (Some c, L) \<Longrightarrow> reachable L0 c L"
| gen: "reachable L0 c L \<Longrightarrow> f \<in> {oaes_key_gen_128, oaes_key_gen_192, oaes_key_gen_256} \<Longrightarrow>
    f (Some c) L = (r, Some c', L') \<Longrightarrow> reachable L0 c' L'"
| import: "reachable L0 c L \<Longrightarrow> reads_ok d n \<Longrightarrow>
    oaes_key_import (Some c) d n L = (r, Some c', L') \<Longrightarrow> reachable L0 c' L'"
| import_data: "reachable L0 c L \<Longrightarrow> reads_ok d n \<Longrightarrow>
    oaes_key_import_data (Some c) d n L = (r, Some c', L') \<Longrightarrow> reachable L0 c' L'"
| set_option: "reachable L0 c L \<Longrightarrow> reads_ok v OAES_BLOCK_SIZE \<Longrightarrow>
    oaes_set_option (Some c) opt v L = (r, Some c', L') \<Longrightarrow> reachable L0 c' L'"
| encrypt: "reachable L0 c L \<Longrightarrow> length ms + 48 \<le> 2 ^ 64 \<Longrightarrow>
    case (buf, c_len) of (Some cs, Some len_in) \<Rightarrow> unat len_in \<le> length cs | _ \<Rightarrow> True \<Longrightarrow>
    oaes_encrypt (Some c) (Some ms) (of_nat (length ms)) buf c_len = (r, Some c', buf', n') \<Longrightarrow>
    reachable L0 c' L"

lemma oaes_alloc_ok:
  assumes "oaes_alloc L0 = (Some c, L)"
  shows "ctx_ok c \<and> ctx_blocks c \<le> live L \<and> live L = live L0 + ctx_blocks c"
proof -
  define c0 where "c0 = \<lparr>ctx_key = None, ctx_options = 0, ctx_iv = replicate OAES_BLOCK_SIZE (0::byte)\<rparr>"
  define L1 where "L1 = snd (calloc_ok L0)"
  define L2 where "L2 = (case oaes_get_seed L1 of (s, L2) \<Rightarrow> srand s L2)"
  have "alloc_ok L0 (allocs L0)" using assms by (auto simp: oaes_alloc_def calloc_ok_eq split: if_splits prod.splits)
  then have l: "live L2 = live L0 + 1"
    by (simp add: L1_def L2_def oaes_get_seed_def Let_def calloc_ok_eq srand_def)
  obtain iv L3 where iv: "rand_bytes OAES_BLOCK_SIZE L2 = (iv, L3)" by fastforce
  have "(Some c, L) = (Some (c0\<lparr>ctx_iv := iv, ctx_options := OAES_OPTION_CBC\<rparr>), L3)"
    using assms iv
    by (auto simp: oaes_alloc_def oaes_set_option_def L2_def L1_def c0_def OAES_OPTION_CBC_def
        OAES_OPTION_ECB_def split: if_splits prod.splits)
  then show ?thesis
    using rand_bytes_fields [OF iv] l by (simp add: c0_def ctx_ok_def ctx_blocks_def)
qed

lemma reachable_ok:
  "reachable L0 c L \<Longrightarrow> ctx_ok c \<and> ctx_blocks c \<le> live L \<and> live L = live L0 + ctx_blocks c"
proof (induction rule: reachable.induct)
  case (alloc c L)
  then show ?case by (rule oaes_alloc_ok)
next
  case (gen c L f r c' L')
  have "\<exists>n\<in>key_lengths. oaes_key_gen (Some c) n L = (r, Some c', L')"
    using gen.hyps(2,3)
    by (auto simp: oaes_key_gen_128_def oaes_key_gen_192_def oaes_key_gen_256_def key_lengths_def)
  then obtain n where "n \<in> key_lengths" "oaes_key_gen (Some c) n L = (r, Some c', L')" by blast
  then show ?case using key_gen.keeps_ctx_ok [of n c L r c' L'] gen.IH by auto
next
  case (import c L d n r c' L')
  then show ?case using key_import.keeps_ctx_ok [of "(d, n)" c L r c' L'] by auto
next
  case (import_data c L d n r c' L')
  then show ?case using key_import_data.keeps_ctx_ok [of "(d, n)" c L r c' L'] by auto
next
  case (set_option c L v opt r c' L')
  then show ?case using set_option.keeps_ctx_ok [of "(opt, v)" c L r c' L'] by auto
next
  case (encrypt c L ms buf c_len r c' buf' n')
  then show ?case using encrypt_keeps_ctx_ok [of c ms buf c_len] by auto
qed

section \<open>Properties of message encryption\<close>

text \<open>C7: decryption returns the message.  For every message of every length, both modes, every key
  and every large enough buffer, \<open>oaes_encrypt\<close> succeeds, reports the length that a query with a
  null buffer reports, and \<open>oaes_decrypt\<close> of its output under the same key, in whatever mode the
  decrypting context is, succeeds and gives the message back with its exact length.\<close>

lemma oaes_decrypt_encrypt:
  assumes "ctx_ok x" "ctx_key x = Some k" "ctx_ok y" "ctx_key y = Some k"
    and "length ms + 48 \<le> 2 ^ 64"
    and "32 + padded_len (length ms) \<le> unat len_in" "unat len_in \<le> length cs"
    and "padded_len (length ms) \<le> unat len_in2" "unat len_in2 \<le> length mb"
  shows "\<exists>x' c' n m'.
     oaes_encrypt (Some x) (Some ms) (of_nat (length ms)) (Some cs) (Some len_in)
       = (OAES_RET_SUCCESS, Some x', Some c', Some n)
   \<and> oaes_encrypt (Some x) (Some ms) (of_nat (length ms)) None (Some len_in)
       = (OAES_RET_SUCCESS, Some x, None, Some n)
   \<and> oaes_decrypt (Some y) (Some c') n (Some mb) (Some len_in2)
       = Some (OAES_RET_SUCCESS, Some m', Some (of_nat (length ms)))
   \<and> take (length ms) m' = ms"
proof -
  let ?l = "length ms" and ?bs = "map pad_block (chunks 16 ms)"
  let ?f = "if length ms mod 16 = 0 then 0 else OAES_FLAG_PAD"
  obtain d where d: "k = key_of d" "length d \<in> key_lengths"
    using assms(1,2) by (auto simp: ctx_ok_def key_ok_iff)
  have x: "ctx_key x = Some (key_of d)" "ctx_key y = Some (key_of d)" "length (ctx_iv x) = 16"
    and opts: "ctx_options x = OAES_OPTION_ECB \<or> ctx_options x = OAES_OPTION_CBC"
    using assms(1-4) d by (auto simp: ctx_ok_def OAES_BLOCK_SIZE_def)
  define es where "es = mode_encrypt (is_cbc (ctx_options x)) (fips_cipher d) (ctx_iv x) ?bs"
  have es: "\<forall>e\<in>set es. length e = 16"
    "mode_decrypt (is_cbc (ctx_options x)) (fips_decipher d) (ctx_iv x) es = ?bs"
    unfolding es_def using aes.mode_blocks [OF d(2) x(3) padded_blocks]
      aes.mode_decrypt_encrypt [OF d(2) x(3) padded_blocks] by blast+
  have P: "concat ?bs = ms @ pad_bytes (padded_len ?l - ?l)"
    by (simp add: concat_padded padded_len_eq)
  have "length (concat ?bs) = 16 * length ?bs" using padded_blocks by (rule length_concat_rows)
  then have n: "16 * length es = padded_len ?l"
    using P padded_len_eq [of ?l] by (simp add: es_def aes.length_mode_encrypt)
  obtain v where enc: "oaes_encrypt (Some x) (Some ms) (of_nat ?l) (Some cs) (Some len_in) =
      (OAES_RET_SUCCESS, Some (x\<lparr>ctx_iv := v\<rparr>),
       Some (header_for x ?f @ ctx_iv x @ concat es @ drop (32 + padded_len ?l) cs),
       Some (of_nat (32 + 16 * length es)))"
    using encrypt_result [OF x(1) d(2) x(3) assms(5-7)] unfolding es_def [symmetric] n by blast
  have q: "oaes_encrypt (Some x) (Some ms) (of_nat ?l) None (Some len_in)
      = (OAES_RET_SUCCESS, Some x, None, Some (of_nat (32 + 16 * length es)))"
    using need_of_nat [OF assms(5)] unfolding n by (simp add: oaes_encrypt_def Let_def)
  have dec: "oaes_decrypt (Some y) (Some (header_for x ?f @ ctx_iv x @ concat es @ drop (32 + padded_len ?l) cs))
      (of_nat (32 + 16 * length es)) (Some mb) (Some len_in2) =
    (if ?f = 0 then Some (OAES_RET_SUCCESS, Some (concat ?bs @ drop (16 * length es) mb), Some (of_nat (16 * length es)))
     else case remove_pad (concat ?bs @ drop (16 * length es) mb) (16 * length es) of
            None \<Rightarrow> None | Some (r, m3, n) \<Rightarrow> Some (r, Some m3, Some (of_nat n)))"
    using decrypt_result [OF x(2) d(2) opts _ x(3) es(1), of ?f len_in2 mb] es(2)
      padded_len_less [OF assms(5)] assms(8,9) n by simp
  have "\<exists>m'. oaes_decrypt (Some y) (Some (header_for x ?f @ ctx_iv x @ concat es @ drop (32 + padded_len ?l) cs))
      (of_nat (32 + 16 * length es)) (Some mb) (Some len_in2)
    = Some (OAES_RET_SUCCESS, Some m', Some (of_nat ?l)) \<and> take ?l m' = ms"
  proof (cases "?l mod 16 = 0")
    case True
    then show ?thesis using dec n P padded_len_eq [of ?l] by (simp add: pad_bytes_def)
  next
    case False
    have pl: "0 < padded_len ?l - ?l" "padded_len ?l - ?l < 16" "padded_len ?l = ?l + (padded_len ?l - ?l)"
      using False padded_len_eq [of ?l] by simp_all
    from remove_pad_pad_bytes [OF pl(1,2), of ms "drop (padded_len ?l) mb"] show ?thesis
      using dec n False P pl(3) by (simp add: OAES_FLAG_PAD_def)
  qed
  then show ?thesis using enc q by blast
qed

lemma oaes_decrypt_encrypt_witness:
  "\<exists>x' c' n m'.
     oaes_encrypt (Some (ctx_with key_128)) (Some [1, 2, 3, 4, 5]) (of_nat (length [1, 2, 3, 4, 5 :: byte]))
       (Some (replicate 48 0)) (Some 48) = (OAES_RET_SUCCESS, Some x', Some c', Some n)
   \<and> oaes_encrypt (Some (ctx_with key_128)) (Some [1, 2, 3, 4, 5]) (of_nat (length [1, 2, 3, 4, 5 :: byte]))
       None (Some 48) = (OAES_RET_SUCCESS, Some (ctx_with key_128), None, Some n)
   \<and> oaes_decrypt (Some (ctx_with key_128)) (Some c') n (Some (replicate 16 0)) (Some 16)
       = Some (OAES_RET_SUCCESS, Some m', Some (of_nat (length [1, 2, 3, 4, 5 :: byte])))
   \<and> take (length [1, 2, 3, 4, 5 :: byte]) m' = [1, 2, 3, 4, 5]"
proof (rule oaes_decrypt_encrypt)
  show "ctx_ok (ctx_with key_128)" "ctx_ok (ctx_with key_128)" by (simp_all add: ctx_with_ok)
  show "ctx_key (ctx_with key_128) = Some (key_of key_128)"
    "ctx_key (ctx_with key_128) = Some (key_of key_128)" by (simp_all add: ctx_with_def)
qed (simp_all add: padded_len_def)

text \<open>C17: no sequence of calls leaks.  Whatever calls follow the allocation of a context, in whatever
  order, with whatever arguments within the caller's duties and whichever allocations fail, the
  context stays well-formed and \<open>oaes_free\<close> returns the allocator to the blocks it had before the
  context was allocated.\<close>

lemma reachable_frees_everything:
  assumes "reachable L0 c L"
  shows "ctx_ok c \<and> fst (oaes_free (Some (Some c)) L) = OAES_RET_SUCCESS
     \<and> live (snd (snd (oaes_free (Some (Some c)) L))) = live L0"
  using reachable_ok [OF assms] by (auto simp: oaes_free_def destroy_ctx_key_eq ctx_blocks_def)

lemma reachable_frees_everything_witness:
  "\<exists>c L. reachable plenty c L \<and> ctx_ok c \<and> live (snd (snd (oaes_free (Some (Some c)) L))) = 9"
proof -
  have "\<exists>c L. oaes_alloc plenty = (Some c, L)"
    by (simp add: oaes_alloc_def calloc_ok_def plenty_def oaes_set_option_def
        OAES_OPTION_CBC_def OAES_OPTION_ECB_def split: prod.splits)
  then obtain c0 L0 where "oaes_alloc plenty = (Some c0, L0)" by blast
  then have r0: "reachable plenty c0 L0" by (rule reachable.alloc)
  obtain r c1 L1 where g: "oaes_key_gen_192 (Some c0) L0 = (r, Some c1, L1)"
    using key_gen.balanced [of 24 c0 L0] reachable_ok [OF r0]
    by (auto simp: oaes_key_gen_192_def key_lengths_def)
  have r1: "reachable plenty c1 L1" 
    by (rule reachable.gen [where f = oaes_key_gen_192, OF r0 _ g]) simp
  then show ?thesis using reachable_frees_everything [OF r1] by (auto simp: plenty_def)
qed

lemma remove_pad_0 [simp]: "remove_pad m 0 = None"
  by (simp add: remove_pad_def)

lemma and_not_or_and: "(a::byte) AND NOT m = 0 \<Longrightarrow> a AND m = a"
  by (auto simp: bit_eq_iff bit_and_iff bit_not_iff)



end
