(* ===== verification/Oaes_Print.thy ===== *)
theory Oaes_Print
  imports Oaes_Tables
begin

text \<open>
  \<open>oaes_sprintf\<close> of \<^verbatim>\<open>libcryptonote/crypto/oaes_lib.c\<close>: the hexadecimal dump of a buffer, three
  characters per byte and a line feed behind every sixteenth.  The output buffer is a byte array;
  the C string it holds ends at its first zero byte.  Lengths are 64-bit words.

  Shown: the text with its terminator has exactly the announced length, so that it fits every
  buffer the length check accepts, and the dump determines the data.
\<close>

unbundle bit_operations_syntax

definition hex_digit :: "nat \<Rightarrow> byte" where
  "hex_digit n = of_nat (if n < 10 then 48 + n else 87 + n)"

text \<open>\<open>sprintf( _temp, "%02x ", b )\<close>\<close>

definition hex_byte :: "byte \<Rightarrow> bytes" where
  "hex_byte b = [hex_digit (unat b div 16), hex_digit (unat b mod 16), 0x20]"

text \<open>The string in a buffer, \<open>strcpy\<close> and \<open>strcat\<close>.\<close>

definition c_string :: "bytes \<Rightarrow> bytes" where
  "c_string buf = takeWhile (\<lambda>b. b \<noteq> 0) buf"

definition str_copy :: "bytes \<Rightarrow> bytes \<Rightarrow> bytes" where
  "str_copy buf s = blit buf 0 (s @ [0])"

definition str_cat :: "bytes \<Rightarrow> bytes \<Rightarrow> bytes" where
  "str_cat buf s = blit buf (length (c_string buf)) (s @ [0])"

definition sprintf_step :: "bytes \<Rightarrow> nat \<Rightarrow> bytes \<Rightarrow> bytes" where
  "sprintf_step data i buf =
     (let buf1 = str_cat buf (hex_byte (data ! i))
      in if i \<noteq> 0 \<and> (i + 1) mod OAES_BLOCK_SIZE = 0 then str_cat buf1 [0x0a] else buf1)"

definition oaes_sprintf ::
  "bytes option \<Rightarrow> u64 option \<Rightarrow> bytes option \<Rightarrow> u64 \<Rightarrow> OAES_RET \<times> bytes option \<times> u64 option" where
  "oaes_sprintf buf buf_len data data_len =
     (case buf_len of None \<Rightarrow> (OAES_RET_ARG2, buf, None) | Some len_in \<Rightarrow>
      let need = data_len * 3 + data_len div of_nat OAES_BLOCK_SIZE + 1 in
      case buf of None \<Rightarrow> (OAES_RET_SUCCESS, None, Some need) | Some b \<Rightarrow>
      if need > len_in then (OAES_RET_BUF, buf, Some need)
      else case data of None \<Rightarrow> (OAES_RET_ARG3, buf, Some need) | Some d \<Rightarrow>
        (OAES_RET_SUCCESS, Some (fold (sprintf_step d) [0..<unat data_len] (str_copy b [])), Some need))"

section \<open>The text of a dump\<close>

definition dump_item :: "bytes \<Rightarrow> nat \<Rightarrow> bytes" where
  "dump_item d i = hex_byte (d ! i) @ (if (i + 1) mod 16 = 0 then [0x0a] else [])"

definition dump_text :: "bytes \<Rightarrow> nat \<Rightarrow> bytes" where
  "dump_text d n = concat (map (dump_item d) [0..<n])"

lemma dump_text_0 [simp]: "dump_text d 0 = []"
  by (simp add: dump_text_def)

lemma dump_text_Suc: "dump_text d (Suc n) = dump_text d n @ dump_item d n"
  by (simp add: dump_text_def)

lemma length_dump_text: "length (dump_text d n) = 3 * n + n div 16"
proof (induction n)
  case (Suc n)
  then show ?case by (simp add: dump_text_Suc dump_item_def hex_byte_def div_Suc)
qed simp

lemma hex_digit_nonzero: "n < 16 \<Longrightarrow> hex_digit n \<noteq> 0"
  by (auto simp: hex_digit_def word_of_nat_eq_0_iff dest!: dvd_imp_le)

lemma unat_byte_nibbles: "unat (b::byte) div 16 < 16" "unat (b::byte) mod 16 < 16"
  using unat_byte [of b] by auto

lemma dump_item_nonzero: "0 \<notin> set (dump_item d i)"
  using hex_digit_nonzero unat_byte_nibbles by (auto simp: dump_item_def hex_byte_def)

lemma dump_text_nonzero: "0 \<notin> set (dump_text d n)"
  using dump_item_nonzero by (induction n) (auto simp: dump_text_Suc)

lemma c_string_at: "0 \<notin> set s \<Longrightarrow> c_string (s @ 0 # t) = s"
  by (induction s) (auto simp: c_string_def)

lemma str_cat_text:
  assumes "0 \<notin> set s" "length u \<le> length t"
  shows "str_cat (s @ 0 # t) u = (s @ u) @ 0 # drop (length u) t"
  using assms by (simp add: str_cat_def c_string_at blit_def)

lemma sprintf_step_text:
  assumes "length (dump_item d n) \<le> length t"
  shows "sprintf_step d n (dump_text d n @ 0 # t) = dump_text d (Suc n) @ 0 # drop (length (dump_item d n)) t"
proof -
  have hb: "0 \<notin> set (dump_text d n @ hex_byte (d ! n))"
    using dump_text_nonzero [of d n] dump_item_nonzero [of d n] by (auto simp: dump_item_def)
  have "length (hex_byte (d ! n)) \<le> length t" using assms by (simp add: dump_item_def)
  then have 1: "str_cat (dump_text d n @ 0 # t) (hex_byte (d ! n))
      = (dump_text d n @ hex_byte (d ! n)) @ 0 # drop (length (hex_byte (d ! n))) t"
    by (intro str_cat_text dump_text_nonzero)
  show ?thesis
  proof (cases "(n + 1) mod 16 = 0")
    case True
    then have "n \<noteq> 0" by (cases n) auto
    moreover have "length [0x0a :: byte] \<le> length (drop (length (hex_byte (d ! n))) t)"
      using assms True by (simp add: dump_item_def)
    note 2 = str_cat_text [OF hb this]
    ultimately show ?thesis
      using True by (simp add: sprintf_step_def OAES_BLOCK_SIZE_def 1 2 dump_text_Suc dump_item_def
          del: append_assoc)
  next
    case False
    then show ?thesis
      using 1 by (simp add: sprintf_step_def OAES_BLOCK_SIZE_def dump_text_Suc dump_item_def)
  qed
qed

lemma sprintf_loop_text:
  assumes "length (dump_text d n) < length b"
  shows "fold (sprintf_step d) [0..<n] (str_copy b [])
    = dump_text d n @ 0 # drop (length (dump_text d n) + 1) b"
  using assms
proof (induction n)
  case 0
  then show ?case by (simp add: str_copy_def blit_def)
next
  case (Suc n)
  then have "length (dump_item d n) \<le> length (drop (length (dump_text d n) + 1) b)"
    by (simp add: dump_text_Suc)
  from sprintf_step_text [OF this] show ?case
    using Suc by (simp add: dump_text_Suc add_ac)
qed

lemma hex_digit_inject: "m < 16 \<Longrightarrow> n < 16 \<Longrightarrow> hex_digit m = hex_digit n \<Longrightarrow> m = n"
  by (auto simp: hex_digit_def word_of_nat_eq_iff take_bit_eq_mod split: if_splits)

lemma hex_byte_inject: "hex_byte a = hex_byte b \<Longrightarrow> a = b"
proof -
  assume "hex_byte a = hex_byte b"
  then have "unat a div 16 = unat b div 16" "unat a mod 16 = unat b mod 16"
    using hex_digit_inject unat_byte_nibbles by (auto simp: hex_byte_def)
  then have "unat a = unat b" by (metis div_mult_mod_eq)
  then show "a = b" by (rule unsigned_word_eqI)
qed

lemma dump_text_inject:
  "dump_text d n = dump_text e n \<Longrightarrow> i < n \<Longrightarrow> d ! i = e ! i"
proof (induction n)
  case (Suc n)
  then have "dump_text d n = dump_text e n \<and> dump_item d n = dump_item e n"
    by (simp add: dump_text_Suc length_dump_text)
  then show ?case using Suc hex_byte_inject by (auto simp: dump_item_def less_Suc_eq split: if_splits)
qed simp

section \<open>Properties\<close>

lemma sprintf_need:
  assumes "3 * unat data_len + unat data_len div 16 + 1 < 2 ^ 64"
  shows "unat (data_len * 3 + data_len div of_nat OAES_BLOCK_SIZE + 1 :: u64)
       = 3 * unat data_len + unat data_len div 16 + 1"
proof -
  have "data_len div 16 = of_nat (unat data_len div 16)"
    using arg_cong [OF unat_div [of data_len 16], of "of_nat :: nat \<Rightarrow> u64"] by simp
  then have "data_len * 3 + data_len div of_nat OAES_BLOCK_SIZE + 1
      = of_nat (3 * unat data_len + unat data_len div 16 + 1)"
    by (simp add: OAES_BLOCK_SIZE_def)
  then show ?thesis using assms by (intro of_nat_inverse) simp_all
qed

text \<open>the dump fits exactly: whenever the length check accepts the buffer, the call succeeds, the
  buffer then holds the text of the dump and its terminator in exactly the announced number of
  bytes, nothing behind them is written, and only the same data has this text.\<close>

lemma sprintf_exact_fit:
  assumes "unat data_len \<le> length d"
    and "3 * unat data_len + unat data_len div 16 + 1 \<le> unat len_in" "unat len_in \<le> length b"
  shows "\<exists>b' need. oaes_sprintf (Some b) (Some len_in) (Some d) data_len
       = (OAES_RET_SUCCESS, Some b', Some need)
     \<and> length b' = length b \<and> length (c_string b') + 1 = unat need
     \<and> drop (unat need) b' = drop (unat need) b \<and> c_string b' = dump_text d (unat data_len)
     \<and> (\<forall>e i. dump_text e (unat data_len) = c_string b' \<and> i < unat data_len \<longrightarrow> e ! i = d ! i)"
proof -
  let ?n = "unat data_len" and ?need = "data_len * 3 + data_len div of_nat OAES_BLOCK_SIZE + 1"
  let ?b = "dump_text d ?n @ 0 # drop (length (dump_text d ?n) + 1) b"
  have "unat len_in < 2 ^ 64" using unsigned_less [of len_in, where ?'a = nat] by simp
  then have need: "unat ?need = 3 * ?n + ?n div 16 + 1" using assms(2) by (intro sprintf_need) linarith
  have len: "length (dump_text d ?n) < length b" using assms by (simp add: length_dump_text)
  have "\<not> len_in < ?need" using need assms(2) by (simp only: word_less_nat_alt not_less)
  then have res: "oaes_sprintf (Some b) (Some len_in) (Some d) data_len
      = (OAES_RET_SUCCESS, Some ?b, Some ?need)"
    using sprintf_loop_text [OF len] by (simp add: oaes_sprintf_def Let_def)
  have cs: "c_string ?b = dump_text d ?n" by (intro c_string_at dump_text_nonzero)
  show ?thesis
  proof (intro exI conjI allI impI)
    show "oaes_sprintf (Some b) (Some len_in) (Some d) data_len
      = (OAES_RET_SUCCESS, Some ?b, Some ?need)" by (rule res)
    show "length ?b = length b" using len by simp
    show "length (c_string ?b) + 1 = unat ?need" unfolding cs need by (simp add: length_dump_text)
    show "drop (unat ?need) ?b = drop (unat ?need) b" unfolding need by (simp add: length_dump_text)
    show "c_string ?b = dump_text d ?n" by (rule cs)
    show "e ! i = d ! i" if "dump_text e ?n = c_string ?b \<and> i < ?n" for e i
      using that dump_text_inject unfolding cs by blast
  qed
qed

lemma sprintf_exact_fit_witness:
  "\<exists>b' need. oaes_sprintf (Some (replicate 8 0xff)) (Some 8) (Some [0xde, 0xad]) 2
       = (OAES_RET_SUCCESS, Some b', Some need)
     \<and> length b' = 8 \<and> length (c_string b') + 1 = unat need \<and> c_string b' = dump_text [0xde, 0xad] 2"
proof -
  have "unat (2::u64) \<le> length [0xde, 0xad :: byte]"
    "3 * unat (2::u64) + unat (2::u64) div 16 + 1 \<le> unat (8::u64)"
    "unat (8::u64) \<le> length (replicate 8 (0xff :: byte))" by simp_all
  from sprintf_exact_fit [OF this] show ?thesis by auto
qed

end
