(* ===== verification/Aesb.thy ===== *)
theory Aesb
  imports Oaes_Block
begin

text \<open>
  \<^verbatim>\<open>libcryptonote/crypto/aesb.c\<close>: the AES round CryptoNight runs, with four tables of 256 words that
  combine substitution and column mixing.  The state is four 32-bit words read from memory in
  little-endian order.  The macros \<open>f2\<close>, \<open>u0\<close> ... \<open>u3\<close>, \<open>fwd_var\<close>, \<open>fwd_rnd\<close> and \<open>four_tables\<close> are
  definitions with their names.

  Shown: a table round is the byte-wise round of \<open>oaes_lib.c\<close>, and the ten-round function is the
  ten rounds of its pseudo-encryption.
\<close>

unbundle bit_operations_syntax

section \<open>Tables\<close>

definition WPOLY :: u32 where
  "WPOLY = 0x011b"

definition sb_data :: "(u32 \<Rightarrow> u32) \<Rightarrow> u32 list" where
  "sb_data w = map w [
    0x63, 0x7c, 0x77, 0x7b, 0xf2, 0x6b, 0x6f, 0xc5, 0x30, 0x01, 0x67, 0x2b, 0xfe, 0xd7, 0xab, 0x76,
    0xca, 0x82, 0xc9, 0x7d, 0xfa, 0x59, 0x47, 0xf0, 0xad, 0xd4, 0xa2, 0xaf, 0x9c, 0xa4, 0x72, 0xc0,
    0xb7, 0xfd, 0x93, 0x26, 0x36, 0x3f, 0xf7, 0xcc, 0x34, 0xa5, 0xe5, 0xf1, 0x71, 0xd8, 0x31, 0x15,
    0x04, 0xc7, 0x23, 0xc3, 0x18, 0x96, 0x05, 0x9a, 0x07, 0x12, 0x80, 0xe2, 0xeb, 0x27, 0xb2, 0x75,
    0x09, 0x83, 0x2c, 0x1a, 0x1b, 0x6e, 0x5a, 0xa0, 0x52, 0x3b, 0xd6, 0xb3, 0x29, 0xe3, 0x2f, 0x84,
    0x53, 0xd1, 0x00, 0xed, 0x20, 0xfc, 0xb1, 0x5b, 0x6a, 0xcb, 0xbe, 0x39, 0x4a, 0x4c, 0x58, 0xcf,
    0xd0, 0xef, 0xaa, 0xfb, 0x43, 0x4d, 0x33, 0x85, 0x45, 0xf9, 0x02, 0x7f, 0x50, 0x3c, 0x9f, 0xa8,
    0x51, 0xa3, 0x40, 0x8f, 0x92, 0x9d, 0x38, 0xf5, 0xbc, 0xb6, 0xda, 0x21, 0x10, 0xff, 0xf3, 0xd2,
    0xcd, 0x0c, 0x13, 0xec, 0x5f, 0x97, 0x44, 0x17, 0xc4, 0xa7, 0x7e, 0x3d, 0x64, 0x5d, 0x19, 0x73,
    0x60, 0x81, 0x4f, 0xdc, 0x22, 0x2a, 0x90, 0x88, 0x46, 0xee, 0xb8, 0x14, 0xde, 0x5e, 0x0b, 0xdb,
    0xe0, 0x32, 0x3a, 0x0a, 0x49, 0x06, 0x24, 0x5c, 0xc2, 0xd3, 0xac, 0x62, 0x91, 0x95, 0xe4, 0x79,
    0xe7, 0xc8, 0x37, 0x6d, 0x8d, 0xd5, 0x4e, 0xa9, 0x6c, 0x56, 0xf4, 0xea, 0x65, 0x7a, 0xae, 0x08,
    0xba, 0x78, 0x25, 0x2e, 0x1c, 0xa6, 0xb4, 0xc6, 0xe8, 0xdd, 0x74, 0x1f, 0x4b, 0xbd, 0x8b, 0x8a,
    0x70, 0x3e, 0xb5, 0x66, 0x48, 0x03, 0xf6, 0x0e, 0x61, 0x35, 0x57, 0xb9, 0x86, 0xc1, 0x1d, 0x9e,
    0xe1, 0xf8, 0x98, 0x11, 0x69, 0xd9, 0x8e, 0x94, 0x9b, 0x1e, 0x87, 0xe9, 0xce, 0x55, 0x28, 0xdf,
    0x8c, 0xa1, 0x89, 0x0d, 0xbf, 0xe6, 0x42, 0x68, 0x41, 0x99, 0x2d, 0x0f, 0xb0, 0x54, 0xbb, 0x16]"

definition bytes2word :: "u32 \<Rightarrow> u32 \<Rightarrow> u32 \<Rightarrow> u32 \<Rightarrow> u32" where
  "bytes2word b0 b1 b2 b3 = (push_bit 24 b3 OR push_bit 16 b2 OR push_bit 8 b1 OR b0)"

definition f2 :: "u32 \<Rightarrow> u32" where
  "f2 x = push_bit 1 x XOR ((drop_bit 7 x AND 1) * WPOLY)"

definition f3 :: "u32 \<Rightarrow> u32" where
  "f3 x = f2 x XOR x"

definition u0 :: "u32 \<Rightarrow> u32" where "u0 p = bytes2word (f2 p) p p (f3 p)"
definition u1 :: "u32 \<Rightarrow> u32" where "u1 p = bytes2word (f3 p) (f2 p) p p"
definition u2 :: "u32 \<Rightarrow> u32" where "u2 p = bytes2word p (f3 p) (f2 p) p"
definition u3 :: "u32 \<Rightarrow> u32" where "u3 p = bytes2word p p (f3 p) (f2 p)"

definition t_fn :: "u32 list list" where
  "t_fn = [sb_data u0, sb_data u1, sb_data u2, sb_data u3]"

section \<open>Rounds\<close>

definition bval :: "u32 \<Rightarrow> nat \<Rightarrow> u32" where
  "bval x n = drop_bit (8 * n) x AND 0xff"

definition fwd_var :: "u32 list \<Rightarrow> nat \<Rightarrow> nat \<Rightarrow> u32" where
  "fwd_var x r c =
     (if r = 0 then (if c = 0 then x ! 0 else if c = 1 then x ! 1 else if c = 2 then x ! 2 else x ! 3)
      else if r = 1 then (if c = 0 then x ! 1 else if c = 1 then x ! 2 else if c = 2 then x ! 3 else x ! 0)
      else if r = 2 then (if c = 0 then x ! 2 else if c = 1 then x ! 3 else if c = 2 then x ! 0 else x ! 1)
      else (if c = 0 then x ! 3 else if c = 1 then x ! 0 else if c = 2 then x ! 1 else x ! 2))"

definition four_tables :: "u32 list \<Rightarrow> nat \<Rightarrow> u32" where
  "four_tables x c =
     t_fn ! 0 ! unat (bval (fwd_var x 0 c) 0) XOR t_fn ! 1 ! unat (bval (fwd_var x 1 c) 1)
     XOR t_fn ! 2 ! unat (bval (fwd_var x 2 c) 2) XOR t_fn ! 3 ! unat (bval (fwd_var x 3 c) 3)"

definition fwd_rnd :: "u32 list \<Rightarrow> u32 list \<Rightarrow> nat \<Rightarrow> u32" where
  "fwd_rnd x k c = k ! c XOR four_tables x c"

text \<open>The macro \<open>round\<close>: the four words of \<open>y\<close> from \<open>x\<close> and the key words \<open>k\<close>.\<close>

definition aesb_round :: "u32 list \<Rightarrow> u32 list \<Rightarrow> u32 list" where
  "aesb_round x k = [fwd_rnd x k 0, fwd_rnd x k 1, fwd_rnd x k 2, fwd_rnd x k 3]"

definition state_in :: "bytes \<Rightarrow> u32 list" where
  "state_in bs = words_of 4 4 bs"

definition state_out :: "u32 list \<Rightarrow> bytes" where
  "state_out ws = bytes_of 4 ws"

definition key_words :: "bytes \<Rightarrow> nat \<Rightarrow> u32 list" where
  "key_words expandedKey n = words_of 4 4 (drop (16 * n) expandedKey)"

definition aesb_single_round :: "bytes \<Rightarrow> bytes \<Rightarrow> bytes" where
  "aesb_single_round i expandedKey = state_out (aesb_round (state_in i) (key_words expandedKey 0))"

definition aesb_pseudo_round :: "bytes \<Rightarrow> bytes \<Rightarrow> bytes" where
  "aesb_pseudo_round i expandedKey =
     (let b0 = state_in i;
          b1 = aesb_round b0 (key_words expandedKey 0);
          b0 = aesb_round b1 (key_words expandedKey 1);
          b1 = aesb_round b0 (key_words expandedKey 2);
          b0 = aesb_round b1 (key_words expandedKey 3);
          b1 = aesb_round b0 (key_words expandedKey 4);
          b0 = aesb_round b1 (key_words expandedKey 5);
          b1 = aesb_round b0 (key_words expandedKey 6);
          b0 = aesb_round b1 (key_words expandedKey 7);
          b1 = aesb_round b0 (key_words expandedKey 8);
          b0 = aesb_round b1 (key_words expandedKey 9)
      in state_out b0)"

section \<open>The tables against the field\<close>

lemma all_bytes_all: "\<forall>x\<in>set all_bytes. P x \<Longrightarrow> P b"
  using nth_all_bytes [of b] unat_byte [of b] by (metis length_all_bytes nth_mem)

lemma f2_xtime: "f2 (ucast b) = ucast (xtime b)"
proof (rule all_bytes_all [where P = "\<lambda>b. f2 (ucast b) = ucast (xtime b)"])
  show "\<forall>x\<in>set all_bytes. f2 (ucast x) = ucast (xtime x)"
    by (simp add: all_bytes_list f2_def xtime_def WPOLY_def)
qed

lemma bytes2word_le_word:
  "bytes2word (ucast a) (ucast b) (ucast c) (ucast d) = le_word [a, b, c, d]"
  by (simp add: bytes2word_def push_bit_or ac_simps or.commute)

lemma sb_data_eq: "sb_data w = map (\<lambda>b. w (ucast b)) (concat oaes_sub_byte_value)"
  by (simp add: sb_data_def oaes_sub_byte_value_def)

lemma t_fn_at:
  "t_fn ! 0 ! unat b = u0 (ucast (sub_byte b))" "t_fn ! 1 ! unat b = u1 (ucast (sub_byte b))"
  "t_fn ! 2 ! unat b = u2 (ucast (sub_byte b))" "t_fn ! 3 ! unat b = u3 (ucast (sub_byte b))"
proof -
  have "unat b < length (concat oaes_sub_byte_value)"
    using unat_byte [of b] length_concat_rows [OF table_shapes(2)] by (simp add: table_shapes)
  then show "t_fn ! 0 ! unat b = u0 (ucast (sub_byte b))" "t_fn ! 1 ! unat b = u1 (ucast (sub_byte b))"
    "t_fn ! 2 ! unat b = u2 (ucast (sub_byte b))" "t_fn ! 3 ! unat b = u3 (ucast (sub_byte b))"
    by (simp_all add: t_fn_def sb_data_eq sub_byte_nth numeral_eq_Suc del: length_concat)
qed

lemma u_le_word:
  "u0 (ucast p) = le_word [xtime p, p, p, xtime p XOR p]"
  "u1 (ucast p) = le_word [xtime p XOR p, xtime p, p, p]"
  "u2 (ucast p) = le_word [p, xtime p XOR p, xtime p, p]"
  "u3 (ucast p) = le_word [p, p, xtime p XOR p, xtime p]"
  by (simp_all add: u0_def u1_def u2_def u3_def f3_def f2_xtime bytes2word_le_word ucast_xor [symmetric] del: le_word.simps)

lemma bval_le_word:
  assumes "length bs = 4" "n < 4"
  shows "unat (bval (le_word bs) n) = unat (bs ! n)"
proof -
  have "bs ! n = ucast (drop_bit (8 * n) (le_word bs :: u32))"
    using assms nth_le_bytes [of n 4 "le_word bs :: u32"] by simp
  moreover have "bval w n = ucast (ucast (drop_bit (8 * n) w) :: byte)" for w
  proof -
    have "bval w n = take_bit 8 (drop_bit (8 * n) w)"
      by (simp add: bval_def take_bit_eq_mask mask_eq_exp_minus_1)
    also have "\<dots> = ucast (ucast (drop_bit (8 * n) w) :: byte)"
      by (rule bit_word_eqI) (auto simp: bit_take_bit_iff bit_ucast_iff)
    finally show ?thesis .
  qed
  ultimately have "bval (le_word bs) n = ucast (bs ! n)" by simp
  moreover have "unat (bs ! n) < 2 ^ LENGTH(32)" using unat_byte [of "bs ! n"] by simp
  ultimately show ?thesis by (simp add: unsigned_ucast_eq take_bit_nat_eq_self)
qed

section \<open>A table round is the byte-wise round\<close>

lemma four_tables_mix:
  assumes "length w0 = 4" "length w1 = 4" "length w2 = 4" "length w3 = 4"
    and "fwd_var x 0 c = le_word w0" "fwd_var x 1 c = le_word w1"
    and "fwd_var x 2 c = le_word w2" "fwd_var x 3 c = le_word w3"
  shows "four_tables x c
    = le_word (mix_cols [sub_byte (w0 ! 0), sub_byte (w1 ! 1), sub_byte (w2 ! 2), sub_byte (w3 ! 3)])"
proof -
  let ?a = "sub_byte (w0 ! 0)" and ?b = "sub_byte (w1 ! 1)" and ?c = "sub_byte (w2 ! 2)"
    and ?d = "sub_byte (w3 ! 3)"
  have "four_tables x c = le_word [xtime ?a, ?a, ?a, xtime ?a XOR ?a] XOR
      le_word [xtime ?b XOR ?b, xtime ?b, ?b, ?b] XOR le_word [?c, xtime ?c XOR ?c, xtime ?c, ?c]
      XOR le_word [?d, ?d, xtime ?d XOR ?d, xtime ?d]"
    using assms by (simp add: four_tables_def bval_le_word t_fn_at u_le_word del: le_word.simps One_nat_def)
  also have "\<dots> = le_word (mix_cols [?a, ?b, ?c, ?d])"
    by (simp add: mix_cols_def oaes_gf_mul_eqs le_word_xor [symmetric] xor_ac del: le_word.simps)
  finally show ?thesis .
qed

lemma bytes_of_4:
  "bytes_of 4 [w0, w1, w2, w3 :: u32] = le_bytes 4 w0 @ le_bytes 4 w1 @ le_bytes 4 w2 @ le_bytes 4 w3"
  by (simp add: bytes_of_def)

lemma words_of_4:
  "words_of 4 4 bs = [le_word (slice bs 0 4), le_word (slice bs 4 4), le_word (slice bs 8 4),
    le_word (slice bs 12 4) :: u32]"
  using list_4 [of "words_of 4 4 bs :: u32 list"] by (simp add: nth_words_of del: words_of.simps)

lemma slice_take: "off + n \<le> m \<Longrightarrow> slice (take m xs) off n = slice xs off n"
  by (simp add: slice_def drop_take min_def)

lemma aesb_round_bytes:
  assumes "length b = 16" "length k = 16"
  shows "bytes_of 4 (aesb_round (words_of 4 4 b) (words_of 4 4 k)) = encryption_round_bytes k b"
proof -
  let ?s = "shift_rows (map sub_byte b)"
  let ?x = "words_of 4 4 b :: u32 list"
  have col: "four_tables ?x c = le_word (mix_cols (slice ?s (4 * c) 4))" if "c < 4" for c
  proof -
    have "c = 0 \<or> c = 1 \<or> c = 2 \<or> c = 3" using that by auto
    then show ?thesis
      using four_tables_mix [of "slice b 0 4" "slice b 4 4" "slice b 8 4" "slice b 12 4" ?x c]
        four_tables_mix [of "slice b 4 4" "slice b 8 4" "slice b 12 4" "slice b 0 4" ?x c]
        four_tables_mix [of "slice b 8 4" "slice b 12 4" "slice b 0 4" "slice b 4 4" ?x c]
        four_tables_mix [of "slice b 12 4" "slice b 0 4" "slice b 4 4" "slice b 8 4" ?x c] assms
      by (elim disjE) (simp_all add: words_of_4 fwd_var_def shift_rows_def slice_def del: le_word.simps)
  qed
  have x: "le_bytes 4 (le_word kw XOR le_word v :: u32) = xor_bytes v kw"
    if "length kw = 4" "length v = 4" for kw v
    using that by (simp add: le_bytes_xor xor_bytes_commute)
  have k: "k = slice k 0 4 @ slice k 4 4 @ slice k 8 4 @ slice k 12 4" by (rule block_columns) fact
  have "encryption_round_bytes k b = xor_bytes (mix_cols (slice ?s 0 4) @ mix_cols (slice ?s 4 4)
      @ mix_cols (slice ?s 8 4) @ mix_cols (slice ?s 12 4))
      (slice k 0 4 @ slice k 4 4 @ slice k 8 4 @ slice k 12 4)"
    using k assms by (simp add: encryption_round_bytes_def on_columns_eq OAES_BLOCK_SIZE_def)
  also have "\<dots> = bytes_of 4 (aesb_round ?x (words_of 4 4 k))"
    using assms col [of 0] col [of 1] col [of 2] col [of 3]
    by (simp add: aesb_round_def fwd_rnd_def words_of_4 [of k] bytes_of_4 x xor_bytes_append del: le_word.simps)
  finally show ?thesis by simp
qed

definition er :: "bytes \<Rightarrow> nat \<Rightarrow> bytes \<Rightarrow> bytes" where
  "er ed i b = encryption_round_bytes (round_key ed i) b"

lemma er_drop: "encryption_round_bytes (drop (16 * i) ed) b = er ed i b"
  by (simp add: er_def encryption_round_bytes_def round_key_def slice_def OAES_BLOCK_SIZE_def mult.commute)

lemma upt_10: "[0..<10] = [0, 1, 2, 3, 4, 5, 6, 7, 8, 9]"
  by code_simp

lemma fold_er:
  "fold (\<lambda>i b. snd (oaes_encryption_round (Some (drop (i * 4 * 4) ed)) b)) is (Some b) = Some (fold (er ed) is b)"
  by (induction "is" arbitrary: b) (simp_all add: oaes_encryption_round_def er_drop)

lemma length_er: "16 * i + 16 \<le> length ed \<Longrightarrow> length (er ed i b) = 16"
  by (simp add: er_def encryption_round_bytes_def round_key_def length_on_columns OAES_BLOCK_SIZE_def)

lemma aesb_round_step:
  assumes "length b = 16" "16 * i + 16 \<le> length ed"
  shows "aesb_round (words_of 4 4 b) (key_words ed i) = words_of 4 4 (er ed i b)"
proof -
  have k: "key_words ed i = words_of 4 4 (round_key ed i)"
    by (simp add: key_words_def words_of_4 round_key_def slice_take slice_def drop_take)
  have "length (round_key ed i) = 16" using assms by (simp add: round_key_def)
  then have "bytes_of 4 (aesb_round (words_of 4 4 b) (key_words ed i)) = er ed i b"
    using aesb_round_bytes [OF assms(1)] by (simp add: er_def k)
  then have "words_of 4 4 (er ed i b) = words_of 4 4 (bytes_of 4 (aesb_round (words_of 4 4 b) (key_words ed i)))"
    by simp
  also have "\<dots> = aesb_round (words_of 4 4 b) (key_words ed i)"
    by (rule words_of_bytes_of) (simp_all add: aesb_round_def)
  finally show ?thesis by simp
qed

lemma aesb_single_round_bytes:
  assumes "length b = 16" "16 \<le> length key"
  shows "aesb_single_round b key = encryption_round_bytes (take 16 key) b"
  using assms aesb_round_bytes [of b "take 16 key"]
  by (simp add: aesb_single_round_def state_in_def state_out_def key_words_def words_of_4 slice_take)

lemma aesb_pseudo_round_er:
  assumes "length b = 16" "160 \<le> length ed"
  shows "aesb_pseudo_round b ed
    = er ed 9 (er ed 8 (er ed 7 (er ed 6 (er ed 5 (er ed 4 (er ed 3 (er ed 2 (er ed 1 (er ed 0 b)))))))))"
  using assms
  by (simp add: aesb_pseudo_round_def Let_def state_in_def state_out_def aesb_round_step length_er)

lemma length_aesb_pseudo_round:
  "length b = 16 \<Longrightarrow> 160 \<le> length ed \<Longrightarrow> length (aesb_pseudo_round b ed) = 16"
  by (simp add: aesb_pseudo_round_er length_er)

section \<open>Properties\<close>

text \<open>The table-driven round computes the same 16 bytes as the byte-wise round of \<open>oaes_lib.c\<close>
  (substitution, row shift, column mixing, key addition), for every block and round key.\<close>

lemma aesb_single_round_is_encryption_round:
  assumes "length b = 16" "16 \<le> length key"
  shows "oaes_encryption_round (Some key) (Some b) = (OAES_RET_SUCCESS, Some (aesb_single_round b key))"
  using aesb_single_round_bytes [OF assms]
  by (simp add: oaes_encryption_round_def encryption_round_bytes_def OAES_BLOCK_SIZE_def)

lemma aesb_single_round_is_encryption_round_witness:
  "oaes_encryption_round (Some key_128) (Some (replicate 16 0x11))
     = (OAES_RET_SUCCESS, Some (aesb_single_round (replicate 16 0x11) key_128))"
  using aesb_single_round_is_encryption_round [of "replicate 16 0x11" key_128] by simp

text \<open>C25: with the expanded key of a well-formed context, \<open>aesb_pseudo_round\<close> gives the block that
  \<open>oaes_pseudo_encrypt_ecb\<close> gives: the table implementation and the byte-wise one agree over all
  ten rounds.\<close>

lemma aesb_pseudo_round_is_pseudo_encrypt:
  assumes "ctx_ok c" "ctx_key c = Some k" "k_exp_data k = Some ed" "length b = 16"
  shows "oaes_pseudo_encrypt_ecb (Some c) (Some b) = (OAES_RET_SUCCESS, Some (aesb_pseudo_round b ed))"
proof -
  obtain d where d: "k = key_of d" "length d \<in> key_lengths"
    using assms(1,2) by (auto simp: ctx_ok_def key_ok_iff)
  have ed: "length ed = 16 * (length d div 4 + 7)"
    using assms(3) d by (auto simp: length_fips_key_schedule)
  then have long: "160 \<le> length ed" using d(2) by (auto simp: key_lengths_iff)
  have "fold (\<lambda>i b. snd (oaes_encryption_round (Some (drop (i * 4 * 4) ed)) b)) [0..<10] (Some b)
      = Some (er ed 9 (er ed 8 (er ed 7 (er ed 6 (er ed 5 (er ed 4 (er ed 3 (er ed 2 (er ed 1 (er ed 0 b))))))))))"
    unfolding fold_er upt_10 by simp
  also have "\<dots> = Some (aesb_pseudo_round b ed)"
    using aesb_pseudo_round_er [OF assms(4) long] by simp
  finally show ?thesis
    using assms d by (simp add: oaes_pseudo_encrypt_ecb_def OAES_RKEY_LEN_def OAES_COL_LEN_def del: upt_rec_numeral)
qed

lemma aesb_pseudo_round_is_pseudo_encrypt_witness:
  "oaes_pseudo_encrypt_ecb (Some (ctx_with key_128)) (Some (replicate 16 0x11))
     = (OAES_RET_SUCCESS, Some (aesb_pseudo_round (replicate 16 0x11) (fips_key_schedule key_128)))"
  using aesb_pseudo_round_is_pseudo_encrypt
    [of "ctx_with key_128" "key_of key_128" "fips_key_schedule key_128" "replicate 16 0x11"]
  by (simp add: ctx_with_ok) (simp add: ctx_with_def)

end
