(* ===== verification/Int_Util.thy ===== *)
theory Int_Util
  imports Prelude
begin

text \<open>
  \<^verbatim>\<open>libcryptonote/common/int-util.h\<close>: the 128-bit product and quotient built from 64-bit
  arithmetic, rotations and byte swaps.  A result returned through a pointer is a component of the
  result tuple; the assertion in \<open>mul128\<close> makes its result an option.

  Shown: \<open>mul128\<close> is the exact product and its assertion never fails, \<open>div128_32\<close> is exact long
  division, the byte swaps reverse the bytes in memory.
\<close>

unbundle bit_operations_syntax

section \<open>Operations\<close>

text \<open>The shift counts are masked: \<open>r & 31\<close> and \<open>-r & 31\<close>, with \<open>r\<close> a non-negative \<open>int\<close>.\<close>

definition rol32 :: "u32 \<Rightarrow> nat \<Rightarrow> u32" where
  "rol32 x r = push_bit (r mod 32) x OR drop_bit ((32 - r mod 32) mod 32) x"

definition rol64 :: "u64 \<Rightarrow> nat \<Rightarrow> u64" where
  "rol64 x r = push_bit (r mod 64) x OR drop_bit ((64 - r mod 64) mod 64) x"

definition hi_dword :: "u64 \<Rightarrow> u64" where
  "hi_dword val = drop_bit 32 val"

definition lo_dword :: "u64 \<Rightarrow> u64" where
  "lo_dword val = val AND 0xFFFFFFFF"

text \<open>The low word and \<open>*product_hi\<close>; \<open>None\<close> when the assertion fails.\<close>

definition mul128 :: "u64 \<Rightarrow> u64 \<Rightarrow> (u64 \<times> u64) option" where
  "mul128 multiplier multiplicand =
     (let a = hi_dword multiplier;
          b = lo_dword multiplier;
          c = hi_dword multiplicand;
          d = lo_dword multiplicand;
          ac = a * c;
          ad = a * d;
          bc = b * c;
          bd = b * d;
          adbc = ad + bc;
          adbc_carry = (if adbc < ad then 1 else 0);
          product_lo = bd + push_bit 32 adbc;
          product_lo_carry = (if product_lo < bd then 1 else 0);
          product_hi = ac + drop_bit 32 adbc + push_bit 32 adbc_carry + product_lo_carry
      in if ac \<le> product_hi then Some (product_lo, product_hi) else None)"

text \<open>Quotient and \<open>*remainder\<close>.\<close>

definition div_with_reminder :: "u64 \<Rightarrow> u32 \<Rightarrow> u32 \<Rightarrow> u64 \<times> u32" where
  "div_with_reminder dividend divisor remainder =
     (let dividend1 = dividend OR push_bit 32 (ucast remainder)
      in (dividend1 div ucast divisor, ucast (dividend1 mod ucast divisor)))"

text \<open>The remainder, \<open>*quotient_hi\<close> and \<open>*quotient_lo\<close>.\<close>

definition div128_32 :: "u64 \<Rightarrow> u64 \<Rightarrow> u32 \<Rightarrow> u32 \<times> u64 \<times> u64" where
  "div128_32 dividend_hi dividend_lo divisor =
     (let (q3, r3) = div_with_reminder (hi_dword dividend_hi) divisor 0;
          (q2, r2) = div_with_reminder (lo_dword dividend_hi) divisor r3;
          (q1, r1) = div_with_reminder (hi_dword dividend_lo) divisor r2;
          (q0, r0) = div_with_reminder (lo_dword dividend_lo) divisor r1
      in (r0, push_bit 32 q3 OR q2, push_bit 32 q1 OR q0))"

definition swap32 :: "u32 \<Rightarrow> u32" where
  "swap32 x =
     (let x1 = push_bit 8 (x AND 0x00ff00ff) OR drop_bit 8 (x AND 0xff00ff00)
      in push_bit 16 x1 OR drop_bit 16 x1)"

definition swap64 :: "u64 \<Rightarrow> u64" where
  "swap64 x =
     (let x1 = push_bit 8 (x AND 0x00ff00ff00ff00ff) OR drop_bit 8 (x AND 0xff00ff00ff00ff00);
          x2 = push_bit 16 (x1 AND 0x0000ffff0000ffff) OR drop_bit 16 (x1 AND 0xffff0000ffff0000)
      in push_bit 32 x2 OR drop_bit 32 x2)"

text \<open>The loops over \<open>n\<close> words of an array; the rest of the destination is kept.\<close>

definition mem_inplace_swap32 :: "bytes \<Rightarrow> nat \<Rightarrow> bytes" where
  "mem_inplace_swap32 mem n =
     fold (\<lambda>i m. blit m (4 * i) (le_bytes 4 (swap32 (le_word (slice m (4 * i) 4))))) [0..<n] mem"

definition memcpy_swap32 :: "bytes \<Rightarrow> bytes \<Rightarrow> nat \<Rightarrow> bytes" where
  "memcpy_swap32 dst src n =
     fold (\<lambda>i m. blit m (4 * i) (le_bytes 4 (swap32 (le_word (slice src (4 * i) 4))))) [0..<n] dst"

definition mem_inplace_swap64 :: "bytes \<Rightarrow> nat \<Rightarrow> bytes" where
  "mem_inplace_swap64 mem n =
     fold (\<lambda>i m. blit m (8 * i) (le_bytes 8 (swap64 (le_word (slice m (8 * i) 8))))) [0..<n] mem"

definition memcpy_swap64 :: "bytes \<Rightarrow> bytes \<Rightarrow> nat \<Rightarrow> bytes" where
  "memcpy_swap64 dst src n =
     fold (\<lambda>i m. blit m (8 * i) (le_bytes 8 (swap64 (le_word (slice src (8 * i) 8))))) [0..<n] dst"

section \<open>Halves and carries\<close>

lemma unat_u64_less: "unat (x::u64) < 2 ^ 64"
  using unsigned_less [of x, where ?'a = nat] by simp

lemma unat_hi_dword: "unat (hi_dword x) = unat x div 2 ^ 32"
  by (simp add: hi_dword_def drop_bit_eq_div unat_div)

lemma lo_dword_take_bit: "lo_dword x = take_bit 32 x"
  by (simp add: lo_dword_def take_bit_eq_mask mask_eq_exp_minus_1)

lemma unat_lo_dword: "unat (lo_dword x) = unat x mod 2 ^ 32"
  by (simp add: lo_dword_take_bit take_bit_eq_mod unat_mod)

lemma dword_less: "unat (hi_dword x) < 2 ^ 32" "unat (lo_dword x) < 2 ^ 32"
  using unat_u64_less [of x] by (simp_all add: unat_hi_dword unat_lo_dword less_mult_imp_div_less)

lemma dwords_sum: "unat x = 2 ^ 32 * unat (hi_dword x) + unat (lo_dword x)"
  by (simp only: unat_hi_dword unat_lo_dword mult_div_mod_eq)

lemma unat_add_carry: "unat x + unat y = unat (x + y :: u64) + (if x + y < x then 2 ^ 64 else 0)"
proof (cases "unat x + unat y < 2 ^ 64")
  case True
  then have "unat (x + y) = unat x + unat y" by (simp add: unat_word_ariths)
  then show ?thesis by (simp add: word_less_nat_alt)
next
  case False
  then have "(unat x + unat y) mod 2 ^ 64 = unat x + unat y - 2 ^ 64"
    using unat_u64_less [of x] unat_u64_less [of y] by (simp add: mod_if)
  then have "unat (x + y) = unat x + unat y - 2 ^ 64" by (simp add: unat_word_ariths)
  then show ?thesis using False unat_u64_less [of y] by (simp add: word_less_nat_alt)
qed

lemma unat_mul_dword:
  assumes "unat x < 2 ^ 32" "unat y < 2 ^ 32"
  shows "unat (x * y :: u64) = unat x * unat y"
proof -
  have "unat x * unat y < 2 ^ 32 * 2 ^ 32" using assms by (intro mult_strict_mono) simp_all
  then show ?thesis by (simp add: unat_word_ariths)
qed

lemma unat_push_bit_32: "unat (push_bit 32 (x::u64)) = 2 ^ 32 * (unat x mod 2 ^ 32)"
proof -
  have "unat (push_bit 32 x) = (unat x * 2 ^ 32) mod 2 ^ 64"
    by (simp add: push_bit_eq_mult unat_word_ariths)
  also have "\<dots> = (2 ^ 32 * unat x) mod (2 ^ 32 * 2 ^ 32)" by (simp add: mult.commute)
  finally show ?thesis by (simp only: mult_mod_right)
qed


section \<open>The product\<close>

lemma mul128_exact:
  "\<exists>lo hi. mul128 x y = Some (lo, hi) \<and> unat hi * 2 ^ 64 + unat lo = unat x * unat y"
proof -
  define a b c d where "a = hi_dword x" and "b = lo_dword x" and "c = hi_dword y" and "d = lo_dword y"
  define adbc where "adbc = a * d + b * c"
  define k where "k = (if adbc < a * d then 1 else 0 :: u64)"
  define lo where "lo = b * d + push_bit 32 adbc"
  define l where "l = (if lo < b * d then 1 else 0 :: u64)"
  define hi where "hi = a * c + drop_bit 32 adbc + push_bit 32 k + l"
  have p: "unat (a * c) = unat a * unat c" "unat (a * d) = unat a * unat d"
    "unat (b * c) = unat b * unat c" "unat (b * d) = unat b * unat d"
    unfolding a_def b_def c_def d_def by (intro unat_mul_dword dword_less)+
  have k: "unat a * unat d + unat b * unat c = unat adbc + 2 ^ 64 * unat k"
    using unat_add_carry [of "a * d" "b * c"] p by (simp add: adbc_def k_def)
  have l: "unat b * unat d + 2 ^ 32 * (unat adbc mod 2 ^ 32) = unat lo + 2 ^ 64 * unat l"
    using unat_add_carry [of "b * d" "push_bit 32 adbc"] p unat_push_bit_32 [of adbc]
    by (simp add: lo_def l_def)
  define H where "H = unat a * unat c + unat adbc div 2 ^ 32 + 2 ^ 32 * unat k + unat l"
  have "unat x * unat y = (2 ^ 32 * unat a + unat b) * (2 ^ 32 * unat c + unat d)"
    using dwords_sum [of x] dwords_sum [of y] by (simp only: a_def b_def c_def d_def)
  also have "\<dots> = 2 ^ 64 * (unat a * unat c) + 2 ^ 32 * (unat a * unat d + unat b * unat c) + unat b * unat d"
    by (simp add: algebra_simps)
  also have "\<dots> = H * 2 ^ 64 + unat lo"
  proof -
    obtain q r where qr: "unat adbc div 2 ^ 32 = q" "unat adbc mod 2 ^ 32 = r" "unat adbc = 2 ^ 32 * q + r"
      by (metis mult_div_mod_eq)
    show ?thesis using l unfolding H_def k qr(1,2) unfolding qr(3) by simp
  qed
  finally have xy: "H * 2 ^ 64 + unat lo = unat x * unat y" by simp
  have "unat x * unat y < 2 ^ 64 * 2 ^ 64"
    using unat_u64_less [of x] unat_u64_less [of y] by (intro mult_strict_mono) simp_all
  then have H: "H < 2 ^ 64" using xy by simp
  have "of_nat H = (of_nat (unat (a * c)) + of_nat (unat (hi_dword adbc)) + 2 ^ 32 * k + l :: u64)"
    unfolding H_def p unat_hi_dword by simp
  also have "\<dots> = hi" by (simp add: hi_def hi_dword_def push_bit_eq_mult mult.commute)
  finally have hi: "unat hi = H" using H by (intro of_nat_inverse) simp_all
  then have "a * c \<le> hi" using p by (simp add: word_le_nat_alt H_def)
  then have "mul128 x y = Some (lo, hi)"
    by (simp add: mul128_def Let_def a_def b_def c_def d_def adbc_def k_def lo_def l_def hi_def)
  then show ?thesis using xy hi by auto
qed


section \<open>The quotient\<close>

lemma take_bit_32_id: "unat (x::u64) < 2 ^ 32 \<Longrightarrow> take_bit 32 x = x"
  by (simp add: word_unat_eq_iff unsigned_take_bit_eq take_bit_nat_eq_self)

lemma unat_or_push_32:
  assumes "unat (x::u64) < 2 ^ 32"
  shows "unat (x OR push_bit 32 (ucast (r::u32))) = 2 ^ 32 * unat r + unat x"
proof -
  have x: "take_bit 32 x = x" using assms by (rule take_bit_32_id)
  have "x AND push_bit 32 (ucast r) = 0"
  proof (rule bit_word_eqI)
    fix n assume "n < LENGTH(64)"
    have "\<not> bit x n" if "32 \<le> n" using that x by (metis bit_take_bit_iff not_less)
    then show "bit (x AND push_bit 32 (ucast r)) n = bit (0::u64) n"
      by (auto simp: bit_and_iff bit_push_bit_iff)
  qed
  then have "x OR push_bit 32 (ucast r) = x + push_bit 32 (ucast r)"
    by (simp add: disjunctive_add_eq_or)
  moreover have ur: "unat r < 2 ^ 32" using unsigned_less [of r, where ?'a = nat] by simp
  have "unat (push_bit 32 (ucast r :: u64)) = 2 ^ 32 * unat r"
    using ur by (simp add: unat_push_bit_32 unsigned_ucast_eq take_bit_nat_eq_self)
  moreover have "unat x + 2 ^ 32 * unat r < 2 ^ 64" using assms ur by simp
  ultimately show ?thesis by (simp add: unat_word_ariths)
qed

lemma div_with_reminder_exact:
  assumes "unat dividend < 2 ^ 32" "unat r < unat divisor"
  shows "case div_with_reminder dividend divisor r of (q, r') \<Rightarrow>
    2 ^ 32 * unat r + unat dividend = unat divisor * unat q + unat r' \<and> unat r' < unat divisor
    \<and> unat q < 2 ^ 32"
proof -
  let ?n = "dividend OR push_bit 32 (ucast r :: u64)" and ?d = "ucast divisor :: u64"
  have ud: "unat divisor < 2 ^ 32" using unsigned_less [of divisor, where ?'a = nat] by simp
  have d: "unat ?d = unat divisor" using ud by (simp add: unsigned_ucast_eq take_bit_nat_eq_self)
  have n: "unat ?n = 2 ^ 32 * unat r + unat dividend" using assms(1) by (rule unat_or_push_32)
  have m: "unat (?n mod ?d) = unat ?n mod unat divisor" by (simp add: unat_mod d)
  have ml: "unat ?n mod unat divisor < unat divisor" using assms(2) by simp
  then have "unat (ucast (?n mod ?d) :: u32) = unat ?n mod unat divisor"
    using m ud by (simp add: unsigned_ucast_eq take_bit_nat_eq_self)
  moreover have "unat (?n div ?d) = unat ?n div unat divisor" by (simp add: unat_div d)
  moreover have "unat ?n div unat divisor < 2 ^ 32"
  proof -
    have "unat ?n < 2 ^ 32 * (unat r + 1)" using n assms(1) by simp
    also have "\<dots> \<le> 2 ^ 32 * unat divisor" using assms(2) by simp
    finally show ?thesis by (simp add: less_mult_imp_div_less)
  qed
  ultimately show ?thesis
    using n ml by (simp add: div_with_reminder_def Let_def)
qed


lemma unat_push_or_32:
  assumes "unat q < 2 ^ 32" "unat (p::u64) < 2 ^ 32"
  shows "unat (push_bit 32 p OR q) = 2 ^ 32 * unat p + unat q"
proof -
  have "unat (ucast p :: u32) = unat p"
    using assms(2) by (simp add: unsigned_ucast_eq take_bit_nat_eq_self)
  moreover have "ucast (ucast p :: u32) = take_bit 32 p"
    by (rule bit_word_eqI) (auto simp: bit_take_bit_iff bit_ucast_iff)
  then have "ucast (ucast p :: u32) = p" using take_bit_32_id [OF assms(2)] by simp
  ultimately show ?thesis using unat_or_push_32 [OF assms(1), of "ucast p"] by (simp add: or.commute)
qed

lemma div128_32_exact:
  assumes "divisor \<noteq> 0"
  shows "case div128_32 hi lo divisor of (r, qh, ql) \<Rightarrow>
    2 ^ 64 * unat hi + unat lo = unat divisor * (2 ^ 64 * unat qh + unat ql) + unat r
    \<and> unat r < unat divisor"
proof -
  have d: "0 < unat divisor" using assms by (simp add: unat_gt_0)
  obtain q3 r3 where 3: "div_with_reminder (hi_dword hi) divisor 0 = (q3, r3)" by fastforce
  obtain q2 r2 where 2: "div_with_reminder (lo_dword hi) divisor r3 = (q2, r2)" by fastforce
  obtain q1 r1 where 1: "div_with_reminder (hi_dword lo) divisor r2 = (q1, r1)" by fastforce
  obtain q0 r0 where 0: "div_with_reminder (lo_dword lo) divisor r1 = (q0, r0)" by fastforce
  have e3: "unat (hi_dword hi) = unat divisor * unat q3 + unat r3" "unat r3 < unat divisor" "unat q3 < 2 ^ 32"
    using div_with_reminder_exact [OF dword_less(1), of 0 divisor hi] d 3 by simp_all
  have e2: "2 ^ 32 * unat r3 + unat (lo_dword hi) = unat divisor * unat q2 + unat r2"
    "unat r2 < unat divisor" "unat q2 < 2 ^ 32"
    using div_with_reminder_exact [OF dword_less(2) e3(2), of hi] 2 by simp_all
  have e1: "2 ^ 32 * unat r2 + unat (hi_dword lo) = unat divisor * unat q1 + unat r1"
    "unat r1 < unat divisor" "unat q1 < 2 ^ 32"
    using div_with_reminder_exact [OF dword_less(1) e2(2), of lo] 1 by simp_all
  have e0: "2 ^ 32 * unat r1 + unat (lo_dword lo) = unat divisor * unat q0 + unat r0"
    "unat r0 < unat divisor" "unat q0 < 2 ^ 32"
    using div_with_reminder_exact [OF dword_less(2) e1(2), of lo] 0 by simp_all
  have q: "unat (push_bit 32 q3 OR q2) = 2 ^ 32 * unat q3 + unat q2"
    "unat (push_bit 32 q1 OR q0) = 2 ^ 32 * unat q1 + unat q0"
    using unat_push_or_32 e0 e1 e2 e3 by blast+
  have "2 ^ 64 * unat hi + unat lo = 2 ^ 96 * unat (hi_dword hi) + 2 ^ 64 * unat (lo_dword hi)
      + 2 ^ 32 * unat (hi_dword lo) + unat (lo_dword lo)"
    using dwords_sum [of hi] dwords_sum [of lo] by simp
  also have "\<dots> = unat divisor * (2 ^ 64 * (2 ^ 32 * unat q3 + unat q2) + (2 ^ 32 * unat q1 + unat q0)) + unat r0"
  proof -
    define dv where "dv = unat divisor"
    show ?thesis using e3(1) e2(1) e1(1) e0(1) unfolding dv_def [symmetric] by (simp add: algebra_simps)
  qed
  finally show ?thesis using e0(2) by (simp add: div128_32_def 3 2 1 0 q)
qed

section \<open>Byte swaps\<close>

lemma upt_32: "[0..<32] =
    [0, 1, 2, 3, 4, 5, 6, 7, 8, 9, 10, 11, 12, 13, 14, 15, 16, 17, 18, 19, 20, 21, 22, 23, 24,
    25, 26, 27, 28, 29, 30, 31]"
  by code_simp

lemma upt_64: "[0..<64] =
    [0, 1, 2, 3, 4, 5, 6, 7, 8, 9, 10, 11, 12, 13, 14, 15, 16, 17, 18, 19, 20, 21, 22, 23, 24,
    25, 26, 27, 28, 29, 30, 31, 32, 33, 34, 35, 36, 37, 38, 39, 40, 41, 42, 43, 44, 45, 46,
    47, 48, 49, 50, 51, 52, 53, 54, 55, 56, 57, 58, 59, 60, 61, 62, 63]"
  by code_simp

lemma swap32_bits: "\<forall>n\<in>set [0..<32]. bit (swap32 x) n = bit x (8 * (3 - n div 8) + n mod 8)"
  unfolding upt_32
  by (simp add: swap32_def Let_def bit_or_iff bit_push_bit_iff bit_drop_bit_eq bit_and_iff)
    (simp add: numeral_2_eq_2)

lemma swap64_bits: "\<forall>n\<in>set [0..<64]. bit (swap64 x) n = bit x (8 * (7 - n div 8) + n mod 8)"
  unfolding upt_64
  by (simp add: swap64_def Let_def bit_or_iff bit_push_bit_iff bit_drop_bit_eq bit_and_iff)
    (simp add: numeral_2_eq_2)

lemma swap32_rev: "le_bytes 4 (swap32 x) = rev (le_bytes 4 x)"
proof (rule nth_equalityI)
  fix i assume "i < length (le_bytes 4 (swap32 x))"
  then have i: "i < 4" by simp
  show "le_bytes 4 (swap32 x) ! i = rev (le_bytes 4 x) ! i"
  proof (rule bit_word_eqI)
    fix k assume k: "k < LENGTH(8)"
    then have "bit (swap32 x) (8 * i + k) = bit x (8 * (3 - i) + k)"
      using i swap32_bits [of x] by simp
    then show "bit (le_bytes 4 (swap32 x) ! i) k = bit (rev (le_bytes 4 x) ! i) k"
      using i k by (simp add: rev_nth nth_le_bytes bit_ucast_iff bit_drop_bit_eq)
  qed
qed simp

lemma swap64_rev: "le_bytes 8 (swap64 x) = rev (le_bytes 8 x)"
proof (rule nth_equalityI)
  fix i assume "i < length (le_bytes 8 (swap64 x))"
  then have i: "i < 8" by simp
  show "le_bytes 8 (swap64 x) ! i = rev (le_bytes 8 x) ! i"
  proof (rule bit_word_eqI)
    fix k assume k: "k < LENGTH(8)"
    then have "bit (swap64 x) (8 * i + k) = bit x (8 * (7 - i) + k)"
      using i swap64_bits [of x] by simp
    then show "bit (le_bytes 8 (swap64 x) ! i) k = bit (rev (le_bytes 8 x) ! i) k"
      using i k by (simp add: rev_nth nth_le_bytes bit_ucast_iff bit_drop_bit_eq)
  qed
qed simp


section \<open>Arrays of swapped words\<close>

lemma word_loop_copy:
  assumes "\<And>i. i < n \<Longrightarrow> length (f i) = w" "w * n \<le> length dst"
  shows "fold (\<lambda>i m. blit m (w * i) (f i)) [0..<n] dst = concat (map f [0..<n]) @ drop (w * n) dst"
  using assms
proof (induction n)
  case (Suc n)
  have len: "length (concat (map f [0..<n])) = w * n"
  proof -
    have "length (concat (map f [0..<k])) = w * k" if "k \<le> n" for k
      using that Suc.prems(1) by (induction k) auto
    then show ?thesis by simp
  qed
  have IH: "fold (\<lambda>i m. blit m (w * i) (f i)) [0..<n] dst = concat (map f [0..<n]) @ drop (w * n) dst"
    using Suc by simp
  have "blit (concat (map f [0..<n]) @ drop (w * n) dst) (w * n) (f n)
      = concat (map f [0..<n]) @ f n @ drop (w * Suc n) dst"
    using len Suc.prems by (simp add: blit_def add.commute)
  then show ?case by (simp add: IH)
qed simp

lemma word_loop_inplace:
  assumes "\<And>xs. length xs = w \<Longrightarrow> length (g xs) = w" "w * n \<le> length mem"
  shows "fold (\<lambda>i m. blit m (w * i) (g (slice m (w * i) w))) [0..<n] mem
    = fold (\<lambda>i m. blit m (w * i) (g (slice mem (w * i) w))) [0..<n] mem"
  using assms(2)
proof (induction n)
  case (Suc n)
  let ?F = "fold (\<lambda>i m. blit m (w * i) (g (slice mem (w * i) w))) [0..<n] mem"
  have fit: "length (slice mem (w * i) w) = w" if "i < n" for i
  proof -
    have "w * i + w \<le> w * n" using that by (metis Suc_leI mult_Suc_right mult_le_mono2 add.commute)
    then show ?thesis using Suc.prems by simp
  qed
  then have F: "?F = concat (map (\<lambda>i. g (slice mem (w * i) w)) [0..<n]) @ drop (w * n) mem"
    using Suc.prems assms(1) by (intro word_loop_copy) auto
  have "length (concat (map (\<lambda>i. g (slice mem (w * i) w)) [0..<k])) = w * k" if "k \<le> n" for k
    using that fit assms(1) by (induction k) auto
  then have "slice ?F (w * n) w = slice mem (w * n) w"
    unfolding F by (simp add: slice_def)
  then show ?case using Suc by simp
qed simp

lemma reversed_words:
  assumes "w * n \<le> length dst" "w * n \<le> length src"
    and "\<And>xs. length xs = w \<Longrightarrow> g xs = rev xs"
  shows "fold (\<lambda>i m. blit m (w * i) (g (slice src (w * i) w))) [0..<n] dst
     = concat (map (\<lambda>i. rev (slice src (w * i) w)) [0..<n]) @ drop (w * n) dst"
proof -
  have s: "length (slice src (w * i) w) = w" if "i < n" for i
  proof -
    have "w * i + w \<le> w * n" using that by (metis Suc_leI mult_Suc_right mult_le_mono2 add.commute)
    then show ?thesis using assms(2) by simp
  qed
  then show ?thesis
    using assms by (subst word_loop_copy) (auto intro!: arg_cong [of _ _ concat])
qed

section \<open>Properties\<close>

text \<open>C28: \<open>mul128\<close> returns the exact 128-bit product of its operands for all 2^128 pairs of
  arguments, and its assertion never fails.\<close>

lemma mul128_is_product:
  "\<exists>lo hi. mul128 x y = Some (lo, hi) \<and> unat hi * 2 ^ 64 + unat lo = unat x * unat y"
  by (rule mul128_exact)

text \<open>\<open>div128_32\<close> is exact division of a 128-bit number by a non-zero 32-bit one: quotient times
  divisor plus remainder is the dividend and the remainder is smaller than the divisor.\<close>

lemma div128_32_is_division:
  assumes "divisor \<noteq> 0"
  shows "case div128_32 hi lo divisor of (r, qh, ql) \<Rightarrow>
    2 ^ 64 * unat hi + unat lo = unat divisor * (2 ^ 64 * unat qh + unat ql) + unat r
    \<and> unat r < unat divisor"
  using assms by (rule div128_32_exact)

lemma div128_32_is_division_witness:
  "case div128_32 5 17 10 of (r, qh, ql) \<Rightarrow>
    2 ^ 64 * unat (5::u64) + unat (17::u64) = unat (10::u32) * (2 ^ 64 * unat qh + unat ql) + unat r
    \<and> unat r < unat (10::u32)"
  using div128_32_is_division [of 10 5 17] by simp


text \<open>The array swaps reverse the bytes of each of the \<open>n\<close> words, in place or while copying, and
  leave the rest of the destination as it was.\<close>

lemma word_arrays_reversed:
  assumes "8 * n \<le> length mem" "8 * n \<le> length dst"
  shows "mem_inplace_swap32 mem n = concat (map (\<lambda>i. rev (slice mem (4 * i) 4)) [0..<n]) @ drop (4 * n) mem
     \<and> memcpy_swap32 dst mem n = concat (map (\<lambda>i. rev (slice mem (4 * i) 4)) [0..<n]) @ drop (4 * n) dst
     \<and> mem_inplace_swap64 mem n = concat (map (\<lambda>i. rev (slice mem (8 * i) 8)) [0..<n]) @ drop (8 * n) mem
     \<and> memcpy_swap64 dst mem n = concat (map (\<lambda>i. rev (slice mem (8 * i) 8)) [0..<n]) @ drop (8 * n) dst"
proof -
  have 4: "le_bytes 4 (swap32 (le_word xs)) = rev xs" if "length xs = 4" for xs
    using that by (simp add: swap32_rev)
  have 8: "le_bytes 8 (swap64 (le_word xs)) = rev xs" if "length xs = 8" for xs
    using that by (simp add: swap64_rev)
  show ?thesis
    unfolding mem_inplace_swap32_def memcpy_swap32_def mem_inplace_swap64_def memcpy_swap64_def
    using assms
      word_loop_inplace [of 4 "\<lambda>xs. le_bytes 4 (swap32 (le_word xs))" n mem]
      word_loop_inplace [of 8 "\<lambda>xs. le_bytes 8 (swap64 (le_word xs))" n mem]
      reversed_words [of 4 n _ mem "\<lambda>xs. le_bytes 4 (swap32 (le_word xs))"]
      reversed_words [of 8 n _ mem "\<lambda>xs. le_bytes 8 (swap64 (le_word xs))"] 4 8
    by simp
qed

lemma word_arrays_reversed_witness:
  "mem_inplace_swap32 [1, 2, 3, 4, 5, 6, 7, 8, 9] 1 = [4, 3, 2, 1] @ [5, 6, 7, 8, 9]"
  using word_arrays_reversed [of 1 "[1, 2, 3, 4, 5, 6, 7, 8, 9]" "[1, 2, 3, 4, 5, 6, 7, 8]"]
  by (simp add: slice_def)

end
