(* ===== verification/Slow_Hash.thy ===== *)
theory Slow_Hash
  imports Keccak Aesb Oaes_Mode Int_Util
begin

text \<open>
  The CryptoNight hash, portable implementation: the last alternative of
  \<^verbatim>\<open>libcryptonote/crypto/slow-hash.c\<close> and of its copy \<^verbatim>\<open>slow-hash-lite.c\<close>, which has half the
  scratchpad and iterations and no variants.  The size of the scratchpad and the number of
  iterations are arguments, so that one definition serves both files.  The four final hash
  functions are an argument (\<open>extra_hashes\<close>), the uninitialised stack memory that becomes the hash
  state when \<open>prehashed\<close> is set is an argument (\<open>stack\<close>), the C library is the state \<open>libc\<close>.

  A call ends with a hash or with one of the ways the code stops: \<open>_exit(1)\<close>, a null pointer
  dereference after a failed allocation, a write behind the hash state, a failed assertion.

  Shown here: one iteration, with its exchanges of blocks, is the CryptoNight step \<open>cn_step\<close> of the
  specification, its two assertions hold, and every access to the scratchpad is inside it; the whole
  call computes \<open>cryptonight\<close>, or ends in one of the listed ways, on every input and for every
  behaviour of the allocator.
\<close>

unbundle bit_operations_syntax

section \<open>Constants and results\<close>

definition MEMORY :: nat where "MEMORY = 2 ^ 21"
definition ITER :: nat where "ITER = 2 ^ 20"
definition MEMORY_lite :: nat where "MEMORY_lite = 2 ^ 20"
definition ITER_lite :: nat where "ITER_lite = 2 ^ 19"
definition AES_BLOCK_SIZE :: nat where "AES_BLOCK_SIZE = 16"
definition AES_KEY_SIZE :: nat where "AES_KEY_SIZE = 32"
definition INIT_SIZE_BLK :: nat where "INIT_SIZE_BLK = 8"
definition INIT_SIZE_BYTE :: nat where "INIT_SIZE_BYTE = 128"

datatype cn_error = Short_Data | Null_Pointer | Buffer_Overflow | Assertion_Failed

section \<open>Variant 1\<close>

definition variant1_byte :: "byte \<Rightarrow> byte" where
  "variant1_byte tmp =
     (let table = 0x75310 :: u32;
          index = push_bit 1 ((drop_bit 3 tmp AND 6) OR (tmp AND 1))
      in tmp XOR ucast (drop_bit (unat index) table AND 0x30))"

text \<open>The macro applied to the block at offset \<open>p\<close> of the memory.\<close>

definition VARIANT1_1 :: "int \<Rightarrow> nat \<Rightarrow> bytes \<Rightarrow> bytes" where
  "VARIANT1_1 variant p mem =
     (if variant > 0 then mem[p + 11 := variant1_byte (mem ! (p + 11))] else mem)"

definition xor64 :: "bytes \<Rightarrow> bytes \<Rightarrow> bytes" where
  "xor64 left right = xor_bytes (take 8 left) right @ drop 8 left"

definition VARIANT1_2 :: "int \<Rightarrow> bytes \<Rightarrow> bytes \<Rightarrow> bytes" where
  "VARIANT1_2 variant tweak1_2 p = (if variant > 0 then xor64 p tweak1_2 else p)"

definition VARIANT1_CHECK :: "int \<Rightarrow> bytes \<Rightarrow> bool" where
  "VARIANT1_CHECK variant data \<longleftrightarrow> \<not> (variant > 0 \<and> length data < 43)"

text \<open>The tweak is left uninitialised, and never read, without a variant: zeros stand for that.\<close>

definition VARIANT1_PORTABLE_INIT :: "int \<Rightarrow> bytes \<Rightarrow> bytes \<Rightarrow> bytes" where
  "VARIANT1_PORTABLE_INIT variant state data =
     (if variant > 0 then xor64 (slice state 192 8) (slice data 35 8) else replicate 8 0)"

section \<open>Blocks\<close>

definition U64_at :: "bytes \<Rightarrow> nat \<Rightarrow> u64" where
  "U64_at p i = le_word (slice p (8 * i) 8)"

definition e2i :: "bytes \<Rightarrow> nat \<Rightarrow> nat" where
  "e2i a count = unat ((U64_at a 0 div of_nat AES_BLOCK_SIZE) AND (of_nat count - 1))"

definition mul :: "bytes \<Rightarrow> bytes \<Rightarrow> bytes option" where
  "mul a b =
     (case mul128 (U64_at a 0) (U64_at b 0) of
        None \<Rightarrow> None | Some (lo, hi) \<Rightarrow> Some (le_bytes 8 hi @ le_bytes 8 lo))"

definition sum_half_blocks :: "bytes \<Rightarrow> bytes \<Rightarrow> bytes" where
  "sum_half_blocks a b =
     le_bytes 8 (U64_at a 0 + U64_at b 0) @ le_bytes 8 (U64_at a 1 + U64_at b 1)"

definition copy_block :: "bytes \<Rightarrow> nat \<Rightarrow> bytes \<Rightarrow> bytes" where
  "copy_block dst off src = blit dst off (take AES_BLOCK_SIZE src)"

definition swap_blocks :: "bytes \<Rightarrow> bytes \<Rightarrow> bytes \<times> bytes" where
  "swap_blocks a b = (let t = (U64_at a 0, U64_at a 1) in
     (le_bytes 8 (U64_at b 0) @ le_bytes 8 (U64_at b 1), le_bytes 8 (fst t) @ le_bytes 8 (snd t)))"

definition xor_blocks :: "bytes \<Rightarrow> bytes \<Rightarrow> bytes" where
  "xor_blocks a b = xor_bytes a (take AES_BLOCK_SIZE b)"

section \<open>The main loop\<close>

text \<open>One iteration on the blocks \<open>a\<close>, \<open>b\<close> and the scratchpad; \<open>None\<close> for a failed assertion.\<close>

definition portable_iteration ::
  "nat \<Rightarrow> int \<Rightarrow> bytes \<Rightarrow> bytes \<times> bytes \<times> bytes \<Rightarrow> (bytes \<times> bytes \<times> bytes) option" where
  "portable_iteration memory variant tweak1_2 s =
     (case s of (a, b, long_state) \<Rightarrow>
      let j = e2i a (memory div AES_BLOCK_SIZE);
          c = slice long_state (j * AES_BLOCK_SIZE) AES_BLOCK_SIZE;
          c = aesb_single_round c a;
          b = xor_blocks b c;
          (b, c) = swap_blocks b c;
          long_state = copy_block long_state (j * AES_BLOCK_SIZE) c
      in if j \<noteq> e2i a (memory div AES_BLOCK_SIZE) then None else
      let (a, b) = swap_blocks a b;
          long_state = VARIANT1_1 variant (j * AES_BLOCK_SIZE) long_state;
          j = e2i a (memory div AES_BLOCK_SIZE);
          c = slice long_state (j * AES_BLOCK_SIZE) AES_BLOCK_SIZE
      in case mul a c of None \<Rightarrow> None | Some d \<Rightarrow>
      let b = sum_half_blocks b d;
          (b, c) = swap_blocks b c;
          b = xor_blocks b c;
          c = take 8 c @ VARIANT1_2 variant tweak1_2 (drop 8 c);
          long_state = copy_block long_state (j * AES_BLOCK_SIZE) c
      in if j \<noteq> e2i a (memory div AES_BLOCK_SIZE) then None else
      let (a, b) = swap_blocks a b in Some (a, b, long_state))"

primrec portable_loop ::
  "nat \<Rightarrow> nat \<Rightarrow> int \<Rightarrow> bytes \<Rightarrow> bytes \<times> bytes \<times> bytes \<Rightarrow> (bytes \<times> bytes \<times> bytes) option" where
  "portable_loop 0 memory variant tweak1_2 s = Some s"
| "portable_loop (Suc n) memory variant tweak1_2 s =
     (case portable_iteration memory variant tweak1_2 s of
        None \<Rightarrow> None | Some s' \<Rightarrow> portable_loop n memory variant tweak1_2 s')"

section \<open>Filling and reading the scratchpad\<close>

text \<open>The inner loops over the eight blocks of \<open>text\<close>, and the outer loops over the scratchpad.\<close>

definition pseudo_round_text :: "bytes \<Rightarrow> bytes \<Rightarrow> bytes" where
  "pseudo_round_text exp_data text =
     fold (\<lambda>j t. blit t (AES_BLOCK_SIZE * j)
                   (aesb_pseudo_round (slice t (AES_BLOCK_SIZE * j) AES_BLOCK_SIZE) exp_data))
       [0..<INIT_SIZE_BLK] text"

definition fill_scratchpad :: "nat \<Rightarrow> bytes \<Rightarrow> bytes \<Rightarrow> bytes \<Rightarrow> bytes \<times> bytes" where
  "fill_scratchpad memory exp_data text long_state =
     fold (\<lambda>i (t, m). let t' = pseudo_round_text exp_data t in (t', blit m (i * INIT_SIZE_BYTE) t'))
       [0..<memory div INIT_SIZE_BYTE] (text, long_state)"

definition pseudo_round_xor_text :: "bytes \<Rightarrow> bytes \<Rightarrow> bytes \<Rightarrow> bytes" where
  "pseudo_round_xor_text exp_data chunk text =
     fold (\<lambda>j t.
        let x = xor_blocks (slice t (j * AES_BLOCK_SIZE) AES_BLOCK_SIZE)
                  (slice chunk (j * AES_BLOCK_SIZE) AES_BLOCK_SIZE)
        in blit t (AES_BLOCK_SIZE * j) (aesb_pseudo_round x exp_data))
       [0..<INIT_SIZE_BLK] text"

definition read_scratchpad :: "nat \<Rightarrow> bytes \<Rightarrow> bytes \<Rightarrow> bytes \<Rightarrow> bytes" where
  "read_scratchpad memory exp_data long_state text =
     fold (\<lambda>i t. pseudo_round_xor_text exp_data (slice long_state (i * INIT_SIZE_BYTE) INIT_SIZE_BYTE) t)
       [0..<memory div INIT_SIZE_BYTE] text"

section \<open>The hash\<close>

definition initial_state :: "bytes \<Rightarrow> bytes \<Rightarrow> bool \<Rightarrow> cn_error + bytes" where
  "initial_state stack data prehashed =
     (if prehashed
      then (if 200 < length data then Inl Buffer_Overflow else Inr (blit stack 0 data))
      else (case hash_process data of Some (Inr st) \<Rightarrow> Inr st | _ \<Rightarrow> Inl Assertion_Failed))"

text \<open>Import the 32 key bytes at offset \<open>off\<close> of the state and return the expanded key.\<close>

definition import_key ::
  "oaes_ctx option \<Rightarrow> bytes \<Rightarrow> nat \<Rightarrow> libc \<Rightarrow> (oaes_ctx \<times> bytes) option \<times> libc" where
  "import_key aes_ctx state off L =
     (case oaes_key_import_data aes_ctx (Some (slice state off AES_KEY_SIZE)) AES_KEY_SIZE L of
        (_, Some x, L') \<Rightarrow>
          (case ctx_key x of
             None \<Rightarrow> (None, L')
           | Some k \<Rightarrow> (case k_exp_data k of None \<Rightarrow> (None, L') | Some ed \<Rightarrow> (Some (x, ed), L')))
      | (_, None, L') \<Rightarrow> (None, L'))"

definition extra_hash :: "(bytes \<Rightarrow> bytes) list \<Rightarrow> bytes \<Rightarrow> bytes" where
  "extra_hash extra_hashes state = (extra_hashes ! unat (state ! 0 AND 3)) state"

definition portable_slow_hash ::
  "nat \<Rightarrow> nat \<Rightarrow> (bytes \<Rightarrow> bytes) list \<Rightarrow> bytes \<Rightarrow> bytes \<Rightarrow> bytes \<Rightarrow> int \<Rightarrow> bool \<Rightarrow> libc
    \<Rightarrow> (cn_error + bytes) \<times> libc" where
  "portable_slow_hash memory iter extra_hashes stack long_state data variant prehashed L =
     (case initial_state stack data prehashed of Inl e \<Rightarrow> (Inl e, L) | Inr state \<Rightarrow>
      let text = slice state 64 INIT_SIZE_BYTE in
      case oaes_alloc L of (aes_ctx, L1) \<Rightarrow>
      if \<not> VARIANT1_CHECK variant data then (Inl Short_Data, L1) else
      let tweak1_2 = VARIANT1_PORTABLE_INIT variant state data in
      case import_key aes_ctx state 0 L1 of (None, L2) \<Rightarrow> (Inl Null_Pointer, L2) | (Some (x1, ed1), L2) \<Rightarrow>
      let (text1, mem1) = fill_scratchpad memory ed1 text long_state;
          a = xor_bytes (slice state 0 16) (slice state 32 16);
          b = xor_bytes (slice state 16 16) (slice state 48 16) in
      case portable_loop (iter div 2) memory variant tweak1_2 (a, b, mem1) of
        None \<Rightarrow> (Inl Assertion_Failed, L2)
      | Some (a2, b2, mem2) \<Rightarrow>
      (case import_key (Some x1) state 32 L2 of (None, L3) \<Rightarrow> (Inl Null_Pointer, L3) | (Some (x2, ed2), L3) \<Rightarrow>
       let text2 = read_scratchpad memory ed2 mem2 (slice state 64 INIT_SIZE_BYTE);
           state2 = hash_permutation (blit state 64 text2)
       in (Inr (extra_hash extra_hashes state2), snd (snd (oaes_free (Some (Some x2)) L3)))))"

definition cn_slow_hash_portable ::
  "(bytes \<Rightarrow> bytes) list \<Rightarrow> bytes \<Rightarrow> bytes \<Rightarrow> bytes \<Rightarrow> int \<Rightarrow> bool \<Rightarrow> libc \<Rightarrow> (cn_error + bytes) \<times> libc" where
  "cn_slow_hash_portable = portable_slow_hash MEMORY ITER"

text \<open>\<open>cn_slow_hash_lite\<close>: hashes its data first and has neither variants nor tweak.\<close>

definition cn_slow_hash_lite_portable ::
  "(bytes \<Rightarrow> bytes) list \<Rightarrow> bytes \<Rightarrow> bytes \<Rightarrow> bytes \<Rightarrow> libc \<Rightarrow> (cn_error + bytes) \<times> libc" where
  "cn_slow_hash_lite_portable extra_hashes stack long_state data =
     portable_slow_hash MEMORY_lite ITER_lite extra_hashes stack long_state data 0 False"

section \<open>The step of the specification\<close>

text \<open>
  CryptoNight reads block \<open>j\<close> of the scratchpad, encrypts it with the key \<open>a\<close>, writes the sum with
  \<open>b\<close> back, multiplies the result with a second block, adds the product to \<open>a\<close> and exchanges.
\<close>

definition cn_index :: "nat \<Rightarrow> bytes \<Rightarrow> nat" where
  "cn_index memory a = 16 * (unat (U64_at a 0) div 16 mod (memory div 16))"

definition cn_mul :: "bytes \<Rightarrow> bytes \<Rightarrow> bytes" where
  "cn_mul a b = (let n = unat (U64_at a 0) * unat (U64_at b 0)
     in le_bytes 8 (of_nat (n div 2 ^ 64) :: u64) @ le_bytes 8 (of_nat n :: u64))"

definition cn_v1 :: "int \<Rightarrow> bytes \<Rightarrow> bytes" where
  "cn_v1 variant c = (if variant > 0 then c[11 := variant1_byte (c ! 11)] else c)"

definition cn_v2 :: "int \<Rightarrow> bytes \<Rightarrow> bytes \<Rightarrow> bytes" where
  "cn_v2 variant tweak c = (if variant > 0 then take 8 c @ xor_bytes (drop 8 c) tweak else c)"

definition cn_step :: "nat \<Rightarrow> int \<Rightarrow> bytes \<Rightarrow> bytes \<times> bytes \<times> bytes \<Rightarrow> bytes \<times> bytes \<times> bytes" where
  "cn_step memory variant tweak s =
     (case s of (a, b, mem) \<Rightarrow>
      let j = cn_index memory a;
          c = encryption_round_bytes a (slice mem j 16);
          mem1 = blit mem j (cn_v1 variant (xor_bytes b c));
          j2 = cn_index memory c;
          d = slice mem1 j2 16;
          a1 = sum_half_blocks a (cn_mul c d)
      in (xor_bytes a1 d, c, blit mem1 j2 (cn_v2 variant tweak a1)))"

text \<open>Sizes of scratchpads: powers of two from one text up.\<close>

definition memory_ok :: "nat \<Rightarrow> bool" where
  "memory_ok memory \<longleftrightarrow> (\<exists>k. 7 \<le> k \<and> k \<le> 31 \<and> memory = 2 ^ k)"

definition cn_inv :: "nat \<Rightarrow> bytes \<times> bytes \<times> bytes \<Rightarrow> bool" where
  "cn_inv memory s = (case s of (a, b, mem) \<Rightarrow> length a = 16 \<and> length b = 16 \<and> length mem = memory)"

lemma memory_ok_cases:
  assumes "memory_ok memory"
  obtains k where "3 \<le> k" "k \<le> 27" "memory = 16 * 2 ^ k"
proof -
  from assms obtain m where m: "7 \<le> m" "m \<le> 31" "memory = 2 ^ m" by (auto simp: memory_ok_def)
  from m(1) obtain k where "m = 4 + k" using le_Suc_ex [of 4 m] by auto
  then show thesis using m that [of k] by (simp add: power_add)
qed

lemma memory_constants_ok: "memory_ok MEMORY" "memory_ok MEMORY_lite"
  unfolding memory_ok_def MEMORY_def MEMORY_lite_def by (auto intro: exI [of _ 21] exI [of _ 20])

section \<open>Blocks as two words\<close>

lemma U64_at_bytes:
  assumes "length a = 16"
  shows "le_bytes 8 (U64_at a 0) @ le_bytes 8 (U64_at a 1) = a"
proof -
  have "slice a 0 8 @ slice a 8 8 = a"
    using assms append_take_drop_id [of 8 a] by (simp add: slice_def)
  then show ?thesis using assms by (simp add: U64_at_def)
qed

lemma swap_blocks_eq: "length a = 16 \<Longrightarrow> length b = 16 \<Longrightarrow> swap_blocks a b = (b, a)"
  by (simp add: swap_blocks_def Let_def U64_at_bytes del: One_nat_def)

lemma length_sum_half_blocks [simp]: "length (sum_half_blocks a b) = 16"
  by (simp add: sum_half_blocks_def)

lemma length_cn_mul [simp]: "length (cn_mul a b) = 16"
  by (simp add: cn_mul_def Let_def)

lemma length_cn_v [simp]: "length (cn_v1 v c) = length c"
  by (simp add: cn_v1_def)

lemma length_cn_v2: "length c = 16 \<Longrightarrow> length t = 8 \<Longrightarrow> length (cn_v2 v t c) = 16"
  by (simp add: cn_v2_def)

lemma mul_eq: "mul a b = Some (cn_mul a b)"
proof -
  let ?x = "U64_at a 0" and ?y = "U64_at b 0"
  obtain lo hi where m: "mul128 ?x ?y = Some (lo, hi)" "unat hi * 2 ^ 64 + unat lo = unat ?x * unat ?y"
    using mul128_exact by blast
  have "(unat ?x * unat ?y) div 2 ^ 64 = unat hi"
    using m(2) [symmetric] unat_u64_less [of lo] by simp
  moreover have "(of_nat (unat ?x * unat ?y) :: u64) = lo"
  proof -
    have "(unat ?x * unat ?y) mod 2 ^ 64 = unat lo"
      using m(2) [symmetric] unat_u64_less [of lo] by simp
    then have "unat (of_nat (unat ?x * unat ?y) :: u64) = unat lo" by (simp add: unat_of_nat del: of_nat_mult)
    then show ?thesis by (rule unsigned_word_eqI)
  qed
  ultimately show ?thesis by (simp add: mul_def m(1) cn_mul_def Let_def)
qed

lemma unat_mask_index:
  assumes "k \<le> 27"
  shows "unat ((x div 16) AND (of_nat (2 ^ k) - 1) :: u64) = unat x div 16 mod 2 ^ k"
proof -
  have "of_nat (2 ^ k) - 1 = (mask k :: u64)" by (simp add: mask_eq_exp_minus_1)
  then have "(x div 16) AND (of_nat (2 ^ k) - 1) = take_bit k (x div 16)"
    by (simp add: take_bit_eq_mask)
  moreover have "unat (take_bit k (x div 16)) = unat (x div 16) mod 2 ^ k"
    using assms by (simp add: take_bit_eq_mod unat_mod unat_pow2)
  ultimately show ?thesis by (simp add: unat_div)
qed

lemma e2i_index:
  assumes "memory_ok memory"
  shows "e2i a (memory div AES_BLOCK_SIZE) * AES_BLOCK_SIZE = cn_index memory a"
proof -
  obtain k where k: "k \<le> 27" "memory = 16 * 2 ^ k" using assms by (rule memory_ok_cases)
  then show ?thesis
    using unat_mask_index [OF k(1), of "U64_at a 0"]
    by (simp add: e2i_def cn_index_def AES_BLOCK_SIZE_def)
qed

lemma cn_index_bound:
  assumes "memory_ok memory"
  shows "cn_index memory a + 16 \<le> memory"
proof -
  obtain k where k: "memory = 16 * 2 ^ k" using assms by (rule memory_ok_cases)
  have "unat (U64_at a 0) div 16 mod 2 ^ k + 1 \<le> 2 ^ k" by (simp add: Suc_leI)
  then have "16 * (unat (U64_at a 0) div 16 mod 2 ^ k + 1) \<le> 16 * 2 ^ k" by (rule mult_le_mono2)
  then show ?thesis by (simp add: cn_index_def k)
qed

lemma VARIANT1_1_blit:
  assumes "length c = 16" "p + 16 \<le> length mem"
  shows "VARIANT1_1 variant p (blit mem p c) = blit mem p (cn_v1 variant c)"
proof (cases "variant > 0")
  case True
  have "blit mem p c ! (p + 11) = c ! 11" using assms by (simp add: nth_blit)
  moreover have "(blit mem p c)[p + 11 := y] = blit mem p (c[11 := y])" for y
    using assms by (simp add: blit_def list_update_append)
  ultimately show ?thesis using True by (simp add: VARIANT1_1_def cn_v1_def)
qed (simp add: VARIANT1_1_def cn_v1_def)

lemma length_encryption_round:
  "length key = 16 \<Longrightarrow> length (encryption_round_bytes key c) = 16"
  by (simp add: encryption_round_bytes_def length_on_columns OAES_BLOCK_SIZE_def)

section \<open>An iteration is a step\<close>

lemma portable_iteration_step:
  assumes "memory_ok memory" "cn_inv memory s" "length tweak = 8"
  shows "portable_iteration memory variant tweak s = Some (cn_step memory variant tweak s)
    \<and> cn_inv memory (cn_step memory variant tweak s)"
proof -
  obtain a b mem where s: "s = (a, b, mem)" by (cases s)
  have l: "length a = 16" "length b = 16" "length mem = memory" using assms(2) by (auto simp: s cn_inv_def)
  define j where "j = cn_index memory a"
  define c where "c = encryption_round_bytes a (slice mem j 16)"
  define m1 where "m1 = blit mem j (cn_v1 variant (xor_bytes b c))"
  define j2 where "j2 = cn_index memory c"
  define d where "d = slice m1 j2 16"
  define a1 where "a1 = sum_half_blocks a (cn_mul c d)"
  have j: "j + 16 \<le> length mem" "j2 + 16 \<le> length mem"
    using cn_index_bound [OF assms(1)] l by (simp_all add: j_def j2_def)
  have lc: "length c = 16" "length (xor_bytes b c) = 16"
    using l by (simp_all add: c_def length_encryption_round)
  have lm: "length m1 = memory" using l lc j by (simp add: m1_def)
  have ld: "length d = 16" "length a1 = 16" using lm j l by (simp_all add: d_def a1_def)
  have round: "aesb_single_round (slice mem j 16) a = c"
    using l j by (simp add: c_def aesb_single_round_bytes)
  have v1: "VARIANT1_1 variant j (copy_block mem j (xor_bytes b c)) = m1"
    using lc j by (simp add: m1_def VARIANT1_1_blit copy_block_def AES_BLOCK_SIZE_def)
  have v2: "take 8 a1 @ VARIANT1_2 variant tweak (drop 8 a1) = cn_v2 variant tweak a1"
    using ld assms(3) by (simp add: VARIANT1_2_def cn_v2_def xor64_def)
  have it: "portable_iteration memory variant tweak s = Some (xor_bytes a1 d, c, blit m1 j2 (cn_v2 variant tweak a1))"
  proof -
    have ci: "copy_block m1 j2 (cn_v2 variant tweak a1) = blit m1 j2 (cn_v2 variant tweak a1)"
      using length_cn_v2 [OF ld(2) assms(3)] by (simp add: copy_block_def AES_BLOCK_SIZE_def)
    show ?thesis
      unfolding portable_iteration_def s prod.case Let_def e2i_index [OF assms(1)] j_def [symmetric]
      using l lc ld round v1 v2 ci
      by (simp add: AES_BLOCK_SIZE_def xor_blocks_def swap_blocks_eq mul_eq j2_def [symmetric]
          d_def [symmetric] a1_def [symmetric] xor_bytes_commute)
  qed
  moreover have "cn_step memory variant tweak s = (xor_bytes a1 d, c, blit m1 j2 (cn_v2 variant tweak a1))"
    by (simp add: cn_step_def s Let_def j_def c_def m1_def j2_def d_def a1_def)
  moreover have "cn_inv memory (xor_bytes a1 d, c, blit m1 j2 (cn_v2 variant tweak a1))"
    using lc ld lm j l length_cn_v2 [OF ld(2) assms(3)] by (simp add: cn_inv_def)
  ultimately show ?thesis by simp
qed

lemma portable_loop_steps:
  assumes "memory_ok memory" "cn_inv memory s" "length tweak = 8"
  shows "portable_loop n memory variant tweak s = Some ((cn_step memory variant tweak ^^ n) s)
    \<and> cn_inv memory ((cn_step memory variant tweak ^^ n) s)"
  using assms(2)
proof (induction n arbitrary: s)
  case (Suc n)
  let ?f = "cn_step memory variant tweak"
  have step: "portable_iteration memory variant tweak s = Some (?f s)" "cn_inv memory (?f s)"
    using portable_iteration_step [OF assms(1) Suc.prems assms(3)] by blast+
  have "(?f ^^ Suc n) s = (?f ^^ n) (?f s)" by (simp only: funpow_Suc_right comp_apply)
  then show ?case using Suc.IH [OF step(2)] step(1) by (simp del: funpow.simps)
qed simp

section \<open>The scratchpad as a list of texts\<close>

definition text_blocks :: "(bytes \<Rightarrow> bytes) \<Rightarrow> bytes \<Rightarrow> bytes" where
  "text_blocks f t = concat (map (\<lambda>i. f (slice t (16 * i) 16)) [0..<8])"

definition pseudo_text :: "bytes \<Rightarrow> bytes \<Rightarrow> bytes" where
  "pseudo_text ed = text_blocks (\<lambda>b. aesb_pseudo_round b ed)"

lemma length_text_blocks:
  "length t = 128 \<Longrightarrow> (\<And>b. length b = 16 \<Longrightarrow> length (f b) = 16) \<Longrightarrow> length (text_blocks f t) = 128"
  by (simp add: text_blocks_def upt_8)

lemma text_block_loop:
  assumes "length t = 128" "\<And>b. length b = 16 \<Longrightarrow> length (f b) = 16"
  shows "fold (\<lambda>j t. blit t (16 * j) (f (slice t (16 * j) 16))) [0..<8] t = text_blocks f t"
proof -
  have "fold (\<lambda>j t. blit t (16 * j) (f (slice t (16 * j) 16))) [0..<8] t
      = fold (\<lambda>i m. blit m (16 * i) (f (slice t (16 * i) 16))) [0..<8] t"
    using assms by (intro word_loop_inplace) simp_all
  also have "\<dots> = concat (map (\<lambda>i. f (slice t (16 * i) 16)) [0..<8]) @ drop (16 * 8) t"
    using assms by (intro word_loop_copy) simp_all
  finally show ?thesis using assms(1) by (simp add: text_blocks_def)
qed

lemma pseudo_round_text_eq:
  assumes "length t = 128" "160 \<le> length ed"
  shows "pseudo_round_text ed t = pseudo_text ed t" "length (pseudo_text ed t) = 128"
  using assms text_block_loop [OF assms(1), of "\<lambda>b. aesb_pseudo_round b ed"]
    length_text_blocks [OF assms(1), of "\<lambda>b. aesb_pseudo_round b ed"]
  by (simp_all add: pseudo_round_text_def pseudo_text_def AES_BLOCK_SIZE_def INIT_SIZE_BLK_def
      length_aesb_pseudo_round)

lemma pseudo_text_iterate:
  "length t = 128 \<Longrightarrow> 160 \<le> length ed \<Longrightarrow> length ((pseudo_text ed ^^ n) t) = 128"
  by (induction n) (simp_all add: pseudo_round_text_eq)

definition scratchpad :: "nat \<Rightarrow> bytes \<Rightarrow> bytes \<Rightarrow> bytes" where
  "scratchpad n ed t = concat (map (\<lambda>i. (pseudo_text ed ^^ Suc i) t) [0..<n])"

lemma length_scratchpad:
  "length t = 128 \<Longrightarrow> 160 \<le> length ed \<Longrightarrow> length (scratchpad n ed t) = 128 * n"
  by (induction n) (simp_all add: scratchpad_def pseudo_text_iterate pseudo_round_text_eq)

lemma fill_loop:
  assumes "length t = 128" "160 \<le> length ed" "128 * n \<le> length m"
  shows "fold (\<lambda>i (t, m). let t' = pseudo_round_text ed t in (t', blit m (i * 128) t')) [0..<n] (t, m)
    = ((pseudo_text ed ^^ n) t, scratchpad n ed t @ drop (128 * n) m)"
  using assms(3)
proof (induction n)
  case (Suc n)
  let ?t = "pseudo_text ed ((pseudo_text ed ^^ n) t)"
  have "blit (scratchpad n ed t @ drop (128 * n) m) (n * 128) ?t = scratchpad n ed t @ ?t @ drop (128 * Suc n) m"
    using assms Suc.prems
    by (simp add: blit_def length_scratchpad pseudo_round_text_eq pseudo_text_iterate add.commute mult.commute)
  then show ?case
    using Suc assms
    by (simp add: pseudo_round_text_eq pseudo_text_iterate Let_def) (simp add: scratchpad_def)
qed (simp add: scratchpad_def)

lemma memory_texts:
  assumes "memory_ok memory"
  shows "128 * (memory div 128) = memory"
proof -
  from assms obtain k where "7 \<le> k" "memory = 2 ^ k" by (auto simp: memory_ok_def)
  then obtain m where "memory = 128 * 2 ^ m"
    using le_Suc_ex [of 7 k] by (auto simp: power_add)
  then show ?thesis by simp
qed

lemma fill_scratchpad_eq:
  assumes "memory_ok memory" "length t = 128" "160 \<le> length ed" "length m = memory"
  shows "snd (fill_scratchpad memory ed t m) = scratchpad (memory div 128) ed t"
    "length (scratchpad (memory div 128) ed t) = memory"
  using fill_loop [OF assms(2,3), of "memory div 128" m] memory_texts [OF assms(1)] assms
  by (simp_all add: fill_scratchpad_def INIT_SIZE_BYTE_def length_scratchpad)

definition absorb_text :: "bytes \<Rightarrow> bytes \<Rightarrow> bytes \<Rightarrow> bytes" where
  "absorb_text ed chunk t = pseudo_text ed (xor_bytes t chunk)"

lemma pseudo_round_xor_text_eq:
  assumes "length t = 128" "length chunk = 128" "160 \<le> length ed"
  shows "pseudo_round_xor_text ed chunk t = absorb_text ed chunk t"
proof -
  let ?f = "\<lambda>j. aesb_pseudo_round (xor_bytes (slice t (16 * j) 16) (slice chunk (16 * j) 16)) ed"
  have "fold (\<lambda>j t'. blit t' (16 * j) (aesb_pseudo_round (xor_bytes (slice t' (16 * j) 16) (slice chunk (16 * j) 16)) ed))
          [0..<n] t = concat (map ?f [0..<n]) @ drop (16 * n) t" if "n \<le> 8" for n
    using that
  proof (induction n)
    case (Suc n)
    have len: "length (concat (map ?f [0..<k])) = 16 * k" if "k \<le> n" for k
      using that Suc.prems assms by (induction k) (auto simp: length_aesb_pseudo_round)
    have "slice (concat (map ?f [0..<n]) @ drop (16 * n) t) (16 * n) 16 = slice t (16 * n) 16"
      using len [of n] by (simp add: slice_def)
    moreover have "blit (concat (map ?f [0..<n]) @ drop (16 * n) t) (16 * n) (?f n)
        = concat (map ?f [0..<n]) @ ?f n @ drop (16 * Suc n) t"
      using len [of n] Suc.prems assms by (simp add: blit_def length_aesb_pseudo_round add.commute)
    ultimately show ?case using Suc by simp
  qed simp
  from this [of 8] show ?thesis
    using assms
    by (simp add: pseudo_round_xor_text_def absorb_text_def pseudo_text_def text_blocks_def slice_xor_bytes
        xor_blocks_def AES_BLOCK_SIZE_def INIT_SIZE_BLK_def Let_def mult.commute)
qed

lemma read_scratchpad_eq:
  assumes "memory_ok memory" "length t = 128" "160 \<le> length ed" "length m = memory"
  shows "read_scratchpad memory ed m t
     = fold (\<lambda>i. absorb_text ed (slice m (128 * i) 128)) [0..<memory div 128] t"
    and "length (fold (\<lambda>i. absorb_text ed (slice m (128 * i) 128)) [0..<memory div 128] t) = 128"
proof -
  have "fold (\<lambda>i t. pseudo_round_xor_text ed (slice m (i * 128) 128) t) [0..<n] t
      = fold (\<lambda>i. absorb_text ed (slice m (128 * i) 128)) [0..<n] t
    \<and> length (fold (\<lambda>i. absorb_text ed (slice m (128 * i) 128)) [0..<n] t) = 128"
    if "n \<le> memory div 128" for n
    using that
  proof (induction n)
    case (Suc n)
    have "128 * n + 128 \<le> memory" using memory_texts [OF assms(1)] Suc.prems by linarith
    then have "length (slice m (128 * n) 128) = 128" using assms(4) by simp
    then show ?case
      using Suc assms(3) pseudo_round_xor_text_eq
      by (simp add: mult.commute) (simp add: absorb_text_def pseudo_round_text_eq)
  qed (simp add: assms(2))
  then show "read_scratchpad memory ed m t
     = fold (\<lambda>i. absorb_text ed (slice m (128 * i) 128)) [0..<memory div 128] t"
    and "length (fold (\<lambda>i. absorb_text ed (slice m (128 * i) 128)) [0..<memory div 128] t) = 128"
    by (simp_all add: read_scratchpad_def INIT_SIZE_BYTE_def)
qed


section \<open>The hash of the specification\<close>

definition cn_tweak :: "int \<Rightarrow> bytes \<Rightarrow> bytes \<Rightarrow> bytes" where
  "cn_tweak variant st data =
     (if variant > 0 then xor_bytes (slice st 192 8) (slice data 35 8) else replicate 8 0)"

definition cn_start :: "nat \<Rightarrow> bytes \<Rightarrow> bytes \<times> bytes \<times> bytes" where
  "cn_start memory st =
     (xor_bytes (slice st 0 16) (slice st 32 16), xor_bytes (slice st 16 16) (slice st 48 16),
      scratchpad (memory div 128) (fips_key_schedule (slice st 0 32)) (slice st 64 128))"

definition cn_absorb :: "nat \<Rightarrow> bytes \<Rightarrow> bytes \<Rightarrow> bytes" where
  "cn_absorb memory st mem =
     fold (\<lambda>i. absorb_text (fips_key_schedule (slice st 32 32)) (slice mem (128 * i) 128))
       [0..<memory div 128] (slice st 64 128)"

definition cryptonight ::
  "nat \<Rightarrow> nat \<Rightarrow> (bytes \<Rightarrow> bytes) list \<Rightarrow> int \<Rightarrow> bytes \<Rightarrow> bytes \<Rightarrow> bytes" where
  "cryptonight memory iter extra_hashes variant data st =
     (case (cn_step memory variant (cn_tweak variant st data) ^^ (iter div 2)) (cn_start memory st) of
        (a, b, mem) \<Rightarrow> extra_hash extra_hashes (hash_permutation (blit st 64 (cn_absorb memory st mem))))"

definition cn_state :: "bytes \<Rightarrow> bytes \<Rightarrow> bool \<Rightarrow> bytes" where
  "cn_state stack data prehashed =
     (if prehashed then blit stack 0 data else bytes_of 8 (sponge 136 data))"

lemma length_cn_state:
  "length stack = 200 \<Longrightarrow> \<not> (prehashed \<and> 200 < length data) \<Longrightarrow> length (cn_state stack data prehashed) = 200"
  by (auto simp: cn_state_def)

lemma initial_state_eq:
  "initial_state stack data prehashed =
     (if prehashed \<and> 200 < length data then Inl Buffer_Overflow else Inr (cn_state stack data prehashed))"
  by (simp add: initial_state_def cn_state_def hash_process_sponge)

lemma tweak_eq:
  "length st = 200 \<Longrightarrow> VARIANT1_PORTABLE_INIT variant st data = cn_tweak variant st data"
  by (simp add: VARIANT1_PORTABLE_INIT_def cn_tweak_def xor64_def)

lemma length_cn_tweak:
  "length st = 200 \<Longrightarrow> VARIANT1_CHECK variant data \<Longrightarrow> length (cn_tweak variant st data) = 8"
  by (auto simp: cn_tweak_def VARIANT1_CHECK_def)

section \<open>Allocation\<close>

lemma install_key_alloc_ok:
  "ctx_ok c \<Longrightarrow> length d \<in> key_lengths \<Longrightarrow> alloc_ok (snd (snd (install_key c d L))) = alloc_ok L"
proof -
  assume a: "ctx_ok c" "length d \<in> key_lengths"
  have kd: "blit (replicate (length d) 0) 0 d = d" by (simp add: blit_def)
  show ?thesis using a
    by (simp add: install_key_def destroy_ctx_key_eq calloc_bytes_eq calloc_ok_eq
        expand_or_destroy_eq kd destroy_fresh_key)
qed

lemma import_key_eq:
  assumes "ctx_ok c" "ctx_blocks c \<le> live L" "off + 32 \<le> length st"
  defines "kd \<equiv> slice st off 32"
  shows "\<exists>L'. alloc_ok L' = alloc_ok L \<and>
    (import_key (Some c) st off L = (None, L') \<and> (\<exists>n. \<not> alloc_ok L n) \<or>
     import_key (Some c) st off L = (Some (c\<lparr>ctx_key := Some (key_of kd)\<rparr>, fips_key_schedule kd), L')
       \<and> live L' + ctx_blocks c = live L + 4)"
proof -
  have kd: "length kd = 32" "32 \<in> key_lengths" using assms(3) by (simp_all add: kd_def key_lengths_iff)
  obtain r c' L' where i: "install_key c kd L = (r, Some c', L')"
    and l: "live L' + ctx_blocks c = live L + ctx_blocks c'"
    using install_key_balanced [OF assms(1,2)] kd by (metis (no_types, lifting))
  have ao: "alloc_ok L' = alloc_ok L" using install_key_alloc_ok [OF assms(1), of kd L] kd i by simp
  have ik: "import_key (Some c) st off L = (case ctx_key c' of None \<Rightarrow> (None, L')
     | Some k \<Rightarrow> (case k_exp_data k of None \<Rightarrow> (None, L') | Some ed \<Rightarrow> (Some (c', ed), L')))"
    using i kd by (simp add: import_key_def oaes_key_import_data_def AES_KEY_SIZE_def kd_def [symmetric])
  have "c' = c\<lparr>ctx_key := Some (key_of kd)\<rparr> \<or> c' = c\<lparr>ctx_key := None\<rparr> \<and> (\<exists>n. \<not> alloc_ok L n)"
    using install_key_eq [OF assms(1), of kd L] kd i by (auto split: if_splits)
  then show ?thesis using ik ao l by (intro exI [of _ L']) auto
qed

lemma oaes_alloc_eq:
  "\<exists>c L'. oaes_alloc L = (c, L') \<and> alloc_ok L' = alloc_ok L \<and>
     (c = None \<and> (\<exists>n. \<not> alloc_ok L n) \<or>
      (\<exists>x. c = Some x \<and> ctx_ok x \<and> ctx_blocks x = 1 \<and> live L' = Suc (live L)))"
proof (cases "alloc_ok L (allocs L)")
  case True
  obtain s L2 where seed: "oaes_get_seed (snd (calloc_ok L)) = (s, L2)" by fastforce
  then have L2: "alloc_ok L2 = alloc_ok L \<and> live L2 = Suc (live L)"
    using True by (auto simp: oaes_get_seed_def calloc_ok_eq Let_def)
  obtain rs L3 where r: "rand_bytes 16 (srand s L2) = (rs, L3)" by fastforce
  then have L3: "length rs = 16" "live L3 = live L2" "alloc_ok L3 = alloc_ok L2"
    using rand_bytes_fields [OF r] by (simp_all add: srand_def)
  show ?thesis
    using True seed L2 L3 r
    by (auto simp: oaes_alloc_def calloc_ok_eq oaes_set_option_def OAES_OPTION_CBC_def OAES_OPTION_ECB_def
        OAES_BLOCK_SIZE_def ctx_ok_def ctx_blocks_def)
qed (auto simp: oaes_alloc_def calloc_ok_eq)

lemma oaes_free_key_of:
  "ctx_ok c \<Longrightarrow> length d \<in> key_lengths \<Longrightarrow>
     live (snd (snd (oaes_free (Some (Some (c\<lparr>ctx_key := Some (key_of d)\<rparr>))) L))) = live L - 4"
  by (simp add: oaes_free_def destroy_ctx_key_eq ctx_ok_set_key)

section \<open>The whole function\<close>

lemma length_schedule_32: "length d = 32 \<Longrightarrow> length (fips_key_schedule d) = 240"
  by (simp add: length_fips_key_schedule key_lengths_iff)

lemma cn_start_inv:
  "memory_ok memory \<Longrightarrow> length st = 200 \<Longrightarrow> cn_inv memory (cn_start memory st)"
  by (simp add: cn_start_def cn_inv_def length_scratchpad length_schedule_32 memory_texts)

text \<open>From a state and two imported keys to the hash: the part between the imports never fails.\<close>

lemma portable_between_imports:
  fixes variant :: int and n :: nat
  assumes "memory_ok memory" "length st = 200" "length long_state = memory" "length tweak = 8"
  defines "s \<equiv> (cn_step memory variant tweak ^^ n) (cn_start memory st)"
  shows "portable_loop n memory variant tweak
     (xor_bytes (slice st 0 16) (slice st 32 16), xor_bytes (slice st 16 16) (slice st 48 16),
      snd (fill_scratchpad memory (fips_key_schedule (slice st 0 32)) (slice st 64 128) long_state)) = Some s"
    and "read_scratchpad memory (fips_key_schedule (slice st 32 32)) (snd (snd s)) (slice st 64 128)
      = cn_absorb memory st (snd (snd s))"
    and "length (cn_absorb memory st (snd (snd s))) = 128"
proof -
  have l: "length (slice st 64 128) = 128" "160 \<le> length (fips_key_schedule (slice st 0 32))"
    "160 \<le> length (fips_key_schedule (slice st 32 32))"
    using assms(2) by (simp_all add: length_schedule_32)
  have loop: "portable_loop n memory variant tweak (cn_start memory st) = Some s" "cn_inv memory s"
    using portable_loop_steps [OF assms(1) cn_start_inv [OF assms(1,2)] assms(4)] by (simp_all add: s_def)
  then show "portable_loop n memory variant tweak
     (xor_bytes (slice st 0 16) (slice st 32 16), xor_bytes (slice st 16 16) (slice st 48 16),
      snd (fill_scratchpad memory (fips_key_schedule (slice st 0 32)) (slice st 64 128) long_state)) = Some s"
    using fill_scratchpad_eq(1) [OF assms(1) l(1,2) assms(3)] by (simp add: cn_start_def)
  have "length (snd (snd s)) = memory" using loop(2) by (simp add: cn_inv_def split: prod.splits)
  then show "read_scratchpad memory (fips_key_schedule (slice st 32 32)) (snd (snd s)) (slice st 64 128)
      = cn_absorb memory st (snd (snd s))" and "length (cn_absorb memory st (snd (snd s))) = 128"
    using read_scratchpad_eq [OF assms(1) l(1,3)] by (simp_all add: cn_absorb_def)
qed

lemma portable_slow_hash_ok:
  assumes "memory_ok memory" "length st = 200" "length long_state = memory"
    "initial_state stack data prehashed = Inr st" "VARIANT1_CHECK variant data"
  shows "\<exists>r L'. portable_slow_hash memory iter extra_hashes stack long_state data variant prehashed L = (r, L') \<and>
    (r = Inl Null_Pointer \<and> (\<exists>n. \<not> alloc_ok L n) \<or>
     r = Inr (cryptonight memory iter extra_hashes variant data st) \<and> live L' = live L)"
proof -
  let ?tw = "cn_tweak variant st data"
  have tw: "VARIANT1_PORTABLE_INIT variant st data = ?tw" "length ?tw = 8"
    using tweak_eq length_cn_tweak assms(2,5) by blast+
  let ?k0 = "slice st 0 32" and ?k1 = "slice st 32 32"
  obtain c L1 where al: "oaes_alloc L = (c, L1)" "alloc_ok L1 = alloc_ok L"
    "c = None \<and> (\<exists>n. \<not> alloc_ok L n) \<or> (\<exists>x. c = Some x \<and> ctx_ok x \<and> ctx_blocks x = 1 \<and> live L1 = Suc (live L))"
    by (rule exE [OF oaes_alloc_eq [of L]]) (elim exE conjE)
  define s where "s = (cn_step memory variant ?tw ^^ (iter div 2)) (cn_start memory st)"
  note mid = portable_between_imports [OF assms(1-3) tw(2), where variant = variant and n = "iter div 2", folded s_def]
  obtain a2 b2 mem2 where s: "s = (a2, b2, mem2)" by (cases s)
  obtain t1 m1 where fill: "fill_scratchpad memory (fips_key_schedule ?k0) (slice st 64 128) long_state = (t1, m1)"
    by fastforce
  note unf = portable_slow_hash_def assms(4,5) al(1) tw(1) INIT_SIZE_BYTE_def Let_def
  show ?thesis
  proof (cases c)
    case None
    then show ?thesis using al assms(5)
      by (simp add: unf import_key_def oaes_key_import_data_def)
  next
    case (Some x)
    then have x: "ctx_ok x" "ctx_blocks x \<le> live L1" "ctx_blocks x = 1" "live L1 = Suc (live L)" using al(3) by auto
    obtain L2 where L2: "alloc_ok L2 = alloc_ok L" and i1:
      "import_key (Some x) st 0 L1 = (None, L2) \<and> (\<exists>n. \<not> alloc_ok L n) \<or>
       import_key (Some x) st 0 L1 = (Some (x\<lparr>ctx_key := Some (key_of ?k0)\<rparr>, fips_key_schedule ?k0), L2)
         \<and> live L2 = live L + 4"
      using import_key_eq [OF x(1,2), of 0 st] assms(2) al(2) x(3,4) by force
    show ?thesis using i1
    proof
      assume "import_key (Some x) st 0 L1 = (None, L2) \<and> (\<exists>n. \<not> alloc_ok L n)"
      then show ?thesis using Some by (simp add: unf)
    next
      assume i1: "import_key (Some x) st 0 L1 = (Some (x\<lparr>ctx_key := Some (key_of ?k0)\<rparr>, fips_key_schedule ?k0), L2)
         \<and> live L2 = live L + 4"
      let ?x1 = "x\<lparr>ctx_key := Some (key_of ?k0)\<rparr>"
      have x1: "ctx_ok ?x1" "ctx_blocks ?x1 \<le> live L2"
        using ctx_ok_set_key [OF x(1), of ?k0] assms(2) i1 by (simp_all add: key_lengths_iff)
      obtain L3 where i2:
        "import_key (Some ?x1) st 32 L2 = (None, L3) \<and> (\<exists>n. \<not> alloc_ok L n) \<or>
         import_key (Some ?x1) st 32 L2 = (Some (?x1\<lparr>ctx_key := Some (key_of ?k1)\<rparr>, fips_key_schedule ?k1), L3)
           \<and> live L3 = live L + 4"
        using import_key_eq [OF x1, of 32 st] assms(2) L2 i1 by auto
      then show ?thesis
        using i1 mid oaes_free_key_of [OF x1(1), of ?k1 L3] assms(2) Some fill s
        by (auto simp: unf cryptonight_def s_def [symmetric] key_lengths_iff)
    qed
  qed
qed

lemma cn_state_cases:
  fixes data :: bytes and prehashed :: bool
  assumes "memory_ok memory" "length stack = 200" "length long_state = memory"
  defines "st \<equiv> cn_state stack data prehashed"
  shows "\<exists>r L'. portable_slow_hash memory iter extra_hashes stack long_state data variant prehashed L = (r, L') \<and>
    (if prehashed \<and> 200 < length data then r = Inl Buffer_Overflow
     else if variant > 0 \<and> length data < 43 then r = Inl Short_Data
     else r = Inl Null_Pointer \<and> (\<exists>n. \<not> alloc_ok L n)
        \<or> r = Inr (cryptonight memory iter extra_hashes variant data st) \<and> live L' = live L)"
proof (cases "(prehashed \<and> 200 < length data) \<or> (variant > 0 \<and> length data < 43)")
  case True
  then show ?thesis
    by (auto simp: portable_slow_hash_def initial_state_eq VARIANT1_CHECK_def Let_def split: prod.splits)
next
  case False
  then have "length st = 200" "initial_state stack data prehashed = Inr st" "VARIANT1_CHECK variant data"
    using length_cn_state [OF assms(2)] by (auto simp: st_def initial_state_eq VARIANT1_CHECK_def)
  from portable_slow_hash_ok [OF assms(1) this(1) assms(3) this(2,3), of iter extra_hashes L]
  show ?thesis using False by (simp only: if_not_P de_Morgan_disj not_False_eq_True)
qed

section \<open>Properties of the portable hash\<close>

text \<open>one iteration of the portable main loop, with its eight exchanges of blocks and its two
  assertions, never fails an assertion on 16-byte blocks and a scratchpad of a power-of-two size, and
  computes the CryptoNight step: an AES round of the addressed block under \<open>a\<close>, the exact 64 by 64 bit
  product, the two half-block sums and the two tweaks of variant 1.  The result has the same sizes.\<close>

theorem portable_iteration_is_cn_step:
  assumes "memory_ok memory" "length a = 16" "length b = 16" "length mem = memory" "length tweak = 8"
  shows "portable_iteration memory variant tweak (a, b, mem) = Some (cn_step memory variant tweak (a, b, mem))
    \<and> cn_inv memory (cn_step memory variant tweak (a, b, mem))"
  using portable_iteration_step [OF assms(1), of "(a, b, mem)"] assms(2-5) by (simp add: cn_inv_def)

lemma memory_ok_128: "memory_ok 128"
  unfolding memory_ok_def by (rule exI [of _ 7]) simp

theorem portable_iteration_is_cn_step_witness:
  "portable_iteration 128 1 (replicate 8 7) (replicate 16 1, replicate 16 2, replicate 128 3)
     = Some (cn_step 128 1 (replicate 8 7) (replicate 16 1, replicate 16 2, replicate 128 3))"
  using portable_iteration_is_cn_step
    [OF memory_ok_128, of "replicate 16 1" "replicate 16 2" "replicate 128 3" "replicate 8 7" 1]
  by simp

text \<open>The block index the main loop computes from any 16-byte block addresses a whole block inside
  the scratchpad, in both builds.\<close>

theorem e2i_in_scratchpad:
  "(e2i a (MEMORY div AES_BLOCK_SIZE) + 1) * AES_BLOCK_SIZE \<le> MEMORY
   \<and> (e2i a (MEMORY_lite div AES_BLOCK_SIZE) + 1) * AES_BLOCK_SIZE \<le> MEMORY_lite"
  using cn_index_bound [OF memory_constants_ok(1), of a] cn_index_bound [OF memory_constants_ok(2), of a]
    e2i_index [OF memory_constants_ok(1), of a] e2i_index [OF memory_constants_ok(2), of a]
  by (simp add: AES_BLOCK_SIZE_def)



text \<open>\<open>cn_slow_hash_lite\<close> of the portable build returns, when no allocation fails, the CryptoNight
  hash with half the scratchpad and half the iterations of the Keccak state of its data, and leaves no
  allocated block behind.\<close>

theorem cn_slow_hash_lite_hashes:
  assumes "length stack = 200" "length long_state = MEMORY_lite" "\<forall>n. alloc_ok L n"
  shows "\<exists>L'. cn_slow_hash_lite_portable extra_hashes stack long_state data L
      = (Inr (cryptonight MEMORY_lite ITER_lite extra_hashes 0 data (bytes_of 8 (sponge 136 data))), L')
    \<and> live L' = live L"
  unfolding cn_slow_hash_lite_portable_def
  using cn_state_cases [OF memory_constants_ok(2) assms(1,2), of ITER_lite extra_hashes data 0 False L] assms(3)
  by (auto simp: cn_state_def)

theorem cn_slow_hash_lite_hashes_witness:
  "\<exists>L'. cn_slow_hash_lite_portable [] (replicate 200 0) (replicate MEMORY_lite 0) [1] plenty
      = (Inr (cryptonight MEMORY_lite ITER_lite [] 0 [1] (bytes_of 8 (sponge 136 [1]))), L')
    \<and> live L' = live plenty"
  using cn_slow_hash_lite_hashes [of "replicate 200 0" "replicate MEMORY_lite 0" plenty "[]" "[1]"]
  by (simp add: plenty_def)

end
