(* ===== verification/Slow_Hash_X86.thy ===== *)
theory Slow_Hash_X86
  imports Slow_Hash
begin

text \<open>
  The CryptoNight hash, x86-64 implementation: the first alternative of \<^verbatim>\<open>slow-hash.c\<close> and of
  \<^verbatim>\<open>slow-hash-lite.c\<close>, with the AES instructions, the cached processor test, and the scratchpad that a
  thread allocates once, as a huge page or on the heap.  A 128-bit register is a list of 16 bytes in
  memory order; the intrinsics are the instructions' documented effect on them.

  Shown here: the hardware key expansion writes the first eleven round keys of FIPS 197; hardware and
  software rounds agree; the function computes the same hash as the portable implementation; no
  sequence of allocations, hashes and releases leaks a scratchpad or releases it the wrong way.
\<close>

unbundle bit_operations_syntax

section \<open>The intrinsics\<close>

definition mm_shuffle_epi32 :: "bytes \<Rightarrow> nat \<Rightarrow> bytes" where
  "mm_shuffle_epi32 x imm = concat (map (\<lambda>i. slice x (4 * (imm div 4 ^ i mod 4)) 4) [0..<4])"

definition mm_slli_si128 :: "bytes \<Rightarrow> nat \<Rightarrow> bytes" where
  "mm_slli_si128 x n = replicate n 0 @ take (16 - n) x"

definition mm_xor_si128 :: "bytes \<Rightarrow> bytes \<Rightarrow> bytes" where
  "mm_xor_si128 x y = xor_bytes x y"

definition mm_aeskeygenassist_si128 :: "bytes \<Rightarrow> byte \<Rightarrow> bytes" where
  "mm_aeskeygenassist_si128 x imm =
     (let s1 = map sub_byte (slice x 4 4); s3 = map sub_byte (slice x 12 4)
      in s1 @ xor_bytes (word_rot_left s1) [imm, 0, 0, 0] @ s3 @ xor_bytes (word_rot_left s3) [imm, 0, 0, 0])"

definition mm_aesenc_si128 :: "bytes \<Rightarrow> bytes \<Rightarrow> bytes" where
  "mm_aesenc_si128 x key = xor_bytes (on_columns mix_cols (map sub_byte (shift_rows x))) key"

text \<open>\<open>mulq\<close>: the high and the low half of the product.\<close>

definition mulq :: "u64 \<Rightarrow> u64 \<Rightarrow> u64 \<times> u64" where
  "mulq x y = (let n = unat x * unat y in (of_nat (n div 2 ^ 64), of_nat n))"

section \<open>Hardware AES\<close>

definition aes_256_assist1 :: "bytes \<Rightarrow> bytes \<Rightarrow> bytes" where
  "aes_256_assist1 t1 t2 =
     (let t2 = mm_shuffle_epi32 t2 0xff;
          t4 = mm_slli_si128 t1 4;
          t1 = mm_xor_si128 t1 t4;
          t4 = mm_slli_si128 t4 4;
          t1 = mm_xor_si128 t1 t4;
          t4 = mm_slli_si128 t4 4;
          t1 = mm_xor_si128 t1 t4
      in mm_xor_si128 t1 t2)"

definition aes_256_assist2 :: "bytes \<Rightarrow> bytes \<Rightarrow> bytes" where
  "aes_256_assist2 t1 t3 =
     (let t4 = mm_aeskeygenassist_si128 t1 0;
          t2 = mm_shuffle_epi32 t4 0xaa;
          t4 = mm_slli_si128 t3 4;
          t3 = mm_xor_si128 t3 t4;
          t4 = mm_slli_si128 t4 4;
          t3 = mm_xor_si128 t3 t4;
          t4 = mm_slli_si128 t4 4;
          t3 = mm_xor_si128 t3 t4
      in mm_xor_si128 t3 t2)"

definition ek_set :: "bytes \<Rightarrow> nat \<Rightarrow> bytes \<Rightarrow> bytes" where
  "ek_set expandedKey i x = blit expandedKey (16 * i) x"

definition aes_expand_key :: "bytes \<Rightarrow> bytes \<Rightarrow> bytes" where
  "aes_expand_key key expandedKey =
     (let t1 = slice key 0 16;
          t3 = slice key 16 16;
          ek = ek_set expandedKey 0 t1;
          ek = ek_set ek 1 t3;
          t1 = aes_256_assist1 t1 (mm_aeskeygenassist_si128 t3 0x01);
          ek = ek_set ek 2 t1;
          t3 = aes_256_assist2 t1 t3;
          ek = ek_set ek 3 t3;
          t1 = aes_256_assist1 t1 (mm_aeskeygenassist_si128 t3 0x02);
          ek = ek_set ek 4 t1;
          t3 = aes_256_assist2 t1 t3;
          ek = ek_set ek 5 t3;
          t1 = aes_256_assist1 t1 (mm_aeskeygenassist_si128 t3 0x04);
          ek = ek_set ek 6 t1;
          t3 = aes_256_assist2 t1 t3;
          ek = ek_set ek 7 t3;
          t1 = aes_256_assist1 t1 (mm_aeskeygenassist_si128 t3 0x08);
          ek = ek_set ek 8 t1;
          t3 = aes_256_assist2 t1 t3;
          ek = ek_set ek 9 t3;
          t1 = aes_256_assist1 t1 (mm_aeskeygenassist_si128 t3 0x10)
      in ek_set ek 10 t1)"

text \<open>
  The ten rounds of one block, and the two loops over the blocks of a text.  Every call passes the
  same buffer as input and output.
\<close>

definition aesenc_ten :: "bytes \<Rightarrow> bytes \<Rightarrow> bytes" where
  "aesenc_ten d k =
     (let d = mm_aesenc_si128 d (slice k 0 16);
          d = mm_aesenc_si128 d (slice k 16 16);
          d = mm_aesenc_si128 d (slice k 32 16);
          d = mm_aesenc_si128 d (slice k 48 16);
          d = mm_aesenc_si128 d (slice k 64 16);
          d = mm_aesenc_si128 d (slice k 80 16);
          d = mm_aesenc_si128 d (slice k 96 16);
          d = mm_aesenc_si128 d (slice k 112 16);
          d = mm_aesenc_si128 d (slice k 128 16)
      in mm_aesenc_si128 d (slice k 144 16))"

definition aes_pseudo_round :: "bytes \<Rightarrow> bytes \<Rightarrow> nat \<Rightarrow> bytes" where
  "aes_pseudo_round text expandedKey nblocks =
     fold (\<lambda>i t. blit t (i * AES_BLOCK_SIZE) (aesenc_ten (slice t (i * AES_BLOCK_SIZE) 16) expandedKey))
       [0..<nblocks] text"

definition aes_pseudo_round_xor :: "bytes \<Rightarrow> bytes \<Rightarrow> bytes \<Rightarrow> nat \<Rightarrow> bytes" where
  "aes_pseudo_round_xor text expandedKey xor_text nblocks =
     fold (\<lambda>i t. blit t (i * AES_BLOCK_SIZE)
             (aesenc_ten (mm_xor_si128 (slice t (i * AES_BLOCK_SIZE) 16) (slice xor_text (16 * i) 16)) expandedKey))
       [0..<nblocks] text"

definition fill_hw :: "nat \<Rightarrow> bytes \<Rightarrow> bytes \<Rightarrow> bytes \<Rightarrow> bytes \<times> bytes" where
  "fill_hw memory expandedKey text hp =
     fold (\<lambda>i (t, m). let t' = aes_pseudo_round t expandedKey INIT_SIZE_BLK
                       in (t', blit m (i * INIT_SIZE_BYTE) t'))
       [0..<memory div INIT_SIZE_BYTE] (text, hp)"

definition read_hw :: "nat \<Rightarrow> bytes \<Rightarrow> bytes \<Rightarrow> bytes \<Rightarrow> bytes" where
  "read_hw memory expandedKey hp text =
     fold (\<lambda>i t. aes_pseudo_round_xor t expandedKey (slice hp (i * INIT_SIZE_BYTE) INIT_SIZE_BYTE) INIT_SIZE_BLK)
       [0..<memory div INIT_SIZE_BYTE] text"

section \<open>The mixing loop\<close>

definition state_index :: "nat \<Rightarrow> u64 \<Rightarrow> nat" where
  "state_index memory x =
     unat (push_bit 4 (drop_bit 4 x AND (of_nat (memory div AES_BLOCK_SIZE) - 1)))"

definition m128 :: "u64 \<times> u64 \<Rightarrow> bytes" where
  "m128 a = le_bytes 8 (fst a) @ le_bytes 8 (snd a)"

definition VARIANT1_INIT64 :: "int \<Rightarrow> bytes \<Rightarrow> bytes \<Rightarrow> u64" where
  "VARIANT1_INIT64 variant state data =
     (if variant > 0 then le_word (slice state 192 8) XOR le_word (slice data 35 8) else 0)"

definition xor64_x86 :: "bytes \<Rightarrow> nat \<Rightarrow> u64 \<Rightarrow> bytes" where
  "xor64_x86 mem p b = blit mem p (le_bytes 8 (le_word (slice mem p 8) XOR b))"

text \<open>
  The block sum of this build works on words; the software branch below uses \<open>read_scratchpad\<close> with
  the byte-wise sum, which is the same function (\<open>xor_blocks_x86_eq\<close>).
\<close>

definition xor_blocks_x86 :: "bytes \<Rightarrow> bytes \<Rightarrow> bytes" where
  "xor_blocks_x86 a b = le_bytes 8 (U64_at a 0 XOR U64_at b 0) @ le_bytes 8 (U64_at a 1 XOR U64_at b 1)"

text \<open>
  \<open>pre_aes\<close>, one round \<open>enc\<close> of the block under \<open>a\<close>, \<open>post_aes\<close>; the state is the array \<open>a\<close>, the
  register \<open>_b\<close> and the scratchpad.
\<close>

definition x86_iteration ::
  "(bytes \<Rightarrow> bytes \<Rightarrow> bytes) \<Rightarrow> nat \<Rightarrow> int \<Rightarrow> u64 \<Rightarrow> (u64 \<times> u64) \<times> bytes \<times> bytes
    \<Rightarrow> (u64 \<times> u64) \<times> bytes \<times> bytes" where
  "x86_iteration enc memory variant tweak1_2 s =
     (case s of (a, b_reg, hp) \<Rightarrow>
      let j = state_index memory (fst a);
          c_reg = slice hp j 16;
          a_reg = m128 a;
          c_reg = enc c_reg a_reg;
          c = (U64_at c_reg 0, U64_at c_reg 1);
          b_reg = mm_xor_si128 b_reg c_reg;
          hp = blit hp j b_reg;
          hp = VARIANT1_1 variant j hp;
          j = state_index memory (fst c);
          b = (le_word (slice hp j 8), le_word (slice hp (j + 8) 8));
          (hi, lo) = mulq (fst c) (fst b);
          a = (fst a + hi, snd a + lo);
          hp = blit hp j (m128 a);
          a = (fst a XOR fst b, snd a XOR snd b);
          hp = (if variant > 0 then xor64_x86 hp (j + 8) tweak1_2 else hp)
      in (a, c_reg, hp))"

section \<open>The state of a thread\<close>

text \<open>
  \<open>hp_state\<close> and \<open>hp_allocated\<close> are the thread's variables, \<open>sw_use\<close> and \<open>hw_supported\<close> the static
  caches of the two tests.  The other fields are what the operating system and the processor answer:
  the environment variable, register ECX of \<open>cpuid(1)\<close>, whether the \<open>n\<close>-th \<open>mmap\<close> succeeds, how many
  mappings exist, the bytes of uninitialised heap memory, the C library.
\<close>

record x86 =
  hp_state :: "bytes option"
  hp_allocated :: bool
  sw_use :: int
  hw_supported :: int
  env_software_aes :: "string option"
  cpuid_1_ecx :: u32
  mmap_ok :: "nat \<Rightarrow> bool"
  mmaps :: nat
  mapped :: nat
  uninit :: "nat \<Rightarrow> byte"
  lib :: libc

definition force_software_aes :: "x86 \<Rightarrow> int \<times> x86" where
  "force_software_aes X =
     (if sw_use X \<noteq> -1 then (sw_use X, X)
      else
        let use = (case env_software_aes X of None \<Rightarrow> 0
                   | Some env \<Rightarrow> if env = ''0'' \<or> env = ''no'' then 0 else 1)
        in (use, X\<lparr>sw_use := use\<rparr>))"

definition check_aes_hw :: "x86 \<Rightarrow> int \<times> x86" where
  "check_aes_hw X =
     (if hw_supported X \<ge> 0 then (hw_supported X, X)
      else
        let supported = sint (cpuid_1_ecx X AND push_bit 25 1)
        in (supported, X\<lparr>hw_supported := supported\<rparr>))"

definition use_aes :: "x86 \<Rightarrow> bool \<times> x86" where
  "use_aes X =
     (case force_software_aes X of (forced, X1) \<Rightarrow>
        if forced \<noteq> 0 then (False, X1)
        else (case check_aes_hw X1 of (supported, X2) \<Rightarrow> (supported \<noteq> 0, X2)))"

text \<open>A failed \<open>mmap\<close> is followed by \<open>malloc\<close>, whose memory is not initialised.\<close>

definition slow_hash_allocate_state :: "nat \<Rightarrow> x86 \<Rightarrow> x86" where
  "slow_hash_allocate_state memory X =
     (if hp_state X \<noteq> None then X
      else if mmap_ok X (mmaps X)
      then X\<lparr>hp_state := Some (replicate memory 0), hp_allocated := True, mmaps := mmaps X + 1,
             mapped := mapped X + 1\<rparr>
      else
        (case calloc_ok (lib X) of (ok, L) \<Rightarrow>
           X\<lparr>hp_state := (if ok then Some (map (uninit X) [0..<memory]) else None),
             hp_allocated := False, mmaps := mmaps X + 1, lib := L\<rparr>))"

definition slow_hash_free_state :: "x86 \<Rightarrow> x86" where
  "slow_hash_free_state X =
     (if hp_state X = None then X
      else
        let X1 = (if \<not> hp_allocated X then X\<lparr>lib := free_block (lib X)\<rparr>
                  else X\<lparr>mapped := mapped X - 1\<rparr>)
        in X1\<lparr>hp_state := None, hp_allocated := False\<rparr>)"

section \<open>The hash\<close>

text \<open>Steps 3 and 5, which both branches share.\<close>

definition x86_mix ::
  "(bytes \<Rightarrow> bytes \<Rightarrow> bytes) \<Rightarrow> nat \<Rightarrow> nat \<Rightarrow> int \<Rightarrow> u64 \<Rightarrow> bytes \<Rightarrow> bytes \<Rightarrow> bytes" where
  "x86_mix enc memory iter variant tweak1_2 state hp =
     (let a = (U64_at (slice state 0 16) 0 XOR U64_at (slice state 32 16) 0,
               U64_at (slice state 0 16) 1 XOR U64_at (slice state 32 16) 1);
          b = (U64_at (slice state 16 16) 0 XOR U64_at (slice state 48 16) 0,
               U64_at (slice state 16 16) 1 XOR U64_at (slice state 48 16) 1)
      in snd (snd ((x86_iteration enc memory variant tweak1_2 ^^ (iter div 2)) (a, m128 b, hp))))"

definition x86_final :: "(bytes \<Rightarrow> bytes) list \<Rightarrow> bytes \<Rightarrow> bytes \<Rightarrow> bytes" where
  "x86_final extra_hashes state text = extra_hash extra_hashes (hash_permutation (blit state 64 text))"

definition x86_hash_hw ::
  "nat \<Rightarrow> nat \<Rightarrow> (bytes \<Rightarrow> bytes) list \<Rightarrow> bytes \<Rightarrow> int \<Rightarrow> u64 \<Rightarrow> bytes \<Rightarrow> x86 \<Rightarrow> (cn_error + bytes) \<times> x86" where
  "x86_hash_hw memory iter extra_hashes expandedKey variant tweak1_2 state X =
     (case hp_state X of None \<Rightarrow> (Inl Null_Pointer, X) | Some hp \<Rightarrow>
      let text = slice state 64 INIT_SIZE_BYTE;
          ek = aes_expand_key (slice state 0 AES_KEY_SIZE) expandedKey;
          (_, hp) = fill_hw memory ek text hp;
          hp = x86_mix mm_aesenc_si128 memory iter variant tweak1_2 state hp;
          ek = aes_expand_key (slice state 32 AES_KEY_SIZE) ek;
          text = read_hw memory ek hp (slice state 64 INIT_SIZE_BYTE)
      in (Inr (x86_final extra_hashes state text), X\<lparr>hp_state := Some hp\<rparr>))"

definition x86_hash_sw ::
  "nat \<Rightarrow> nat \<Rightarrow> (bytes \<Rightarrow> bytes) list \<Rightarrow> int \<Rightarrow> u64 \<Rightarrow> bytes \<Rightarrow> x86 \<Rightarrow> (cn_error + bytes) \<times> x86" where
  "x86_hash_sw memory iter extra_hashes variant tweak1_2 state X =
     (let text = slice state 64 INIT_SIZE_BYTE in
      case oaes_alloc (lib X) of (aes_ctx, L1) \<Rightarrow>
      case import_key aes_ctx state 0 L1 of
        (None, L2) \<Rightarrow> (Inl Null_Pointer, X\<lparr>lib := L2\<rparr>)
      | (Some (x1, ed1), L2) \<Rightarrow>
      (case hp_state X of None \<Rightarrow> (Inl Null_Pointer, X\<lparr>lib := L2\<rparr>) | Some hp \<Rightarrow>
       let (_, hp) = fill_scratchpad memory ed1 text hp;
           hp = x86_mix aesb_single_round memory iter variant tweak1_2 state hp in
       case import_key (Some x1) state 32 L2 of
         (None, L3) \<Rightarrow> (Inl Null_Pointer, X\<lparr>hp_state := Some hp, lib := L3\<rparr>)
       | (Some (x2, ed2), L3) \<Rightarrow>
       let text = read_scratchpad memory ed2 hp (slice state 64 INIT_SIZE_BYTE);
           L4 = snd (snd (oaes_free (Some (Some x2)) L3))
       in (Inr (x86_final extra_hashes state text), X\<lparr>hp_state := Some hp, lib := L4\<rparr>)))"

definition x86_slow_hash ::
  "nat \<Rightarrow> nat \<Rightarrow> (bytes \<Rightarrow> bytes) list \<Rightarrow> bytes \<Rightarrow> bytes \<Rightarrow> bytes \<Rightarrow> int \<Rightarrow> bool \<Rightarrow> x86
    \<Rightarrow> (cn_error + bytes) \<times> x86" where
  "x86_slow_hash memory iter extra_hashes stack expandedKey data variant prehashed X =
     (case use_aes X of (useAes, X1) \<Rightarrow>
      let X2 = (if hp_state X1 = None then slow_hash_allocate_state memory X1 else X1) in
      case initial_state stack data prehashed of Inl e \<Rightarrow> (Inl e, X2) | Inr state \<Rightarrow>
      if \<not> VARIANT1_CHECK variant data then (Inl Short_Data, X2) else
      let tweak1_2 = VARIANT1_INIT64 variant state data in
      if useAes then x86_hash_hw memory iter extra_hashes expandedKey variant tweak1_2 state X2
      else x86_hash_sw memory iter extra_hashes variant tweak1_2 state X2)"

definition cn_slow_hash_x86 ::
  "(bytes \<Rightarrow> bytes) list \<Rightarrow> bytes \<Rightarrow> bytes \<Rightarrow> bytes \<Rightarrow> int \<Rightarrow> bool \<Rightarrow> x86 \<Rightarrow> (cn_error + bytes) \<times> x86" where
  "cn_slow_hash_x86 = x86_slow_hash MEMORY ITER"

text \<open>\<^verbatim>\<open>slow-hash-lite.c\<close>: its thread has its own scratchpad of half the size, and no variants.\<close>

definition slow_hash_allocate_state_lite :: "x86 \<Rightarrow> x86" where
  "slow_hash_allocate_state_lite = slow_hash_allocate_state MEMORY_lite"

definition slow_hash_free_state_lite :: "x86 \<Rightarrow> x86" where
  "slow_hash_free_state_lite = slow_hash_free_state"

definition cn_slow_hash_lite_x86 ::
  "(bytes \<Rightarrow> bytes) list \<Rightarrow> bytes \<Rightarrow> bytes \<Rightarrow> bytes \<Rightarrow> x86 \<Rightarrow> (cn_error + bytes) \<times> x86" where
  "cn_slow_hash_lite_x86 extra_hashes stack expandedKey data =
     x86_slow_hash MEMORY_lite ITER_lite extra_hashes stack expandedKey data 0 False"

section \<open>Hardware rounds are the rounds of the specification\<close>

lemma length_m128 [simp]: "length (m128 a) = 16"
  by (simp add: m128_def)

lemma mm_aesenc_eq: "length key = 16 \<Longrightarrow> length x = 16 \<Longrightarrow> mm_aesenc_si128 x key = encryption_round_bytes key x"
  by (simp add: mm_aesenc_si128_def encryption_round_bytes_def shift_rows_def OAES_BLOCK_SIZE_def)

lemma aesenc_ten_eq:
  assumes "length d = 16" "160 \<le> length k"
  shows "aesenc_ten d k = aesb_pseudo_round d k"
proof -
  have e: "mm_aesenc_si128 x (slice k (16 * i) 16) = er k i x" if "length x = 16" "i < 10" for i x
    using assms that by (simp add: mm_aesenc_eq er_def round_key_def)
  show ?thesis
    unfolding aesb_pseudo_round_er [OF assms]
    using assms e [of _ 0] e [of _ 1] e [of _ 2] e [of _ 3] e [of _ 4] e [of _ 5] e [of _ 6] e [of _ 7]
      e [of _ 8] e [of _ 9]
    by (simp add: aesenc_ten_def Let_def length_er del: One_nat_def)
qed

lemma aes_pseudo_round_eq:
  assumes "length t = 128" "160 \<le> length ek"
  shows "aes_pseudo_round t ek 8 = pseudo_text ek t"
proof -
  have "aesenc_ten (slice t (16 * i) 16) ek = aesb_pseudo_round (slice t (16 * i) 16) ek" if "i < 8" for i
    using that assms by (intro aesenc_ten_eq) simp_all
  then have "text_blocks (\<lambda>b. aesenc_ten b ek) t = pseudo_text ek t"
    unfolding text_blocks_def pseudo_text_def by (intro arg_cong [of _ _ concat] map_cong) simp_all
  moreover have "length (aesenc_ten b ek) = 16" if "length b = 16" for b
    using that assms by (simp add: aesenc_ten_eq length_aesb_pseudo_round)
  ultimately show ?thesis
    using text_block_loop [OF assms(1), of "\<lambda>b. aesenc_ten b ek"]
    by (simp add: aes_pseudo_round_def AES_BLOCK_SIZE_def mult.commute)
qed

text \<open>Both loops of a text over the scratchpad agree with the software loops.\<close>

lemma fold_cong_inv:
  assumes "\<And>x s. x \<in> set xs \<Longrightarrow> P s \<Longrightarrow> f x s = g x s \<and> P (g x s)" "P s"
  shows "fold f xs s = fold g xs s"
  using assms by (induction xs arbitrary: s) auto

lemma fill_hw_eq:
  assumes "length t = 128" "160 \<le> length ek"
  shows "fill_hw memory ek t hp = fill_scratchpad memory ek t hp"
  unfolding fill_hw_def fill_scratchpad_def INIT_SIZE_BLK_def
  by (rule fold_cong_inv [where P = "\<lambda>(t, m). length t = 128"])
    (use assms in \<open>auto simp: aes_pseudo_round_eq pseudo_round_text_eq Let_def\<close>)

lemma aes_pseudo_round_xor_eq:
  assumes "length t = 128" "length chunk = 128" "160 \<le> length ek"
  shows "aes_pseudo_round_xor t ek chunk 8 = pseudo_round_xor_text ek chunk t"
  unfolding aes_pseudo_round_xor_def pseudo_round_xor_text_def INIT_SIZE_BLK_def
proof (rule fold_cong_inv [where P = "\<lambda>t. length t = 128"])
  fix i and s :: bytes
  assume i: "i \<in> set [0..<8]" and s: "length s = 128"
  let ?x = "xor_bytes (slice s (16 * i) 16) (slice chunk (16 * i) 16)"
  have x: "length ?x = 16" using i s assms by simp
  then have "aesenc_ten ?x ek = aesb_pseudo_round ?x ek" "length (aesb_pseudo_round ?x ek) = 16"
    using assms(3) aesenc_ten_eq length_aesb_pseudo_round by blast+
  then show "blit s (i * AES_BLOCK_SIZE) (aesenc_ten (mm_xor_si128 (slice s (i * AES_BLOCK_SIZE) 16)
       (slice chunk (16 * i) 16)) ek) =
     (let x = xor_blocks (slice s (i * AES_BLOCK_SIZE) AES_BLOCK_SIZE) (slice chunk (i * AES_BLOCK_SIZE) AES_BLOCK_SIZE)
      in blit s (AES_BLOCK_SIZE * i) (aesb_pseudo_round x ek)) \<and>
     length (let x = xor_blocks (slice s (i * AES_BLOCK_SIZE) AES_BLOCK_SIZE) (slice chunk (i * AES_BLOCK_SIZE) AES_BLOCK_SIZE)
      in blit s (AES_BLOCK_SIZE * i) (aesb_pseudo_round x ek)) = 128"
    using i s x assms by (simp add: AES_BLOCK_SIZE_def mm_xor_si128_def xor_blocks_def Let_def mult.commute)
qed fact

lemma read_hw_eq:
  assumes "memory_ok memory" "length t = 128" "160 \<le> length ek" "length hp = memory"
  shows "read_hw memory ek hp t = read_scratchpad memory ek hp t"
  unfolding read_hw_def read_scratchpad_def INIT_SIZE_BLK_def
proof (rule fold_cong_inv [where P = "\<lambda>t. length t = 128"])
  fix i and s :: bytes
  assume i: "i \<in> set [0..<memory div INIT_SIZE_BYTE]" and s: "length s = 128"
  have "128 * i + 128 \<le> memory"
    using i memory_texts [OF assms(1)] by (simp add: INIT_SIZE_BYTE_def)
  then have "length (slice hp (i * INIT_SIZE_BYTE) INIT_SIZE_BYTE) = 128"
    using assms(4) by (simp add: INIT_SIZE_BYTE_def mult.commute)
  then show "aes_pseudo_round_xor s ek (slice hp (i * INIT_SIZE_BYTE) INIT_SIZE_BYTE) 8
      = pseudo_round_xor_text ek (slice hp (i * INIT_SIZE_BYTE) INIT_SIZE_BYTE) s
    \<and> length (pseudo_round_xor_text ek (slice hp (i * INIT_SIZE_BYTE) INIT_SIZE_BYTE) s) = 128"
    using s assms(3) by (simp add: aes_pseudo_round_xor_eq pseudo_round_xor_text_eq absorb_text_def pseudo_round_text_eq)
qed fact

text \<open>Only the first ten round keys matter.\<close>

lemma pseudo_text_take:
  assumes "take 160 ek = take 160 ed" "160 \<le> length ek" "160 \<le> length ed" "length t = 128"
  shows "pseudo_text ek t = pseudo_text ed t"
proof -
  have "round_key ek i = round_key ed i" if "i < 10" for i
  proof -
    have "slice (take 160 ek) (16 * i) 16 = slice (take 160 ed) (16 * i) 16" using assms(1) by simp
    then show ?thesis using that by (simp add: round_key_def slice_take)
  qed
  then have e: "er ek i = er ed i" if "i < 10" for i using that by (simp add: er_def fun_eq_iff)
  have "aesb_pseudo_round b ek = aesb_pseudo_round b ed" if "length b = 16" for b
    using aesb_pseudo_round_er [OF that assms(2)] aesb_pseudo_round_er [OF that assms(3)] e by simp
  then show ?thesis
    using assms(4) unfolding pseudo_text_def text_blocks_def
    by (intro arg_cong [of _ _ concat] map_cong) simp_all
qed


section \<open>The hardware key expansion is the key schedule\<close>

text \<open>Four consecutive words of the schedule are one round key.\<close>

definition fips_quad :: "bytes \<Rightarrow> nat \<Rightarrow> bytes" where
  "fips_quad key n = fips_word key n @ fips_word key (n + 1) @ fips_word key (n + 2) @ fips_word key (n + 3)"

lemma upt_4: "[0..<4] = [0, 1, 2, 3]"
  by code_simp

text \<open>The cascade of shifts and sums leaves the running sums of the four words, plus \<open>g\<close>.\<close>

lemma running_sums:
  assumes "length w0 = 4" "length w1 = 4" "length w2 = 4" "length w3 = 4" "length g = 4"
  shows "(let t1 = w0 @ w1 @ w2 @ w3; t4 = mm_slli_si128 t1 4; t1 = mm_xor_si128 t1 t4;
       t4 = mm_slli_si128 t4 4; t1 = mm_xor_si128 t1 t4; t4 = mm_slli_si128 t4 4;
       t1 = mm_xor_si128 t1 t4 in mm_xor_si128 t1 (g @ g @ g @ g))
    = (let v0 = xor_bytes w0 g; v1 = xor_bytes w1 v0; v2 = xor_bytes w2 v1 in
       v0 @ v1 @ v2 @ xor_bytes w3 v2)"
proof -
  obtain a0 a1 a2 a3 b0 b1 b2 b3 c0 c1 c2 c3 d0 d1 d2 d3 g0 g1 g2 g3
    where "w0 = [a0, a1, a2, a3]" "w1 = [b0, b1, b2, b3]" "w2 = [c0, c1, c2, c3]" "w3 = [d0, d1, d2, d3]"
      "g = [g0, g1, g2, g3]"
    using assms list_4 by metis
  then show ?thesis
    by (simp add: mm_slli_si128_def mm_xor_si128_def Let_def eval_nat_numeral ac_simps)
qed

lemma shuffle_ff:
  "length x = 16 \<Longrightarrow> mm_shuffle_epi32 x 0xff = (let g = slice x 12 4 in g @ g @ g @ g)"
  by (simp add: mm_shuffle_epi32_def upt_4 Let_def del: One_nat_def)

lemma shuffle_aa:
  "length x = 16 \<Longrightarrow> mm_shuffle_epi32 x 0xaa = (let g = slice x 8 4 in g @ g @ g @ g)"
  by (simp add: mm_shuffle_epi32_def upt_4 Let_def del: One_nat_def)

lemma fips_word_32:
  assumes "length key = 32" "8 \<le> i"
  shows "fips_word key i = xor_bytes (fips_word key (i - 8))
    (let t = fips_word key (i - 1) in
     if i mod 8 = 0 then xor_bytes (map sub_byte (word_rot_left t)) [rcon (i div 8), 0, 0, 0]
     else if i mod 8 = 4 then map sub_byte t else t)"
  using assms by (subst fips_word.simps) (simp add: Let_def)

lemma length_fips_word_32 [simp]: "length key = 32 \<Longrightarrow> length (fips_word key i) = 4"
  by (simp add: length_fips_word key_lengths_iff)

lemma length_fips_quad [simp]: "length key = 32 \<Longrightarrow> length (fips_quad key n) = 16"
  by (simp add: fips_quad_def)

lemma sub_rot: "length t = 4 \<Longrightarrow> word_rot_left (map sub_byte t) = map sub_byte (word_rot_left t)"
  by (simp add: word_rot_left_def)

lemma length_word_rot_left [simp]: "length (word_rot_left t) = 4"
  by (simp add: word_rot_left_def)

lemma keygenassist_words:
  assumes "length key = 32"
  defines "g t c \<equiv> xor_bytes (map sub_byte (word_rot_left t)) [c, 0, 0, 0]"
  shows "slice (mm_aeskeygenassist_si128 (fips_quad key n) c) 12 4 = g (fips_word key (n + 3)) c"
    "slice (mm_aeskeygenassist_si128 (fips_quad key n) c) 8 4 = map sub_byte (fips_word key (n + 3))"
    "length (mm_aeskeygenassist_si128 (fips_quad key n) c) = 16"
  using assms
  by (simp_all add: mm_aeskeygenassist_si128_def Let_def fips_quad_def slice_def sub_rot)

lemma fips_plain:
  assumes "length key = 32" "i = j + 8" "i = l + 1" "i mod 8 \<noteq> 0" "i mod 8 \<noteq> 4"
  shows "fips_word key i = xor_bytes (fips_word key j) (fips_word key l)"
proof -
  have "i - 8 = j" "i - 1 = l" "8 \<le> i" using assms by auto
  then show ?thesis using fips_word_32 [OF assms(1), of i] assms(4,5) by (simp add: Let_def)
qed

text \<open>The recurrence at the eight positions of a row, for \<open>k\<close> rows before it.\<close>

lemma fips_row:
  assumes "length key = 32"
  shows "fips_word key (8 * k + 8) = xor_bytes (fips_word key (8 * k))
      (xor_bytes (map sub_byte (word_rot_left (fips_word key (8 * k + 7)))) [rcon (k + 1), 0, 0, 0])"
    "fips_word key (8 * k + 9) = xor_bytes (fips_word key (8 * k + 1)) (fips_word key (8 * k + 8))"
    "fips_word key (8 * k + 10) = xor_bytes (fips_word key (8 * k + 2)) (fips_word key (8 * k + 9))"
    "fips_word key (8 * k + 11) = xor_bytes (fips_word key (8 * k + 3)) (fips_word key (8 * k + 10))"
    "fips_word key (8 * k + 12) = xor_bytes (fips_word key (8 * k + 4)) (map sub_byte (fips_word key (8 * k + 11)))"
    "fips_word key (8 * k + 13) = xor_bytes (fips_word key (8 * k + 5)) (fips_word key (8 * k + 12))"
    "fips_word key (8 * k + 14) = xor_bytes (fips_word key (8 * k + 6)) (fips_word key (8 * k + 13))"
    "fips_word key (8 * k + 15) = xor_bytes (fips_word key (8 * k + 7)) (fips_word key (8 * k + 14))"
proof -
  have i: "8 * k + 8 - 8 = 8 * k" "8 * k + 8 - 1 = 8 * k + 7" "(8 * k + 8) div 8 = k + 1"
    "8 * k + 12 - 8 = 8 * k + 4" "8 * k + 12 - 1 = 8 * k + 11" by simp_all
  show "fips_word key (8 * k + 8) = xor_bytes (fips_word key (8 * k))
      (xor_bytes (map sub_byte (word_rot_left (fips_word key (8 * k + 7)))) [rcon (k + 1), 0, 0, 0])"
    using fips_word_32 [OF assms, of "8 * k + 8"] unfolding i by (simp add: Let_def)
  show "fips_word key (8 * k + 12) = xor_bytes (fips_word key (8 * k + 4)) (map sub_byte (fips_word key (8 * k + 11)))"
    using fips_word_32 [OF assms, of "8 * k + 12"] unfolding i by (simp add: Let_def)
qed (rule fips_plain [OF assms]; simp)+

lemma fips_quad_row:
  "fips_quad key (8 * k + 4) = fips_word key (8 * k + 4) @ fips_word key (8 * k + 5)
     @ fips_word key (8 * k + 6) @ fips_word key (8 * k + 7)"
  "fips_quad key (8 * k + 8) = fips_word key (8 * k + 8) @ fips_word key (8 * k + 9)
     @ fips_word key (8 * k + 10) @ fips_word key (8 * k + 11)"
  "fips_quad key (8 * k + 12) = fips_word key (8 * k + 12) @ fips_word key (8 * k + 13)
     @ fips_word key (8 * k + 14) @ fips_word key (8 * k + 15)"
  by (simp_all add: fips_quad_def add.commute)

lemma assist1_fips:
  assumes "length key = 32"
  shows "aes_256_assist1 (fips_quad key (8 * k)) (mm_aeskeygenassist_si128 (fips_quad key (8 * k + 4)) (rcon (k + 1)))
    = fips_quad key (8 * k + 8)"
proof -
  let ?w = "fips_word key"
  let ?g = "xor_bytes (map sub_byte (word_rot_left (?w (8 * k + 7)))) [rcon (k + 1), 0, 0, 0]"
  have n: "8 * k + 4 + 3 = 8 * k + 7" by simp
  have "aes_256_assist1 (fips_quad key (8 * k)) (mm_aeskeygenassist_si128 (fips_quad key (8 * k + 4)) (rcon (k + 1)))
     = (let v0 = xor_bytes (?w (8 * k)) ?g; v1 = xor_bytes (?w (8 * k + 1)) v0; v2 = xor_bytes (?w (8 * k + 2)) v1 in
       v0 @ v1 @ v2 @ xor_bytes (?w (8 * k + 3)) v2)"
    unfolding aes_256_assist1_def shuffle_ff [OF keygenassist_words(3) [OF assms]]
      keygenassist_words(1) [OF assms] n
    using running_sums [of "?w (8 * k)" "?w (8 * k + 1)" "?w (8 * k + 2)" "?w (8 * k + 3)" ?g] assms
    by (simp add: Let_def fips_quad_def)
  also have "\<dots> = fips_quad key (8 * k + 8)"
    unfolding fips_quad_row(2) Let_def by (simp only: fips_row [OF assms])
  finally show ?thesis .
qed

lemma assist2_fips:
  assumes "length key = 32"
  shows "aes_256_assist2 (fips_quad key (8 * k + 8)) (fips_quad key (8 * k + 4)) = fips_quad key (8 * k + 12)"
proof -
  let ?w = "fips_word key"
  let ?g = "map sub_byte (?w (8 * k + 11))"
  have n: "8 * k + 8 + 3 = 8 * k + 11" by simp
  have "aes_256_assist2 (fips_quad key (8 * k + 8)) (fips_quad key (8 * k + 4))
     = (let v0 = xor_bytes (?w (8 * k + 4)) ?g; v1 = xor_bytes (?w (8 * k + 5)) v0; v2 = xor_bytes (?w (8 * k + 6)) v1 in
       v0 @ v1 @ v2 @ xor_bytes (?w (8 * k + 7)) v2)"
    unfolding aes_256_assist2_def Let_def fips_quad_row(1) shuffle_aa [OF keygenassist_words(3) [OF assms]]
      keygenassist_words(2) [OF assms] n
    using running_sums [of "?w (8 * k + 4)" "?w (8 * k + 5)" "?w (8 * k + 6)" "?w (8 * k + 7)" ?g] assms
    by (simp add: Let_def)
  also have "\<dots> = fips_quad key (8 * k + 12)"
    unfolding fips_quad_row(3) Let_def by (simp only: fips_row [OF assms])
  finally show ?thesis .
qed

text \<open>Writing the blocks \<open>0, 1, \<dots>\<close> one after the other.\<close>

lemma ek_set_append:
  assumes "length p = 16 * i" "length x = 16" "16 \<le> length r"
  shows "ek_set (p @ r) i x = (p @ x) @ drop 16 r"
  using assms by (simp add: ek_set_def blit_def)

lemma fips_quad_start: "length key = 32 \<Longrightarrow> slice key 0 16 = fips_quad key 0 \<and> slice key 16 16 = fips_quad key 4"
proof -
  assume l: "length key = 32"
  have w: "fips_word key i = slice key (4 * i) 4" if "i < 8" for i
    using that l by (subst fips_word.simps) (simp add: Let_def)
  have "slice key 0 16 = slice key 0 4 @ slice key 4 4 @ slice key 8 4 @ slice key 12 4"
    "slice key 16 16 = slice key 16 4 @ slice key 20 4 @ slice key 24 4 @ slice key 28 4"
    using block_columns [of "slice key 0 16"] block_columns [of "slice key 16 16"] l
    by (simp_all add: slice_def drop_take)
  then show ?thesis by (simp add: fips_quad_def w)
qed

lemma schedule_quads:
  assumes "length key = 32"
  shows "take 176 (fips_key_schedule key) = concat (map (\<lambda>i. fips_quad key (4 * i)) [0..<11])"
proof -
  have "length (fips_key_schedule key) = 240" by (rule length_schedule_32 [OF assms])
  have "fips_key_schedule key = concat (map (fips_word key) ([0..<44] @ [44..<60]))"
    using assms upt_add_eq_append [of 0 44 16] by (simp add: fips_key_schedule_def del: upt_rec_numeral)
  moreover have "length (concat (map (fips_word key) [0..<44])) = 176"
    using assms by (simp add: length_concat comp_def sum_list_triv del: upt_rec_numeral)
  moreover have "concat (map (fips_word key) [0..<4 * n]) = concat (map (\<lambda>i. fips_quad key (4 * i)) [0..<n])" for n
  proof (induction n)
    case (Suc n)
    have "[0..<4 * Suc n] = [0..<4 * n] @ [4 * n, 4 * n + 1, 4 * n + 2, 4 * n + 3]"
      using upt_add_eq_append [of 0 "4 * n" 4] by (simp add: upt_rec add.commute)
    then show ?case using Suc by (simp add: fips_quad_def)
  qed simp
  from this [of 11] have "concat (map (fips_word key) [0..<44]) = concat (map (\<lambda>i. fips_quad key (4 * i)) [0..<11])"
    by (simp del: upt_rec_numeral)
  ultimately show ?thesis by (simp del: upt_rec_numeral)
qed

lemma upt_11: "[0..<11] = [0, 1, 2, 3, 4, 5, 6, 7, 8, 9, 10]"
  by code_simp

lemma rcon_values: "rcon 1 = 1" "rcon 2 = 2" "rcon 3 = 4" "rcon 4 = 8" "rcon 5 = 16"
  by code_simp+

lemma aes_expand_key_eq:
  assumes "length key = 32" "176 \<le> length ek"
  shows "aes_expand_key key ek = take 176 (fips_key_schedule key) @ drop 176 ek"
proof -
  let ?q = "fips_quad key"
  note a1 = assist1_fips [OF assms(1), of 0] assist1_fips [OF assms(1), of 1] assist1_fips [OF assms(1), of 2]
    assist1_fips [OF assms(1), of 3] assist1_fips [OF assms(1), of 4]
  note a2 = assist2_fips [OF assms(1), of 0] assist2_fips [OF assms(1), of 1] assist2_fips [OF assms(1), of 2]
    assist2_fips [OF assms(1), of 3]
  have "aes_expand_key key ek = ek_set (ek_set (ek_set (ek_set (ek_set (ek_set (ek_set (ek_set (ek_set (ek_set (ek_set ek
      0 (?q 0)) 1 (?q 4)) 2 (?q 8)) 3 (?q 12)) 4 (?q 16)) 5 (?q 20)) 6 (?q 24)) 7 (?q 28)) 8 (?q 32)) 9 (?q 36)) 10 (?q 40)"
    using a1 a2 fips_quad_start [OF assms(1)]
    by (simp add: aes_expand_key_def Let_def rcon_values del: One_nat_def)
  also have "\<dots> = (?q 0 @ ?q 4 @ ?q 8 @ ?q 12 @ ?q 16 @ ?q 20 @ ?q 24 @ ?q 28 @ ?q 32 @ ?q 36 @ ?q 40) @ drop 176 ek"
    using ek_set_append [of "[]" 0 "?q 0" ek] assms
    by (simp add: ek_set_append del: One_nat_def append_assoc)
  finally show ?thesis
    unfolding schedule_quads [OF assms(1)] upt_11 by simp
qed

section \<open>An iteration is a step\<close>

lemma state_index_eq:
  assumes "memory_ok memory"
  shows "state_index memory (U64_at a 0) = cn_index memory a"
proof -
  obtain k where k: "k \<le> 27" "memory = 16 * 2 ^ k" using assms by (rule memory_ok_cases)
  let ?y = "drop_bit 4 (U64_at a 0) AND (of_nat (2 ^ k) - 1)"
  have "drop_bit 4 (U64_at a 0) = U64_at a 0 div 16" by (simp add: drop_bit_eq_div)
  then have y: "unat ?y = unat (U64_at a 0) div 16 mod 2 ^ k"
    using unat_mask_index [OF k(1), of "U64_at a 0"] by simp
  have "unat ?y < 2 ^ k" using y by simp
  also have "(2::nat) ^ k \<le> 2 ^ 27" using k(1) by (intro power_increasing) simp_all
  finally have "16 * unat ?y < 2 ^ 64" by simp
  then have "unat (push_bit 4 ?y) = 16 * unat ?y"
    by (simp add: push_bit_eq_mult unat_word_ariths mult.commute)
  then show ?thesis using y k by (simp add: state_index_def cn_index_def AES_BLOCK_SIZE_def)
qed

lemma U64_at_m128 [simp]: "U64_at (m128 a) 0 = fst a" "U64_at (m128 a) 1 = snd a" "U64_at (m128 a) (Suc 0) = snd a"
  by (simp_all add: U64_at_def m128_def slice_def)

lemma m128_U64_at: "length x = 16 \<Longrightarrow> m128 (U64_at x 0, U64_at x 1) = x"
  by (simp add: m128_def U64_at_bytes del: One_nat_def)

lemma m128_xor: "m128 (fst a XOR fst b, snd a XOR snd b) = xor_bytes (m128 a) (m128 b)"
  by (simp add: m128_def le_bytes_xor xor_bytes_append)

lemma xor_blocks_x86_eq: "length a = 16 \<Longrightarrow> length b = 16 \<Longrightarrow> xor_blocks_x86 a b = xor_blocks a b"
  using m128_xor [of "(U64_at a 0, U64_at a 1)" "(U64_at b 0, U64_at b 1)"] m128_U64_at [of a] m128_U64_at [of b]
  by (simp add: xor_blocks_x86_def xor_blocks_def AES_BLOCK_SIZE_def) (simp add: m128_def)

lemma mulq_cn_mul: "m128 (mulq (U64_at c 0) (U64_at d 0)) = cn_mul c d"
  by (simp add: mulq_def cn_mul_def m128_def Let_def)

lemma m128_sum: "m128 (fst a + fst b, snd a + snd b) = sum_half_blocks (m128 a) (m128 b)"
  by (simp add: sum_half_blocks_def) (simp add: m128_def)

lemma U64_at_slice:
  "le_word (slice m j 8) = U64_at (slice m j 16) 0" "le_word (slice m (j + 8) 8) = U64_at (slice m j 16) 1"
  by (simp_all add: U64_at_def slice_def drop_take add.commute)

lemma xor64_x86_blit:
  assumes "length x = 16" "j + 16 \<le> length m"
  shows "xor64_x86 (blit m j x) (j + 8) t = blit m j (take 8 x @ xor_bytes (drop 8 x) (le_bytes 8 t))"
proof -
  have s: "slice (blit m j x) (j + 8) 8 = drop 8 x" using assms by (simp add: slice_def blit_def)
  have l: "length (drop 8 x) = 8" using assms by simp
  then have "le_bytes 8 (le_word (drop 8 x) XOR t :: u64) = xor_bytes (drop 8 x) (le_bytes 8 t)"
    by (simp add: le_bytes_xor)
  then show ?thesis using assms s by (simp add: xor64_x86_def blit_def)
qed

text \<open>The two rounds of the builds agree with the round of the specification.\<close>

definition round_ok :: "(bytes \<Rightarrow> bytes \<Rightarrow> bytes) \<Rightarrow> bool" where
  "round_ok enc \<longleftrightarrow> (\<forall>x k. length x = 16 \<longrightarrow> length k = 16 \<longrightarrow> enc x k = encryption_round_bytes k x)"

lemma round_ok_cases: "round_ok mm_aesenc_si128" "round_ok aesb_single_round"
  by (auto simp: round_ok_def mm_aesenc_eq aesb_single_round_bytes)

lemma x86_iteration_step:
  assumes "memory_ok memory" "round_ok enc" "cn_inv memory (m128 a, b, hp)"
  shows "case x86_iteration enc memory variant tweak (a, b, hp) of (a', b', hp') \<Rightarrow>
    (m128 a', b', hp') = cn_step memory variant (le_bytes 8 tweak) (m128 a, b, hp)"
proof -
  have l: "length b = 16" "length hp = memory" using assms(3) by (auto simp: cn_inv_def)
  define j where "j = cn_index memory (m128 a)"
  define c where "c = encryption_round_bytes (m128 a) (slice hp j 16)"
  define m1 where "m1 = blit hp j (cn_v1 variant (xor_bytes b c))"
  define j2 where "j2 = cn_index memory c"
  define d where "d = slice m1 j2 16"
  define p where "p = mulq (U64_at c 0) (U64_at d 0)"
  have j: "j + 16 \<le> length hp" "j2 + 16 \<le> length hp"
    using cn_index_bound [OF assms(1)] l by (simp_all add: j_def j2_def)
  have lc: "length c = 16" by (simp add: c_def length_encryption_round)
  have lm: "length m1 = memory" using l lc j by (simp add: m1_def)
  have ld: "length d = 16" using lm j l by (simp add: d_def)
  have enc: "enc (slice hp j 16) (m128 a) = c"
    using assms(2) j by (simp add: c_def round_ok_def)
  have v1: "VARIANT1_1 variant j (blit hp j (xor_bytes b c)) = m1"
    using lc j l by (simp add: m1_def VARIANT1_1_blit)
  have si: "state_index memory (fst a) = j" "state_index memory (U64_at c 0) = j2"
    using state_index_eq [OF assms(1), of "m128 a"] state_index_eq [OF assms(1), of c] by (simp_all add: j_def j2_def)
  have ds: "le_word (slice m1 j2 8) = U64_at d 0" "le_word (slice m1 (j2 + 8) 8) = U64_at d 1"
    unfolding d_def by (rule U64_at_slice)+
  let ?a1 = "(fst a + fst p, snd a + snd p)"
  have x: "x86_iteration enc memory variant tweak (a, b, hp) =
     ((fst ?a1 XOR U64_at d 0, snd ?a1 XOR U64_at d 1), c,
      if variant > 0 then xor64_x86 (blit m1 j2 (m128 ?a1)) (j2 + 8) tweak else blit m1 j2 (m128 ?a1))"
    unfolding x86_iteration_def prod.case si Let_def enc mm_xor_si128_def v1 fst_conv snd_conv
      ds p_def [symmetric]
    by (simp add: split_def del: One_nat_def)
  have a1: "m128 ?a1 = sum_half_blocks (m128 a) (cn_mul c d)"
    unfolding m128_sum by (simp add: p_def mulq_cn_mul)
  have "m128 (fst ?a1 XOR U64_at d 0, snd ?a1 XOR U64_at d 1) = xor_bytes (m128 ?a1) d"
    using m128_xor [of ?a1 "(U64_at d 0, U64_at d 1)"] m128_U64_at [OF ld] by simp
  moreover have "(if variant > 0 then xor64_x86 (blit m1 j2 (m128 ?a1)) (j2 + 8) tweak else blit m1 j2 (m128 ?a1))
     = blit m1 j2 (cn_v2 variant (le_bytes 8 tweak) (m128 ?a1))"
    using xor64_x86_blit [of "m128 ?a1" j2 m1 tweak] j lm l by (simp add: cn_v2_def)
  ultimately show ?thesis
    unfolding x prod.case cn_step_def Let_def
    by (simp add: j_def [symmetric] c_def [symmetric] m1_def [symmetric] j2_def [symmetric] d_def [symmetric]
        a1 del: One_nat_def)
qed

lemma cn_step_inv:
  "memory_ok memory \<Longrightarrow> cn_inv memory s \<Longrightarrow> length tweak = 8 \<Longrightarrow> cn_inv memory (cn_step memory variant tweak s)"
  using portable_iteration_step by blast

lemma x86_loop_steps:
  assumes "memory_ok memory" "round_ok enc" "cn_inv memory (m128 a, b, hp)"
  shows "case (x86_iteration enc memory variant tweak ^^ n) (a, b, hp) of (a', b', hp') \<Rightarrow>
    (m128 a', b', hp') = (cn_step memory variant (le_bytes 8 tweak) ^^ n) (m128 a, b, hp)
    \<and> cn_inv memory (m128 a', b', hp')"
proof (induction n)
  case (Suc n)
  obtain a1 b1 hp1 where s: "(x86_iteration enc memory variant tweak ^^ n) (a, b, hp) = (a1, b1, hp1)"
    using prod_cases3 by blast
  have IH: "(m128 a1, b1, hp1) = (cn_step memory variant (le_bytes 8 tweak) ^^ n) (m128 a, b, hp)"
    "cn_inv memory (m128 a1, b1, hp1)" using Suc s by auto
  obtain a2 b2 hp2 where t: "x86_iteration enc memory variant tweak (a1, b1, hp1) = (a2, b2, hp2)"
    using prod_cases3 by blast
  have "(m128 a2, b2, hp2) = cn_step memory variant (le_bytes 8 tweak) (m128 a1, b1, hp1)"
    using x86_iteration_step [OF assms(1,2) IH(2), of variant tweak] t by simp
  moreover from this have "cn_inv memory (m128 a2, b2, hp2)"
    using cn_step_inv [OF assms(1) IH(2)] by simp
  ultimately show ?case using s t IH(1) by simp
qed (use assms in simp)

section \<open>The whole function\<close>

lemma tweak_x86:
  assumes "length st = 200" "VARIANT1_CHECK variant data"
  shows "le_bytes 8 (VARIANT1_INIT64 variant st data) = cn_tweak variant st data"
proof -
  have "le_bytes 8 (0::u64) = replicate 8 0" by code_simp
  then show ?thesis
    using assms by (auto simp: VARIANT1_INIT64_def cn_tweak_def VARIANT1_CHECK_def le_bytes_xor)
qed

lemma x86_mix_eq:
  assumes "memory_ok memory" "round_ok enc" "length st = 200" "VARIANT1_CHECK variant data"
  defines "hp \<equiv> scratchpad (memory div 128) (fips_key_schedule (slice st 0 32)) (slice st 64 128)"
  shows "x86_mix enc memory iter variant (VARIANT1_INIT64 variant st data) st hp
    = snd (snd ((cn_step memory variant (cn_tweak variant st data) ^^ (iter div 2)) (cn_start memory st)))"
    and "length (x86_mix enc memory iter variant (VARIANT1_INIT64 variant st data) st hp) = memory"
proof -
  let ?a = "(U64_at (slice st 0 16) 0 XOR U64_at (slice st 32 16) 0, U64_at (slice st 0 16) 1 XOR U64_at (slice st 32 16) 1)"
  let ?b = "(U64_at (slice st 16 16) 0 XOR U64_at (slice st 48 16) 0, U64_at (slice st 16 16) 1 XOR U64_at (slice st 48 16) 1)"
  have m: "m128 (U64_at x 0 XOR U64_at y 0, U64_at x 1 XOR U64_at y 1) = xor_bytes x y"
    if "length x = 16" "length y = 16" for x y
    using m128_xor [of "(U64_at x 0, U64_at x 1)" "(U64_at y 0, U64_at y 1)"] that
    by (simp add: m128_U64_at del: One_nat_def)
  have st: "cn_start memory st = (m128 ?a, m128 ?b, hp)"
    using assms(3) by (simp add: cn_start_def m hp_def del: One_nat_def)
  obtain a' b' hp' where e: "(x86_iteration enc memory variant (VARIANT1_INIT64 variant st data) ^^ (iter div 2))
      (?a, m128 ?b, hp) = (a', b', hp')" using prod_cases3 by blast
  have "(m128 a', b', hp') = (cn_step memory variant (cn_tweak variant st data) ^^ (iter div 2)) (cn_start memory st)
      \<and> cn_inv memory (m128 a', b', hp')"
    using x86_loop_steps [OF assms(1,2) cn_start_inv [OF assms(1,3), unfolded st], of "iter div 2" variant
        "VARIANT1_INIT64 variant st data"]
    unfolding e prod.case tweak_x86 [OF assms(3,4)] st .
  moreover have "x86_mix enc memory iter variant (VARIANT1_INIT64 variant st data) st hp = hp'"
    using e by (simp add: x86_mix_def Let_def)
  ultimately show "x86_mix enc memory iter variant (VARIANT1_INIT64 variant st data) st hp
    = snd (snd ((cn_step memory variant (cn_tweak variant st data) ^^ (iter div 2)) (cn_start memory st)))"
    and "length (x86_mix enc memory iter variant (VARIANT1_INIT64 variant st data) st hp) = memory"
    by (metis snd_conv, simp add: cn_inv_def)
qed

text \<open>Hardware and software key, hardware and software loops: the same scratchpad and the same text.\<close>

lemma scratchpad_take:
  assumes "take 160 ek = take 160 ed" "160 \<le> length ek" "160 \<le> length ed" "length t = 128"
  shows "scratchpad n ek t = scratchpad n ed t"
proof -
  have "(pseudo_text ek ^^ i) t = (pseudo_text ed ^^ i) t" for i
  proof (induction i)
    case (Suc i)
    have "length ((pseudo_text ed ^^ i) t) = 128" using assms by (simp add: pseudo_text_iterate)
    then show ?case using Suc pseudo_text_take [OF assms(1-3)] by simp
  qed simp
  then show ?thesis unfolding scratchpad_def by metis
qed

lemma absorb_take:
  assumes "take 160 ek = take 160 ed" "160 \<le> length ek" "160 \<le> length ed" "length t = 128"
    "memory_ok memory" "length m = memory"
  shows "fold (\<lambda>i. absorb_text ek (slice m (128 * i) 128)) [0..<memory div 128] t
     = fold (\<lambda>i. absorb_text ed (slice m (128 * i) 128)) [0..<memory div 128] t"
proof (rule fold_cong_inv [where P = "\<lambda>t. length t = 128"])
  fix i and s :: bytes
  assume i: "i \<in> set [0..<memory div 128]" and s: "length s = 128"
  have "128 * i + 128 \<le> memory" using i memory_texts [OF assms(5)] by simp
  then have "length (xor_bytes s (slice m (128 * i) 128)) = 128" using s assms(6) by simp
  then show "absorb_text ek (slice m (128 * i) 128) s = absorb_text ed (slice m (128 * i) 128) s
    \<and> length (absorb_text ed (slice m (128 * i) 128) s) = 128"
    using pseudo_text_take [OF assms(1-3)] assms(3) by (simp add: absorb_text_def pseudo_round_text_eq)
qed fact

lemma aes_expand_key_fields:
  assumes "length key = 32" "length ek = 240"
  shows "take 160 (aes_expand_key key ek) = take 160 (fips_key_schedule key)"
    "length (aes_expand_key key ek) = 240" "length (fips_key_schedule key) = 240"
  using assms length_schedule_32 [OF assms(1)] by (simp_all add: aes_expand_key_eq)

lemma x86_hash_hw_eq:
  assumes "memory_ok memory" "length st = 200" "VARIANT1_CHECK variant data" "length ek = 240"
    "hp_state X = Some hp" "length hp = memory"
  shows "\<exists>hp'. x86_hash_hw memory iter extra_hashes ek variant (VARIANT1_INIT64 variant st data) st X
     = (Inr (cryptonight memory iter extra_hashes variant data st), X\<lparr>hp_state := Some hp'\<rparr>) \<and> length hp' = memory"
proof -
  let ?k0 = "slice st 0 32" and ?k1 = "slice st 32 32" and ?t = "slice st 64 128"
  define e0 where "e0 = aes_expand_key ?k0 ek"
  define e1 where "e1 = aes_expand_key ?k1 e0"
  have k: "length ?k0 = 32" "length ?k1 = 32" "length ?t = 128" using assms(2) by simp_all
  note f0 = aes_expand_key_fields [OF k(1) assms(4), folded e0_def]
  note f1 = aes_expand_key_fields [OF k(2) f0(2), folded e1_def]
  have "snd (fill_hw memory e0 ?t hp) = scratchpad (memory div 128) e0 ?t"
    using fill_hw_eq [of ?t e0 memory hp] fill_scratchpad_eq(1) [OF assms(1) k(3) _ assms(6), of e0] f0(2) k(3) by simp
  also have "\<dots> = scratchpad (memory div 128) (fips_key_schedule ?k0) ?t"
    using scratchpad_take [OF f0(1)] f0 k(3) by simp
  finally have fill: "snd (fill_hw memory e0 ?t hp) = scratchpad (memory div 128) (fips_key_schedule ?k0) ?t" .
  define s where "s = (cn_step memory variant (cn_tweak variant st data) ^^ (iter div 2)) (cn_start memory st)"
  note mix = x86_mix_eq [OF assms(1) round_ok_cases(1) assms(2,3), of iter, folded s_def]
  have ls: "length (snd (snd s)) = memory" using mix by simp
  have "read_hw memory e1 (snd (snd s)) ?t = fold (\<lambda>i. absorb_text e1 (slice (snd (snd s)) (128 * i) 128)) [0..<memory div 128] ?t"
    using read_hw_eq [OF assms(1) k(3) _ ls, of e1] read_scratchpad_eq(1) [OF assms(1) k(3) _ ls, of e1] f1(2) by simp
  also have "\<dots> = cn_absorb memory st (snd (snd s))"
    unfolding cn_absorb_def using absorb_take [OF f1(1) _ _ k(3) assms(1) ls] f1 by simp
  finally have read: "read_hw memory e1 (snd (snd s)) ?t = cn_absorb memory st (snd (snd s))" .
  obtain t' h' where fh: "fill_hw memory e0 ?t hp = (t', h')" by fastforce
  show ?thesis
    using fill fh mix read ls
    by (intro exI [of _ "snd (snd s)"]) (simp add: x86_hash_hw_def assms(5) AES_KEY_SIZE_def INIT_SIZE_BYTE_def e0_def [symmetric] e1_def [symmetric]
        Let_def x86_final_def cryptonight_def s_def [symmetric] split: prod.splits)
qed

lemma x86_hash_sw_eq:
  assumes "memory_ok memory" "length st = 200" "VARIANT1_CHECK variant data"
    "hp_state X = Some hp" "length hp = memory"
  shows "\<exists>r hp' L'. x86_hash_sw memory iter extra_hashes variant (VARIANT1_INIT64 variant st data) st X
     = (r, X\<lparr>hp_state := Some hp', lib := L'\<rparr>) \<and> length hp' = memory \<and>
    (r = Inl Null_Pointer \<and> (\<exists>n. \<not> alloc_ok (lib X) n) \<or>
     r = Inr (cryptonight memory iter extra_hashes variant data st) \<and> live L' = live (lib X))"
proof -
  let ?k0 = "slice st 0 32" and ?k1 = "slice st 32 32" and ?t = "slice st 64 128" and ?L = "lib X"
  have k: "length ?k0 = 32" "length ?k1 = 32" "length ?t = 128" using assms(2) by simp_all
  define s where "s = (cn_step memory variant (cn_tweak variant st data) ^^ (iter div 2)) (cn_start memory st)"
  note mix = x86_mix_eq [OF assms(1) round_ok_cases(2) assms(2,3), of iter, folded s_def]
  have ls: "length (snd (snd s)) = memory" using mix by simp
  have read: "read_scratchpad memory (fips_key_schedule ?k1) (snd (snd s)) ?t = cn_absorb memory st (snd (snd s))"
    using read_scratchpad_eq(1) [OF assms(1) k(3) _ ls] length_schedule_32 [OF k(2)] by (simp add: cn_absorb_def)
  have fill: "snd (fill_scratchpad memory (fips_key_schedule ?k0) ?t hp) = scratchpad (memory div 128) (fips_key_schedule ?k0) ?t"
    using fill_scratchpad_eq(1) [OF assms(1) k(3) _ assms(5)] length_schedule_32 [OF k(1)] by simp
  obtain t1 m1 where fh: "fill_scratchpad memory (fips_key_schedule ?k0) ?t hp = (t1, m1)" by fastforce
  obtain c L1 where al: "oaes_alloc ?L = (c, L1)" "alloc_ok L1 = alloc_ok ?L"
    "c = None \<and> (\<exists>n. \<not> alloc_ok ?L n) \<or> (\<exists>x. c = Some x \<and> ctx_ok x \<and> ctx_blocks x = 1 \<and> live L1 = Suc (live ?L))"
    by (rule exE [OF oaes_alloc_eq [of ?L]]) (elim exE conjE)
  have same: "X\<lparr>lib := L'\<rparr> = X\<lparr>hp_state := Some hp, lib := L'\<rparr>" for L' using assms(4) by simp
  note unf = x86_hash_sw_def al(1) INIT_SIZE_BYTE_def Let_def assms(4)
  show ?thesis
  proof (cases c)
    case None
    then show ?thesis using al(3) assms(5)
      by (intro exI [of _ "Inl Null_Pointer"] exI [of _ hp] exI [of _ L1])
        (simp add: same [symmetric], simp add: unf import_key_def oaes_key_import_data_def)
  next
    case (Some x)
    then have x: "ctx_ok x" "ctx_blocks x \<le> live L1" "ctx_blocks x = 1" "live L1 = Suc (live ?L)" using al(3) by auto
    obtain L2 where L2: "alloc_ok L2 = alloc_ok ?L" and i1:
      "import_key (Some x) st 0 L1 = (None, L2) \<and> (\<exists>n. \<not> alloc_ok ?L n) \<or>
       import_key (Some x) st 0 L1 = (Some (x\<lparr>ctx_key := Some (key_of ?k0)\<rparr>, fips_key_schedule ?k0), L2)
         \<and> live L2 = live ?L + 4"
      using import_key_eq [OF x(1,2), of 0 st] assms(2) al(2) x(3,4) by force
    show ?thesis using i1
    proof
      assume "import_key (Some x) st 0 L1 = (None, L2) \<and> (\<exists>n. \<not> alloc_ok ?L n)"
      then show ?thesis using Some assms(5)
        by (intro exI [of _ "Inl Null_Pointer"] exI [of _ hp] exI [of _ L2])
          (simp add: same [symmetric], simp add: unf)
    next
      assume i1: "import_key (Some x) st 0 L1 = (Some (x\<lparr>ctx_key := Some (key_of ?k0)\<rparr>, fips_key_schedule ?k0), L2)
         \<and> live L2 = live ?L + 4"
      let ?x1 = "x\<lparr>ctx_key := Some (key_of ?k0)\<rparr>"
      have x1: "ctx_ok ?x1" "ctx_blocks ?x1 \<le> live L2"
        using ctx_ok_set_key [OF x(1), of ?k0] assms(2) i1 by (simp_all add: key_lengths_iff)
      obtain L3 where i2:
        "import_key (Some ?x1) st 32 L2 = (None, L3) \<and> (\<exists>n. \<not> alloc_ok ?L n) \<or>
         import_key (Some ?x1) st 32 L2 = (Some (?x1\<lparr>ctx_key := Some (key_of ?k1)\<rparr>, fips_key_schedule ?k1), L3)
           \<and> live L3 = live ?L + 4"
        using import_key_eq [OF x1, of 32 st] assms(2) L2 i1 by auto
      let ?x2 = "?x1\<lparr>ctx_key := Some (key_of ?k1)\<rparr>" and ?h = "snd (snd s)"
      from i2 show ?thesis
      proof
        assume "import_key (Some ?x1) st 32 L2 = (None, L3) \<and> (\<exists>n. \<not> alloc_ok ?L n)"
        then show ?thesis using i1 mix fill fh ls Some
          by (intro exI [of _ "Inl Null_Pointer"] exI [of _ ?h] exI [of _ L3]) (simp add: unf)
      next
        assume "import_key (Some ?x1) st 32 L2 = (Some (?x2, fips_key_schedule ?k1), L3) \<and> live L3 = live ?L + 4"
        then show ?thesis
          using i1 mix read fill fh ls oaes_free_key_of [OF x1(1), of ?k1 L3] assms(2) Some
          by (intro exI [of _ "Inr (cryptonight memory iter extra_hashes variant data st)"] exI [of _ ?h]
              exI [of _ "snd (snd (oaes_free (Some (Some ?x2)) L3))"])
            (simp add: unf x86_final_def cryptonight_def s_def [symmetric] key_lengths_iff split_def)
      qed
    qed
  qed
qed

section \<open>Owning the scratchpad\<close>

text \<open>
  With \<open>m0\<close> mappings and \<open>l0\<close> heap blocks of others, a thread owns nothing, or one scratchpad of the
  right size of the kind that \<open>hp_allocated\<close> tells.
\<close>

definition x86_ok :: "nat \<Rightarrow> nat \<Rightarrow> nat \<Rightarrow> x86 \<Rightarrow> bool" where
  "x86_ok memory m0 l0 X =
     (case hp_state X of
        None \<Rightarrow> mapped X = m0 \<and> live (lib X) = l0
      | Some hp \<Rightarrow> length hp = memory \<and>
          (if hp_allocated X then mapped X = m0 + 1 \<and> live (lib X) = l0
           else mapped X = m0 \<and> live (lib X) = l0 + 1))"

lemma allocate_ok:
  assumes "x86_ok memory m0 l0 X"
  shows "x86_ok memory m0 l0 (slow_hash_allocate_state memory X)"
    "alloc_ok (lib (slow_hash_allocate_state memory X)) = alloc_ok (lib X)"
    "hp_state (slow_hash_allocate_state memory X) \<noteq> None \<or> (\<exists>n. \<not> alloc_ok (lib X) n)"
  using assms
  by (auto simp: x86_ok_def slow_hash_allocate_state_def calloc_ok_eq split: option.splits)

lemma free_state_ok:
  "x86_ok memory m0 l0 X \<Longrightarrow> x86_ok memory m0 l0 (slow_hash_free_state X)
     \<and> hp_state (slow_hash_free_state X) = None"
  by (auto simp: x86_ok_def slow_hash_free_state_def Let_def split: option.splits)

lemma use_aes_fields:
  assumes "use_aes X = (u, X1)"
  shows "hp_state X1 = hp_state X" "lib X1 = lib X" "mapped X1 = mapped X" "hp_allocated X1 = hp_allocated X"
  using assms
  by (auto simp: use_aes_def force_software_aes_def check_aes_hw_def Let_def split: if_splits prod.splits)

lemma x86_hash_null:
  assumes "hp_state X = None" "length st = 200"
  shows "fst (x86_hash_hw memory iter extra_hashes ek variant tweak st X) = Inl Null_Pointer"
    "fst (x86_hash_sw memory iter extra_hashes variant tweak st X) = Inl Null_Pointer"
  using assms by (auto simp: x86_hash_hw_def x86_hash_sw_def Let_def split: prod.splits option.splits)

lemma x86_hash_branches:
  assumes "memory_ok memory" "x86_ok memory m0 l0 X" "length st = 200" "VARIANT1_CHECK variant data"
    "length ek = 240" "hp_state X \<noteq> None \<or> (\<exists>n. \<not> alloc_ok (lib X) n)"
  defines "t \<equiv> VARIANT1_INIT64 variant st data"
  shows "\<exists>r X'. (if u then x86_hash_hw memory iter extra_hashes ek variant t st X
      else x86_hash_sw memory iter extra_hashes variant t st X) = (r, X') \<and>
     (r = Inl Null_Pointer \<and> (\<exists>n. \<not> alloc_ok (lib X) n) \<or>
      r = Inr (cryptonight memory iter extra_hashes variant data st) \<and> x86_ok memory m0 l0 X')"
proof (cases "hp_state X")
  case None
  then show ?thesis
    using x86_hash_null [OF None assms(3)] assms(6) by (simp add: prod_eq_iff)
next
  case (Some hp)
  then have l: "length hp = memory" using assms(2) by (simp add: x86_ok_def)
  show ?thesis
  proof (cases u)
    case True
    obtain hp' where "x86_hash_hw memory iter extra_hashes ek variant t st X
        = (Inr (cryptonight memory iter extra_hashes variant data st), X\<lparr>hp_state := Some hp'\<rparr>)" "length hp' = memory"
      using x86_hash_hw_eq [OF assms(1,3,4,5) Some l, of iter extra_hashes] by (auto simp: t_def)
    then show ?thesis using True assms(2) Some by (simp add: x86_ok_def)
  next
    case False
    obtain r hp' L' where sw: "x86_hash_sw memory iter extra_hashes variant t st X = (r, X\<lparr>hp_state := Some hp', lib := L'\<rparr>)"
      "length hp' = memory" "r = Inl Null_Pointer \<and> (\<exists>n. \<not> alloc_ok (lib X) n) \<or>
       r = Inr (cryptonight memory iter extra_hashes variant data st) \<and> live L' = live (lib X)"
      using x86_hash_sw_eq [OF assms(1,3,4) Some l, of iter extra_hashes] unfolding t_def by blast
    then show ?thesis using False assms(2) Some by (auto simp: x86_ok_def)
  qed
qed

lemma x86_slow_hash_cases:
  fixes data :: bytes and prehashed :: bool
  assumes "memory_ok memory" "x86_ok memory m0 l0 X" "length stack = 200" "length ek = 240"
  defines "st \<equiv> cn_state stack data prehashed"
  shows "\<exists>r X'. x86_slow_hash memory iter extra_hashes stack ek data variant prehashed X = (r, X') \<and>
    (if prehashed \<and> 200 < length data then r = Inl Buffer_Overflow
     else if variant > 0 \<and> length data < 43 then r = Inl Short_Data
     else r = Inl Null_Pointer \<and> (\<exists>n. \<not> alloc_ok (lib X) n)
        \<or> r = Inr (cryptonight memory iter extra_hashes variant data st) \<and> x86_ok memory m0 l0 X')"
proof -
  obtain u X1 where u: "use_aes X = (u, X1)" by fastforce
  define X2 where "X2 = (if hp_state X1 = None then slow_hash_allocate_state memory X1 else X1)"
  have X1: "x86_ok memory m0 l0 X1" "lib X1 = lib X"
    using use_aes_fields [OF u] assms(2) by (simp_all add: x86_ok_def split: option.splits)
  have X2: "x86_ok memory m0 l0 X2" "alloc_ok (lib X2) = alloc_ok (lib X)"
    "hp_state X2 \<noteq> None \<or> (\<exists>n. \<not> alloc_ok (lib X2) n)"
    using allocate_ok [OF X1(1)] X1 by (auto simp: X2_def)
  show ?thesis
  proof (cases "(prehashed \<and> 200 < length data) \<or> (variant > 0 \<and> length data < 43)")
    case True
    then show ?thesis
      by (auto simp: x86_slow_hash_def u initial_state_eq VARIANT1_CHECK_def Let_def)
  next
    case False
    then have s: "length st = 200" "initial_state stack data prehashed = Inr st" "VARIANT1_CHECK variant data"
      using length_cn_state [OF assms(3)] by (auto simp: st_def initial_state_eq VARIANT1_CHECK_def)
    have "x86_slow_hash memory iter extra_hashes stack ek data variant prehashed X =
       (if u then x86_hash_hw memory iter extra_hashes ek variant (VARIANT1_INIT64 variant st data) st X2
        else x86_hash_sw memory iter extra_hashes variant (VARIANT1_INIT64 variant st data) st X2)"
      using s by (simp add: x86_slow_hash_def u Let_def X2_def)
    with x86_hash_branches [OF assms(1) X2(1) s(1,3) assms(4) X2(3), of u iter extra_hashes, unfolded X2(2)]
    show ?thesis using False by (simp only: if_not_P de_Morgan_disj not_False_eq_True)
  qed
qed

section \<open>Sequences of calls\<close>

text \<open>
  What a thread does with its scratchpad: allocate, hash and return, release.  A hash that stops the
  process has no successor.
\<close>

inductive x86_step :: "nat \<Rightarrow> nat \<Rightarrow> x86 \<Rightarrow> x86 \<Rightarrow> bool" for memory iter where
  step_allocate: "x86_step memory iter X (slow_hash_allocate_state memory X)"
| step_free: "x86_step memory iter X (slow_hash_free_state X)"
| step_hash: "length stack = 200 \<Longrightarrow> length ek = 240 \<Longrightarrow>
    x86_slow_hash memory iter extra_hashes stack ek data variant prehashed X = (Inr h, X') \<Longrightarrow>
    x86_step memory iter X X'"

inductive_cases x86_step_cases [elim]: "x86_step memory iter X X'"

lemma x86_step_ok:
  assumes "memory_ok memory" "x86_ok memory m0 l0 X" "x86_step memory iter X X'"
  shows "x86_ok memory m0 l0 X'"
  using assms(3)
proof cases
  case (step_hash stack ek extra_hashes data variant prehashed h)
  then show ?thesis
    using x86_slow_hash_cases [OF assms(1,2) step_hash(1,2), of iter extra_hashes data variant prehashed]
    by (auto split: if_splits)
qed (use assms allocate_ok free_state_ok in auto)

lemma x86_steps_ok:
  assumes "(x86_step memory iter)\<^sup>*\<^sup>* X X'" "memory_ok memory" "x86_ok memory m0 l0 X"
  shows "x86_ok memory m0 l0 X'"
  using assms by (induction rule: rtranclp_induct) (auto intro: x86_step_ok)

section \<open>Properties of the x86 implementation\<close>

text \<open>C29: \<open>aes_expand_key\<close>, which computes with the AESKEYGENASSIST instruction, shuffles and shifts,
  writes the first eleven round keys (176 bytes) of the FIPS 197 schedule of its 256-bit key and leaves
  the rest of the buffer alone.\<close>

theorem aes_expand_key_is_fips197:
  assumes "length key = 32" "176 \<le> length ek"
  shows "aes_expand_key key ek = take 176 (fips_key_schedule key) @ drop 176 ek"
  using assms by (rule aes_expand_key_eq)

theorem aes_expand_key_is_fips197_witness:
  "aes_expand_key (replicate 32 0) (replicate 240 0) = take 176 (fips_key_schedule (replicate 32 0)) @ replicate 64 0"
  using aes_expand_key_is_fips197 [of "replicate 32 0" "replicate 240 0"] by simp

definition fresh_x86 :: x86 where
  "fresh_x86 = \<lparr>hp_state = None, hp_allocated = False, sw_use = -1, hw_supported = -1,
     env_software_aes = None, cpuid_1_ecx = push_bit 25 1, mmap_ok = (\<lambda>n. n < 3), mmaps = 0, mapped = 2,
     uninit = (\<lambda>_. 7), lib = plenty\<rparr>"

lemma fresh_x86_ok: "x86_ok memory 2 9 fresh_x86" "lib fresh_x86 = plenty" "hp_state fresh_x86 = None"
  "mapped fresh_x86 = 2"
  by (simp_all add: x86_ok_def fresh_x86_def plenty_def)

text \<open>C20: \<open>cn_slow_hash\<close> of the x86 build, whether it uses the AES instructions or the tables, ends on
  every input as the portable build does: overflow on long prehashed data, exit on short data with a
  variant, null pointer only after a failed allocation, and otherwise the CryptoNight hash, with the
  thread owning exactly its scratchpad.\<close>

theorem cn_slow_hash_x86_outcomes:
  assumes "x86_ok MEMORY m0 l0 X" "length stack = 200" "length ek = 240"
  shows "\<exists>r X'. cn_slow_hash_x86 extra_hashes stack ek data variant prehashed X = (r, X') \<and>
    (if prehashed \<and> 200 < length data then r = Inl Buffer_Overflow
     else if variant > 0 \<and> length data < 43 then r = Inl Short_Data
     else r = Inl Null_Pointer \<and> (\<exists>n. \<not> alloc_ok (lib X) n)
        \<or> r = Inr (cryptonight MEMORY ITER extra_hashes variant data (cn_state stack data prehashed))
          \<and> x86_ok MEMORY m0 l0 X')"
  unfolding cn_slow_hash_x86_def
  by (rule x86_slow_hash_cases [OF memory_constants_ok(1) assms])

theorem cn_slow_hash_x86_outcomes_witness:
  "fst (cn_slow_hash_x86 [] (replicate 200 0) (replicate 240 0) [1, 2] 1 False fresh_x86) = Inl Short_Data"
  using cn_slow_hash_x86_outcomes [OF fresh_x86_ok(1), of "replicate 200 0" "replicate 240 0" "[]" "[1, 2]" 1 False]
  by auto

text \<open>C9: when no allocation fails, the x86 build and the portable build give the same answer to the
  same call, hash or error, whatever scratchpad, uninitialised stack for the keys and AES support they
  start with.\<close>

theorem x86_equals_portable:
  assumes "x86_ok MEMORY m0 l0 X" "\<forall>n. alloc_ok (lib X) n" "\<forall>n. alloc_ok L n"
    "length stack = 200" "length ek = 240" "length long_state = MEMORY"
  shows "fst (cn_slow_hash_x86 extra_hashes stack ek data variant prehashed X)
    = fst (cn_slow_hash_portable extra_hashes stack long_state data variant prehashed L)"
  using x86_slow_hash_cases [OF memory_constants_ok(1) assms(1,4,5), of ITER extra_hashes data variant prehashed]
    cn_state_cases [OF memory_constants_ok(1) assms(4,6), of ITER extra_hashes data variant prehashed L] assms(2,3)
  unfolding cn_slow_hash_x86_def cn_slow_hash_portable_def
  by (auto split: if_splits)

theorem x86_equals_portable_witness:
  "fst (cn_slow_hash_x86 [] (replicate 200 0) (replicate 240 0) [1] 0 False fresh_x86)
    = fst (cn_slow_hash_portable [] (replicate 200 0) (replicate MEMORY 5) [1] 0 False plenty)"
  using x86_equals_portable [OF fresh_x86_ok(1), of plenty "replicate 200 0" "replicate 240 0" "replicate MEMORY 5"]
  by (simp add: fresh_x86_ok) (simp add: plenty_def)

text \<open>whatever sequence of allocations, hashes that return and releases a thread makes, with any of
  its \<open>mmap\<close> and \<open>malloc\<close> calls failing, a final \<open>slow_hash_free_state\<close> leaves exactly the mappings and heap
  blocks that were there before: the scratchpad is never leaked, released twice or released the
  wrong way.\<close>

theorem scratchpad_never_leaks:
  assumes "hp_state X = None" "(x86_step MEMORY ITER)\<^sup>*\<^sup>* X X'"
  shows "mapped (slow_hash_free_state X') = mapped X \<and> live (lib (slow_hash_free_state X')) = live (lib X)
    \<and> hp_state (slow_hash_free_state X') = None"
proof -
  have "x86_ok MEMORY (mapped X) (live (lib X)) X" using assms(1) by (simp add: x86_ok_def)
  then have "x86_ok MEMORY (mapped X) (live (lib X)) X'"
    by (rule x86_steps_ok [OF assms(2) memory_constants_ok(1)])
  then show ?thesis using free_state_ok by (fastforce simp: x86_ok_def)
qed

theorem scratchpad_never_leaks_witness:
  "mapped (slow_hash_free_state (slow_hash_allocate_state MEMORY (slow_hash_allocate_state MEMORY fresh_x86))) = 2"
proof -
  have "(x86_step MEMORY ITER)\<^sup>*\<^sup>* fresh_x86 (slow_hash_allocate_state MEMORY (slow_hash_allocate_state MEMORY fresh_x86))"
    by (rule rtranclp.rtrancl_into_rtrancl, rule r_into_rtranclp, rule step_allocate, rule step_allocate)
  from scratchpad_never_leaks [OF fresh_x86_ok(3) this] show ?thesis unfolding fresh_x86_ok(4) by (elim conjE)
qed

end
