(* ===== verification/Chacha.thy ===== *)
theory Chacha
  imports Int_Util
begin

text \<open>
  The ChaCha stream cipher of \<^verbatim>\<open>libcryptonote/crypto/chacha.c\<close> (8 and 20 rounds) and its older copy
  \<^verbatim>\<open>chacha8.c\<close> (8 rounds).  The sixteen variables \<open>x0 \<dots> x15\<close> and \<open>j0 \<dots> j15\<close> of the code are lists of
  sixteen words; the contents of the uninitialised buffer \<open>tmp\<close>, through which the code passes a last
  short block, are an argument.

  Shown here: the cipher text is the data added to a key stream that depends only on key, vector,
  number of rounds and length, block \<open>n\<close> of it coming from the 64-bit counter \<open>n\<close>; encrypting twice
  returns the data; the two files agree on eight rounds.
\<close>

unbundle bit_operations_syntax

section \<open>The code\<close>

definition QUARTERROUND :: "nat \<Rightarrow> nat \<Rightarrow> nat \<Rightarrow> nat \<Rightarrow> u32 list \<Rightarrow> u32 list" where
  "QUARTERROUND a b c d x =
     (let x = x[a := x ! a + x ! b]; x = x[d := rol32 (x ! d XOR x ! a) 16];
          x = x[c := x ! c + x ! d]; x = x[b := rol32 (x ! b XOR x ! c) 12];
          x = x[a := x ! a + x ! b]; x = x[d := rol32 (x ! d XOR x ! a) 8];
          x = x[c := x ! c + x ! d]
      in x[b := rol32 (x ! b XOR x ! c) 7])"

definition double_round :: "u32 list \<Rightarrow> u32 list" where
  "double_round x =
     (let x = QUARTERROUND 0 4 8 12 x;
          x = QUARTERROUND 1 5 9 13 x;
          x = QUARTERROUND 2 6 10 14 x;
          x = QUARTERROUND 3 7 11 15 x;
          x = QUARTERROUND 0 5 10 15 x;
          x = QUARTERROUND 1 6 11 12 x;
          x = QUARTERROUND 2 7 8 13 x
      in QUARTERROUND 3 4 9 14 x)"

text \<open>\<open>for (i = rounds; i > 0; i -= 2)\<close>.\<close>

function rounds_loop :: "int \<Rightarrow> u32 list \<Rightarrow> u32 list" where
  "rounds_loop i x = (if i > 0 then rounds_loop (i - 2) (double_round x) else x)"
  by pat_completeness auto
termination by (relation "measure (\<lambda>(i, _). nat i)") auto

declare rounds_loop.simps [simp del]

definition sigma_text :: bytes where
  "sigma_text = map (\<lambda>c. of_nat (of_char c)) ''expand 32-byte k''"

definition U8TO32_LITTLE :: "bytes \<Rightarrow> nat \<Rightarrow> u32" where
  "U8TO32_LITTLE p i = le_word (slice p i 4)"

definition initial_words :: "bytes \<Rightarrow> bytes \<Rightarrow> u32 list" where
  "initial_words key iv =
     [U8TO32_LITTLE sigma_text 0, U8TO32_LITTLE sigma_text 4, U8TO32_LITTLE sigma_text 8, U8TO32_LITTLE sigma_text 12,
      U8TO32_LITTLE key 0, U8TO32_LITTLE key 4, U8TO32_LITTLE key 8, U8TO32_LITTLE key 12,
      U8TO32_LITTLE key 16, U8TO32_LITTLE key 20, U8TO32_LITTLE key 24, U8TO32_LITTLE key 28,
      0, 0, U8TO32_LITTLE iv 0, U8TO32_LITTLE iv 4]"

text \<open>One pass through the body of the loop: the 64 bytes written to \<open>cipher\<close>, and the next counter.\<close>

definition chacha_block :: "int \<Rightarrow> u32 list \<Rightarrow> bytes \<Rightarrow> bytes" where
  "chacha_block rounds j data =
     (let x = rounds_loop rounds j;
          x = map2 (+) x j;
          x = map2 (XOR) x (map (\<lambda>i. U8TO32_LITTLE data (4 * i)) [0..<16])
      in bytes_of 4 x)"

definition next_counter :: "u32 list \<Rightarrow> u32 list" where
  "next_counter j = (let j1 = j[12 := j ! 12 + 1] in if j1 ! 12 = 0 then j1[13 := j1 ! 13 + 1] else j1)"

text \<open>
  The endless loop: it returns after the block that covers the rest of the data, a short rest being
  copied to \<open>tmp\<close> before and from \<open>tmp\<close> to the target after.
\<close>

function chacha_loop :: "int \<Rightarrow> bytes \<Rightarrow> u32 list \<Rightarrow> bytes \<Rightarrow> bytes" where
  "chacha_loop rounds tmp j data =
     (if length data < 64
      then let tmp1 = blit tmp 0 data in take (length data) (chacha_block rounds j tmp1)
      else
        let c = chacha_block rounds j (take 64 data)
        in if length data \<le> 64 then c
           else c @ chacha_loop rounds tmp (next_counter j) (drop 64 data))"
  by pat_completeness auto
termination by (relation "measure (\<lambda>(_, _, _, data). length data)") auto

declare chacha_loop.simps [simp del]

definition chacha :: "int \<Rightarrow> bytes \<Rightarrow> bytes \<Rightarrow> bytes \<Rightarrow> bytes \<Rightarrow> bytes" where
  "chacha rounds tmp data key iv =
     (if length data = 0 then [] else chacha_loop rounds tmp (initial_words key iv) data)"

definition chacha8 :: "bytes \<Rightarrow> bytes \<Rightarrow> bytes \<Rightarrow> bytes \<Rightarrow> bytes" where
  "chacha8 tmp data key iv = chacha 8 tmp data key iv"

definition chacha20 :: "bytes \<Rightarrow> bytes \<Rightarrow> bytes \<Rightarrow> bytes \<Rightarrow> bytes" where
  "chacha20 tmp data key iv = chacha 20 tmp data key iv"

text \<open>The function of \<^verbatim>\<open>chacha8.c\<close>: the same body with the eight rounds written into it.\<close>

primrec eight_rounds :: "nat \<Rightarrow> u32 list \<Rightarrow> u32 list" where
  "eight_rounds 0 x = x"
| "eight_rounds (Suc n) x = eight_rounds n (double_round x)"

definition chacha8_block :: "u32 list \<Rightarrow> bytes \<Rightarrow> bytes" where
  "chacha8_block j data =
     (let x = eight_rounds 4 j;
          x = map2 (+) x j;
          x = map2 (XOR) x (map (\<lambda>i. U8TO32_LITTLE data (4 * i)) [0..<16])
      in bytes_of 4 x)"

function chacha8_loop :: "bytes \<Rightarrow> u32 list \<Rightarrow> bytes \<Rightarrow> bytes" where
  "chacha8_loop tmp j data =
     (if length data < 64
      then let tmp1 = blit tmp 0 data in take (length data) (chacha8_block j tmp1)
      else
        let c = chacha8_block j (take 64 data)
        in if length data \<le> 64 then c
           else c @ chacha8_loop tmp (next_counter j) (drop 64 data))"
  by pat_completeness auto
termination by (relation "measure (\<lambda>(_, _, data). length data)") auto

declare chacha8_loop.simps [simp del]

definition chacha8_standalone :: "bytes \<Rightarrow> bytes \<Rightarrow> bytes \<Rightarrow> bytes \<Rightarrow> bytes" where
  "chacha8_standalone tmp data key iv =
     (if length data = 0 then [] else chacha8_loop tmp (initial_words key iv) data)"

section \<open>The key stream\<close>

text \<open>
  Block \<open>n\<close> of the stream: the rounds of the words with the 64-bit number \<open>n\<close> in words 12 and 13,
  plus these words.
\<close>

definition counter_words :: "bytes \<Rightarrow> bytes \<Rightarrow> u64 \<Rightarrow> u32 list" where
  "counter_words key iv n = (initial_words key iv)[12 := ucast n, 13 := ucast (drop_bit 32 n)]"

definition stream_block :: "int \<Rightarrow> bytes \<Rightarrow> bytes \<Rightarrow> u64 \<Rightarrow> bytes" where
  "stream_block rounds key iv n =
     bytes_of 4 (map2 (+) (rounds_loop rounds (counter_words key iv n)) (counter_words key iv n))"

definition key_stream :: "int \<Rightarrow> bytes \<Rightarrow> bytes \<Rightarrow> nat \<Rightarrow> bytes" where
  "key_stream rounds key iv len =
     take len (concat (map (\<lambda>n. stream_block rounds key iv (of_nat n)) [0..<(len + 63) div 64]))"

lemma length_QUARTERROUND [simp]: "length (QUARTERROUND a b c d x) = length x"
  by (simp add: QUARTERROUND_def Let_def)

lemma length_double_round [simp]: "length (double_round x) = length x"
  by (simp add: double_round_def Let_def)

lemma length_rounds_loop [simp]: "length (rounds_loop i x) = length x"
  by (induction i x rule: rounds_loop.induct) (subst rounds_loop.simps, simp)

lemma length_initial_words [simp]: "length (initial_words key iv) = 16"
  by (simp add: initial_words_def)

lemma length_counter_words [simp]: "length (counter_words key iv n) = 16"
  by (simp add: counter_words_def)

lemma length_stream_block [simp]: "length (stream_block rounds key iv n) = 64"
  by (simp add: stream_block_def)

lemma words_U8TO32: "map (\<lambda>i. U8TO32_LITTLE data (4 * i)) [0..<16] = words_of 4 16 data"
  by (rule nth_equalityI) (simp_all add: U8TO32_LITTLE_def nth_words_of mult.commute del: upt_rec_numeral)

lemma bytes_of_xor:
  "length xs = length ys \<Longrightarrow> bytes_of 4 (map2 (XOR) xs ys) = xor_bytes (bytes_of 4 xs) (bytes_of 4 (ys :: u32 list))"
  by (induction xs ys rule: list_induct2) (simp_all add: bytes_of_def le_bytes_xor xor_bytes_append)

lemma chacha_block_stream:
  assumes "length data = 64"
  shows "chacha_block rounds (counter_words key iv n) data = xor_bytes data (stream_block rounds key iv n)"
proof -
  let ?j = "counter_words key iv n"
  have "chacha_block rounds ?j data
      = xor_bytes (bytes_of 4 (map2 (+) (rounds_loop rounds ?j) ?j)) (bytes_of 4 (words_of 4 16 data :: u32 list))"
    unfolding chacha_block_def Let_def words_U8TO32 by (rule bytes_of_xor) simp
  then show ?thesis using assms by (simp add: stream_block_def xor_bytes_commute)
qed

lemma unat_high_word: "unat (ucast (drop_bit 32 (n::u64)) :: u32) = unat n div 2 ^ 32"
proof -
  have "unat n div 2 ^ 32 < 2 ^ 32" using unat_u64_less [of n] by (simp add: less_mult_imp_div_less)
  then show ?thesis by (simp add: unsigned_ucast_eq unsigned_drop_bit_eq drop_bit_eq_div take_bit_eq_mod unat_div)
qed

lemma unat_low_word: "unat (ucast (n::u64) :: u32) = unat n mod 2 ^ 32"
  by (simp add: unsigned_ucast_eq take_bit_eq_mod)

lemma high_word_Suc:
  "(ucast (drop_bit 32 (n + 1 :: u64)) :: u32)
     = (if (ucast n :: u32) + 1 = 0 then ucast (drop_bit 32 n) + 1 else ucast (drop_bit 32 n))"
proof (cases "n + 1 = 0")
  case True
  then have "n = -1" by (simp add: eq_neg_iff_add_eq_0)
  then show ?thesis by (simp) code_simp
next
  case False
  then have s: "unat (n + 1) = Suc (unat n)" by (metis add.commute unatSuc)
  have low: "(ucast n :: u32) + 1 = 0 \<longleftrightarrow> Suc (unat n) mod 2 ^ 32 = 0"
  proof -
    have "unat ((ucast n :: u32) + 1) = Suc (unat n) mod 2 ^ 32"
      by (simp add: unat_word_ariths unat_low_word mod_Suc_eq)
    then show ?thesis by (metis unat_eq_zero)
  qed
  have "unat (ucast (drop_bit 32 (n + 1)) :: u32) = unat (if (ucast n :: u32) + 1 = 0 then ucast (drop_bit 32 n) + 1 else ucast (drop_bit 32 n) :: u32)"
  proof (cases "(ucast n :: u32) + 1 = 0")
    case True
    have "Suc (unat n) div 2 ^ 32 = Suc (unat n div 2 ^ 32)" using True low by (simp add: div_Suc)
    moreover have "Suc (unat n) div 2 ^ 32 < 2 ^ 32"
      using unat_u64_less [of "n + 1"] s by (simp add: less_mult_imp_div_less)
    ultimately have "unat ((ucast (drop_bit 32 n) :: u32) + 1) = Suc (unat n div 2 ^ 32)"
      by (simp add: unat_word_ariths unat_high_word)
    then show ?thesis using True unat_high_word [of "n + 1"] s low by (simp add: div_Suc)
  next
    case False
    then show ?thesis using unat_high_word [of "n + 1"] unat_high_word [of n] s low by (simp add: div_Suc)
  qed
  then show ?thesis by (rule unsigned_word_eqI)
qed

lemma next_counter_words: "next_counter (counter_words key iv n) = counter_words key iv (n + 1)"
proof -
  have low: "(ucast (n + 1) :: u32) = ucast n + 1"
    by (rule unsigned_word_eqI [where ?'a = nat])
      (simp add: unat_low_word unat_word_ariths mod_Suc_eq mod_mod_cancel)
  show ?thesis
    unfolding counter_words_def next_counter_def high_word_Suc low
    by (simp add: Let_def initial_words_def)
qed

lemma initial_counter: "initial_words key iv = counter_words key iv 0"
  by (simp add: counter_words_def initial_words_def)

lemma concat_take_stream:
  "len \<le> 64 * k \<Longrightarrow> length (take len (concat (map (\<lambda>i. stream_block r key iv (of_nat i)) [n..<n + k]))) = len"
  by (induction k arbitrary: len) (auto simp: length_concat comp_def sum_list_triv)

lemma chacha_loop_stream:
  assumes "length tmp = 64" "data \<noteq> []"
  shows "chacha_loop rounds tmp (counter_words key iv (of_nat n)) data
    = xor_bytes data (take (length data)
        (concat (map (\<lambda>i. stream_block rounds key iv (of_nat i)) [n..<n + (length data + 63) div 64])))"
  using assms(2)
proof (induction "length data" arbitrary: data n rule: less_induct)
  case less
  let ?s = "\<lambda>i. stream_block rounds key iv (of_nat i)"
  let ?j = "counter_words key iv (of_nat n)"
  consider "length data < 64" | "length data = 64" | "64 < length data" by linarith
  then show ?case
  proof cases
    case 1
    have "(length data + 63) div 64 = 1" using 1 less.prems by (cases data) auto
    moreover have "take (length data) (xor_bytes (blit tmp 0 data) (?s n)) = xor_bytes data (take (length data) (?s n))"
      using 1 assms(1) by (simp add: blit_def xor_bytes_def zip_append1 flip: take_map take_zip)
    ultimately show ?thesis
      using 1 assms(1) by (subst chacha_loop.simps) (simp add: Let_def chacha_block_stream)
  next
    case 2
    then show ?thesis by (subst chacha_loop.simps) (simp add: Let_def chacha_block_stream)
  next
    case 3
    let ?d = "drop 64 data"
    have d: "length ?d < length data" "?d \<noteq> []" "length data = 64 + length ?d" using 3 by auto
    have "length data + 63 = (length ?d + 63) + 64" using 3 by simp
    then have q: "(length data + 63) div 64 = Suc ((length ?d + 63) div 64)" by (simp only: div_add_self2)
    have "chacha_loop rounds tmp ?j data = xor_bytes (take 64 data) (?s n)
        @ chacha_loop rounds tmp (counter_words key iv (of_nat (Suc n))) ?d"
      using 3 by (subst chacha_loop.simps) (simp add: Let_def chacha_block_stream next_counter_words add.commute)
    also have "\<dots> = xor_bytes (take 64 data) (?s n) @ xor_bytes ?d (take (length ?d)
        (concat (map ?s [Suc n..<Suc n + (length ?d + 63) div 64])))"
      by (simp only: less.hyps [OF d(1,2)])
    also have "\<dots> = xor_bytes (take 64 data @ ?d) (?s n @ take (length ?d)
        (concat (map ?s [Suc n..<Suc n + (length ?d + 63) div 64])))"
      using 3 by (intro xor_bytes_append [symmetric]) simp
    also have "?s n @ take (length ?d) (concat (map ?s [Suc n..<Suc n + (length ?d + 63) div 64]))
        = take (length data) (concat (map ?s [n..<n + (length data + 63) div 64]))"
    proof -
      have "?s n @ take m (concat (map ?s [Suc n..<Suc n + k])) = take (64 + m) (concat (map ?s [n..<n + Suc k]))" for m k
        by (simp add: upt_conv_Cons del: upt_Suc)
      from this [of "length ?d"] show ?thesis unfolding q d(3) [symmetric] .
    qed
    finally show ?thesis by simp
  qed
qed

lemma chacha_stream:
  "length tmp = 64 \<Longrightarrow> chacha rounds tmp data key iv = xor_bytes data (key_stream rounds key iv (length data))"
  using chacha_loop_stream [of tmp data rounds key iv 0]
  by (cases "data = []") (simp_all add: chacha_def key_stream_def initial_counter)

lemma length_key_stream [simp]: "length (key_stream rounds key iv len) = len"
  unfolding key_stream_def using concat_take_stream [of len "(len + 63) div 64" rounds key iv 0] by simp

lemma eight_rounds_loop: "eight_rounds 4 x = rounds_loop 8 x"
  by (simp add: rounds_loop.simps eval_nat_numeral)

lemma chacha8_loop_eq: "chacha8_loop tmp j data = chacha_loop 8 tmp j data"
proof (induction tmp j data rule: chacha8_loop.induct)
  case (1 tmp j data)
  then show ?case
    by (subst chacha8_loop.simps, subst chacha_loop.simps)
      (simp add: chacha8_block_def chacha_block_def eight_rounds_loop Let_def)
qed

section \<open>Properties\<close>

text \<open>C30: for every number of rounds, key, vector and data, the cipher text is the data added to the key
  stream; the stream depends on the data only through their length, uses the 64-bit block number as its
  counter, and not on what the uninitialised buffer for a short last block holds.\<close>

theorem chacha_adds_key_stream:
  assumes "length tmp = 64"
  shows "chacha rounds tmp data key iv = xor_bytes data (key_stream rounds key iv (length data))"
  using assms by (rule chacha_stream)

theorem chacha_adds_key_stream_witness:
  "chacha 8 (replicate 64 0xaa) [1, 2, 3] (replicate 32 5) (replicate 8 6)
     = xor_bytes [1, 2, 3] (key_stream 8 (replicate 32 5) (replicate 8 6) 3)"
  using chacha_adds_key_stream [of "replicate 64 0xaa" 8 "[1, 2, 3]" "replicate 32 5" "replicate 8 6"]
  by (simp add: numeral_3_eq_3)

text \<open>decryption is encryption: applying either exported cipher again, with whatever is left on the
  stack, returns the data, and both files' eight-round ciphers agree.\<close>

theorem chacha_twice:
  assumes "length tmp = 64" "length tmp' = 64"
  shows "chacha8 tmp' (chacha8 tmp data key iv) key iv = data
    \<and> chacha20 tmp' (chacha20 tmp data key iv) key iv = data
    \<and> chacha8_standalone tmp data key iv = chacha8 tmp' data key iv"
proof (intro conjI)
  show "chacha8_standalone tmp data key iv = chacha8 tmp' data key iv"
    using chacha_stream [OF assms(1), of 8 data key iv] chacha_stream [OF assms(2), of 8 data key iv]
    by (cases "data = []") (simp_all add: chacha8_standalone_def chacha8_def chacha8_loop_eq chacha_def)
qed (use assms in \<open>simp_all add: chacha8_def chacha20_def chacha_stream\<close>)

theorem chacha_twice_witness:
  "chacha20 (replicate 64 2) (chacha20 (replicate 64 1) [1, 2, 3] (replicate 32 5) (replicate 8 6))
     (replicate 32 5) (replicate 8 6) = [1, 2, 3]"
  using chacha_twice [of "replicate 64 1" "replicate 64 2" "[1, 2, 3]" "replicate 32 5" "replicate 8 6"] by simp

end
