(* ===== verification/Stream_Hash.thy ===== *)
theory Stream_Hash
  imports Prelude
begin

text \<open>
  What the streaming hashes of the repository share.  The locale \<open>incremental_hash\<close> is the interface of
  a hash that takes its message in pieces: what an initialised state stands for, what an update adds, what
  the final call returns.  The locale \<open>hmac_hash\<close> is the client that builds a keyed hash from it.  BLAKE-256
  and BLAKE-224 (\<open>Blake256_Stream\<close>) and SHA-256 (\<open>Sha256_Stream\<close>) interpret both.

  The key pads of HMAC and the bit counters of two 32-bit words are the same in the sources of both
  families, so they stand here too.
\<close>

unbundle bit_operations_syntax

section \<open>Bit counters\<close>

text \<open>The two counter words for \<open>c\<close> message bits.\<close>

definition count_lo :: "nat \<Rightarrow> u32" where
  "count_lo c = of_nat c"

definition count_hi :: "nat \<Rightarrow> u32" where
  "count_hi c = of_nat (c div 2 ^ 32)"

section \<open>Key pads\<close>

text \<open>\<open>memset(pad, c, 64); for (i = 0; i < keylen; ++i) pad[i] ^= key[i];\<close>\<close>

definition hmac_pad :: "byte \<Rightarrow> bytes \<Rightarrow> bytes" where
  "hmac_pad c key = fold (\<lambda>i pad. pad[i := pad ! i XOR key ! i]) [0..<length key] (replicate 64 c)"

text \<open>HMAC: a key of one block, added to two constants, starts the inner and the outer hash.\<close>

definition hmac_spec :: "(bytes \<Rightarrow> bytes) \<Rightarrow> (bytes \<Rightarrow> bytes) \<Rightarrow> bytes \<Rightarrow> bytes \<Rightarrow> bytes" where
  "hmac_spec outer inner key0 m =
     outer (xor_bytes key0 (replicate 64 0x5c) @ inner (xor_bytes key0 (replicate 64 0x36) @ m))"

definition key_block :: "bytes \<Rightarrow> bytes" where
  "key_block key = key @ replicate (64 - length key) 0"

lemma hmac_pad_eq:
  assumes "length key \<le> 64"
  shows "hmac_pad c key = xor_bytes (key_block key) (replicate 64 c)"
proof -
  have "fold (\<lambda>i pad. pad[i := pad ! i XOR key ! i]) [0..<n] (replicate 64 c)
      = map (\<lambda>i. key ! i XOR c) [0..<n] @ replicate (64 - n) c" if "n \<le> 64" for n
    using that
  proof (induction n)
    case (Suc n)
    have r: "replicate (64 - n) c = c # replicate (64 - Suc n) c"
      using Suc.prems Suc_diff_Suc [of n 64] by (metis Suc_le_lessD replicate_Suc)
    show ?case using Suc unfolding upt_Suc r by (simp add: nth_append list_update_append xor.commute)
  qed simp
  from this [OF assms] show ?thesis
    using assms unfolding hmac_pad_def key_block_def
    by (intro nth_equalityI) (auto simp: xor_bytes_def nth_append)
qed

lemma length_key_block: "length key \<le> 64 \<Longrightarrow> length (key_block key) = 64"
  by (simp add: key_block_def)

section \<open>Streaming hashes\<close>

text \<open>
  \<open>repr m s\<close>: the state \<open>s\<close> has taken in the message \<open>m\<close>.  An update with data extends the message; one
  without data is only promised to keep it when the message fills whole blocks.
\<close>

locale incremental_hash =
  fixes init :: "'g \<Rightarrow> 's" and valid :: "'g \<Rightarrow> bool" and update :: "'s \<Rightarrow> bytes \<Rightarrow> 's" and final :: "'s \<Rightarrow> bytes"
    and repr :: "bytes \<Rightarrow> 's \<Rightarrow> bool" and digest :: "bytes \<Rightarrow> bytes" and block :: nat
  assumes init_repr: "valid g \<Longrightarrow> repr [] (init g)"
    and update_repr: "repr m s \<Longrightarrow> d \<noteq> [] \<or> length m mod block = 0 \<Longrightarrow> repr (m @ d) (update s d)"
    and final_digest: "repr m s \<Longrightarrow> final s = digest m"
begin

lemma updates_repr:
  "repr m s \<Longrightarrow> [] \<notin> set ds \<Longrightarrow> repr (m @ concat ds) (fold (\<lambda>d s. update s d) ds s)"
proof (induction ds arbitrary: m s)
  case (Cons d ds)
  then have "repr (m @ d) (update s d)" by (intro update_repr) auto
  then show ?case using Cons.IH [of "m @ d"] Cons.prems(2) by simp
qed simp

lemma stream_digest:
  "valid g \<Longrightarrow> [] \<notin> set ds \<Longrightarrow> final (fold (\<lambda>d s. update s d) ds (init g)) = digest (concat ds)"
  using updates_repr [OF init_repr] final_digest by fastforce

lemma hash_digest: "valid g \<Longrightarrow> final (update (init g) m) = digest m"
  using update_repr [OF init_repr] final_digest by (metis append_Nil length_0_conv mod_0)

end

locale hmac_hash = incremental_hash init valid update final repr digest 64
  for init :: "'g \<Rightarrow> 's" and valid and update :: "'s \<Rightarrow> bytes \<Rightarrow> 's" and final and repr and digest +
  fixes cut :: nat
  assumes digest_length: "cut \<le> length (digest m)" and cut_pos: "0 < cut"
begin

lemma first_block: "valid g \<Longrightarrow> repr x (update (init g) x)"
  using update_repr [OF init_repr] by fastforce

lemma hmac_inner:
  "valid g \<Longrightarrow> length x = 64 \<Longrightarrow> final (update (update (init g) x) m) = digest (x @ m)"
  using final_digest [OF update_repr [OF first_block]] by simp

lemma hmac_digest:
  assumes "valid g" "length key0 = 64"
  shows "final (update (update (init g) (xor_bytes key0 (replicate 64 0x5c)))
      (take cut (final (update (update (init g) (xor_bytes key0 (replicate 64 0x36))) m))))
    = hmac_spec digest (take cut \<circ> digest) key0 m"
  using assms by (simp add: hmac_inner hmac_spec_def)

end

end
