(* ===== verification/Blake256.thy ===== *)
theory Blake256
  imports Stream_Hash
begin

text \<open>
  BLAKE-256, BLAKE-224 and their HMACs: \<^verbatim>\<open>libcryptonote/crypto/blake256.c\<close> and \<^verbatim>\<open>blake256.h\<close>, with the
  wrapper \<^verbatim>\<open>hash-extra-blake.c\<close>.  A \<open>state\<close> is a record with the fields of the C structure; lengths in
  bits are natural numbers (the code's arithmetic on them stays below \<open>2^64\<close>), the counter words wrap.

  The reference is the BLAKE specification: the compression function as four parallel column steps and
  four parallel diagonal steps, the padding rule, and the counter of message bits that is zero for a
  block without message bits.  This theory has the code and the compression function, the theory
  \<open>Blake256_Stream\<close> the rest.
\<close>

unbundle bit_operations_syntax

section \<open>Words\<close>

definition U8TO32 :: "bytes \<Rightarrow> u32" where
  "U8TO32 p = push_bit 24 (ucast (p ! 0)) OR push_bit 16 (ucast (p ! 1)) OR push_bit 8 (ucast (p ! 2)) OR ucast (p ! 3)"

definition U32TO8 :: "u32 \<Rightarrow> bytes" where
  "U32TO8 v = [ucast (drop_bit 24 v), ucast (drop_bit 16 v), ucast (drop_bit 8 v), ucast v]"

definition ROT :: "u32 \<Rightarrow> nat \<Rightarrow> u32" where
  "ROT x n = push_bit (32 - n) x OR drop_bit n x"

section \<open>Tables\<close>

definition sigma :: "nat list list" where
  "sigma =
    [[ 0, 1, 2, 3, 4, 5, 6, 7, 8, 9,10,11,12,13,14,15],
     [14,10, 4, 8, 9,15,13, 6, 1,12, 0, 2,11, 7, 5, 3],
     [11, 8,12, 0, 5, 2,15,13,10,14, 3, 6, 7, 1, 9, 4],
     [ 7, 9, 3, 1,13,12,11,14, 2, 6, 5,10, 4, 0,15, 8],
     [ 9, 0, 5, 7, 2, 4,10,15,14, 1,11,12, 6, 8, 3,13],
     [ 2,12, 6,10, 0,11, 8, 3, 4,13, 7, 5,15,14, 1, 9],
     [12, 5, 1,15,14,13, 4,10, 0, 7, 6, 3, 9, 2, 8,11],
     [13,11, 7,14,12, 1, 3, 9, 5, 0,15, 4, 8, 6, 2,10],
     [ 6,15,14, 9,11, 3, 0, 8,12, 2,13, 7, 1, 4,10, 5],
     [10, 2, 8, 4, 7, 6, 1, 5,15,11, 9,14, 3,12,13, 0],
     [ 0, 1, 2, 3, 4, 5, 6, 7, 8, 9,10,11,12,13,14,15],
     [14,10, 4, 8, 9,15,13, 6, 1,12, 0, 2,11, 7, 5, 3],
     [11, 8,12, 0, 5, 2,15,13,10,14, 3, 6, 7, 1, 9, 4],
     [ 7, 9, 3, 1,13,12,11,14, 2, 6, 5,10, 4, 0,15, 8]]"

definition cst :: "u32 list" where
  "cst =
    [0x243F6A88, 0x85A308D3, 0x13198A2E, 0x03707344,
     0xA4093822, 0x299F31D0, 0x082EFA98, 0xEC4E6C89,
     0x452821E6, 0x38D01377, 0xBE5466CF, 0x34E90C6C,
     0xC0AC29B7, 0xC97C50DD, 0x3F84D5B5, 0xB5470917]"

definition padding :: bytes where
  "padding = 0x80 # replicate 63 0"

section \<open>State and compression\<close>

record blake_state =
  bl_h :: "u32 list"
  bl_s :: "u32 list"
  bl_t0 :: u32
  bl_t1 :: u32
  bl_buflen :: nat
  bl_nullt :: bool
  bl_buf :: bytes

definition G :: "u32 list \<Rightarrow> nat \<Rightarrow> nat \<Rightarrow> nat \<Rightarrow> nat \<Rightarrow> nat \<Rightarrow> nat \<Rightarrow> u32 list \<Rightarrow> u32 list" where
  "G m i a b c d e v =
     (let v = v[a := v ! a + ((m ! (sigma ! i ! e) XOR cst ! (sigma ! i ! (e + 1))) + v ! b)];
          v = v[d := ROT (v ! d XOR v ! a) 16];
          v = v[c := v ! c + v ! d];
          v = v[b := ROT (v ! b XOR v ! c) 12];
          v = v[a := v ! a + ((m ! (sigma ! i ! (e + 1)) XOR cst ! (sigma ! i ! e)) + v ! b)];
          v = v[d := ROT (v ! d XOR v ! a) 8];
          v = v[c := v ! c + v ! d]
      in v[b := ROT (v ! b XOR v ! c) 7])"

definition blake_round :: "u32 list \<Rightarrow> nat \<Rightarrow> u32 list \<Rightarrow> u32 list" where
  "blake_round m i v =
     (let v = G m i 0 4 8 12 0 v;
          v = G m i 1 5 9 13 2 v;
          v = G m i 2 6 10 14 4 v;
          v = G m i 3 7 11 15 6 v;
          v = G m i 3 4 9 14 14 v;
          v = G m i 2 7 8 13 12 v;
          v = G m i 0 5 10 15 8 v
      in G m i 1 6 11 12 10 v)"

definition blake256_compress :: "blake_state \<Rightarrow> bytes \<Rightarrow> blake_state" where
  "blake256_compress S block =
     (let m = map (\<lambda>i. U8TO32 (slice block (i * 4) 4)) [0..<16];
          v = bl_h S @ [bl_s S ! 0 XOR 0x243F6A88, bl_s S ! 1 XOR 0x85A308D3,
                        bl_s S ! 2 XOR 0x13198A2E, bl_s S ! 3 XOR 0x03707344,
                        0xA4093822, 0x299F31D0, 0x082EFA98, 0xEC4E6C89];
          v = (if \<not> bl_nullt S
               then v[12 := v ! 12 XOR bl_t0 S, 13 := v ! 13 XOR bl_t0 S,
                      14 := v ! 14 XOR bl_t1 S, 15 := v ! 15 XOR bl_t1 S]
               else v);
          v = fold (blake_round m) [0..<14] v;
          h = fold (\<lambda>i h. h[i mod 8 := h ! (i mod 8) XOR v ! i]) [0..<16] (bl_h S);
          h = fold (\<lambda>i h. h[i := h ! i XOR bl_s S ! (i mod 4)]) [0..<8] h
      in S\<lparr>bl_h := h\<rparr>)"

section \<open>Streaming\<close>

text \<open>The initialisers leave \<open>buf\<close> as it is on the stack, here the argument.\<close>

definition blake256_init :: "bytes \<Rightarrow> blake_state" where
  "blake256_init stack =
     \<lparr>bl_h = [0x6A09E667, 0xBB67AE85, 0x3C6EF372, 0xA54FF53A, 0x510E527F, 0x9B05688C, 0x1F83D9AB, 0x5BE0CD19],
      bl_s = [0, 0, 0, 0], bl_t0 = 0, bl_t1 = 0, bl_buflen = 0, bl_nullt = False, bl_buf = stack\<rparr>"

definition blake224_init :: "bytes \<Rightarrow> blake_state" where
  "blake224_init stack =
     \<lparr>bl_h = [0xC1059ED8, 0x367CD507, 0x3070DD17, 0xF70E5939, 0xFFC00B31, 0x68581511, 0x64F98FA7, 0xBEFA4FA4],
      bl_s = [0, 0, 0, 0], bl_t0 = 0, bl_t1 = 0, bl_buflen = 0, bl_nullt = False, bl_buf = stack\<rparr>"

text \<open>\<open>S->t[0] += 512; if (S->t[0] == 0) S->t[1]++;\<close>\<close>

definition count_block :: "blake_state \<Rightarrow> blake_state" where
  "count_block S =
     (let S1 = S\<lparr>bl_t0 := bl_t0 S + 512\<rparr> in if bl_t0 S1 = 0 then S1\<lparr>bl_t1 := bl_t1 S1 + 1\<rparr> else S1)"

function update_blocks :: "blake_state \<Rightarrow> bytes \<Rightarrow> nat \<Rightarrow> blake_state \<times> bytes \<times> nat" where
  "update_blocks S data datalen =
     (if datalen \<ge> 512
      then update_blocks (blake256_compress (count_block S) (take 64 data)) (drop 64 data) (datalen - 512)
      else (S, data, datalen))"
  by pat_completeness auto
termination by (relation "measure (\<lambda>(_, _, n). n)") auto

declare update_blocks.simps [simp del]

text \<open>\<open>datalen\<close> is the number of bits.\<close>

definition blake256_update :: "blake_state \<Rightarrow> bytes \<Rightarrow> nat \<Rightarrow> blake_state" where
  "blake256_update S data datalen =
     (let left = bl_buflen S div 8;
          fill = 64 - left;
          (S, data, datalen, left) =
            (if left \<noteq> 0 \<and> datalen div 8 \<ge> fill
             then (let S1 = S\<lparr>bl_buf := blit (bl_buf S) left (take fill data)\<rparr>
                   in (blake256_compress (count_block S1) (bl_buf S1), drop fill data, datalen - fill * 8, 0))
             else (S, data, datalen, left));
          (S, data, datalen) = update_blocks S data datalen
      in if datalen > 0
         then S\<lparr>bl_buf := blit (bl_buf S) left (take (datalen div 8) data), bl_buflen := left * 8 + datalen\<rparr>
         else S\<lparr>bl_buflen := 0\<rparr>)"

definition blake224_update :: "blake_state \<Rightarrow> bytes \<Rightarrow> nat \<Rightarrow> blake_state" where
  "blake224_update S data datalen = blake256_update S data datalen"

definition sub_t0 :: "nat \<Rightarrow> blake_state \<Rightarrow> blake_state" where
  "sub_t0 n S = S\<lparr>bl_t0 := bl_t0 S - of_nat n\<rparr>"

text \<open>The 32 bytes written to \<open>digest\<close>.\<close>

definition blake256_final_h :: "blake_state \<Rightarrow> byte \<Rightarrow> byte \<Rightarrow> bytes" where
  "blake256_final_h S pa pb =
     (let lo = bl_t0 S + of_nat (bl_buflen S);
          hi = (if lo < of_nat (bl_buflen S) then bl_t1 S + 1 else bl_t1 S);
          msglen = U32TO8 hi @ U32TO8 lo;
          S = (if bl_buflen S = 440
               then blake256_update (sub_t0 8 S) [pa] 8
               else
                 let S = (if bl_buflen S < 440
                          then (let S1 = (if bl_buflen S = 0 then S\<lparr>bl_nullt := True\<rparr> else S)
                                in blake256_update (sub_t0 (440 - bl_buflen S) S1) padding (440 - bl_buflen S))
                          else (let S1 = blake256_update (sub_t0 (512 - bl_buflen S) S) padding (512 - bl_buflen S);
                                    S2 = blake256_update (sub_t0 440 S1) (drop 1 padding) 440
                                in S2\<lparr>bl_nullt := True\<rparr>))
                 in sub_t0 8 (blake256_update S [pb] 8));
          S = blake256_update (sub_t0 64 S) msglen 64
      in concat (map U32TO8 (bl_h S)))"

definition blake256_final :: "blake_state \<Rightarrow> bytes" where
  "blake256_final S = blake256_final_h S 0x81 0x01"

definition blake224_final :: "blake_state \<Rightarrow> bytes" where
  "blake224_final S = blake256_final_h S 0x80 0x00"

text \<open>\<open>inlen * 8\<close> is computed in 64 bits.\<close>

definition blake256_hash :: "bytes \<Rightarrow> bytes \<Rightarrow> bytes" where
  "blake256_hash stack inp =
     blake256_final (blake256_update (blake256_init stack) inp (length inp * 8 mod 2 ^ 64))"

definition blake224_hash :: "bytes \<Rightarrow> bytes \<Rightarrow> bytes" where
  "blake224_hash stack inp =
     blake224_final (blake224_update (blake224_init stack) inp (length inp * 8 mod 2 ^ 64))"

definition hash_extra_blake :: "bytes \<Rightarrow> bytes \<Rightarrow> bytes" where
  "hash_extra_blake stack data = blake256_hash stack data"

section \<open>HMAC\<close>

record hmac_state =
  hm_inner :: blake_state
  hm_outer :: blake_state

definition hmac_blake256_init :: "bytes \<Rightarrow> bytes \<Rightarrow> hmac_state" where
  "hmac_blake256_init stack key0 =
     (let key = (if length key0 > 64 then blake256_hash stack key0 else key0)
      in \<lparr>hm_inner = blake256_update (blake256_init stack) (hmac_pad 0x36 key) 512,
          hm_outer = blake256_update (blake256_init stack) (hmac_pad 0x5c key) 512\<rparr>)"

definition hmac_blake224_init :: "bytes \<Rightarrow> bytes \<Rightarrow> hmac_state" where
  "hmac_blake224_init stack key0 =
     (let key = (if length key0 > 64 then take 28 (blake256_hash stack key0) else key0)
      in \<lparr>hm_inner = blake224_update (blake224_init stack) (hmac_pad 0x36 key) 512,
          hm_outer = blake224_update (blake224_init stack) (hmac_pad 0x5c key) 512\<rparr>)"

definition hmac_blake256_update :: "hmac_state \<Rightarrow> bytes \<Rightarrow> nat \<Rightarrow> hmac_state" where
  "hmac_blake256_update S data datalen = S\<lparr>hm_inner := blake256_update (hm_inner S) data datalen\<rparr>"

definition hmac_blake224_update :: "hmac_state \<Rightarrow> bytes \<Rightarrow> nat \<Rightarrow> hmac_state" where
  "hmac_blake224_update S data datalen = S\<lparr>hm_inner := blake224_update (hm_inner S) data datalen\<rparr>"

definition hmac_blake256_final :: "hmac_state \<Rightarrow> bytes" where
  "hmac_blake256_final S =
     blake256_final (blake256_update (hm_outer S) (blake256_final (hm_inner S)) 256)"

definition hmac_blake224_final :: "hmac_state \<Rightarrow> bytes" where
  "hmac_blake224_final S =
     blake224_final (blake224_update (hm_outer S) (blake224_final (hm_inner S)) 224)"

definition hmac_blake256_hash :: "bytes \<Rightarrow> bytes \<Rightarrow> bytes \<Rightarrow> bytes" where
  "hmac_blake256_hash stack key inp =
     hmac_blake256_final (hmac_blake256_update (hmac_blake256_init stack key) inp (length inp * 8 mod 2 ^ 64))"

definition hmac_blake224_hash :: "bytes \<Rightarrow> bytes \<Rightarrow> bytes \<Rightarrow> bytes" where
  "hmac_blake224_hash stack key inp =
     hmac_blake224_final (hmac_blake224_update (hmac_blake224_init stack key) inp (length inp * 8 mod 2 ^ 64))"

section \<open>The compression function of the specification\<close>

text \<open>The mixing of four words with two message terms \<open>x\<close> and \<open>y\<close>.\<close>

definition mix4 :: "u32 \<Rightarrow> u32 \<Rightarrow> u32 \<times> u32 \<times> u32 \<times> u32 \<Rightarrow> u32 \<times> u32 \<times> u32 \<times> u32" where
  "mix4 x y q =
     (case q of (a, b, c, d) \<Rightarrow>
      let a = a + (x + b); d = ROT (d XOR a) 16; c = c + d; b = ROT (b XOR c) 12;
          a = a + (y + b); d = ROT (d XOR a) 8; c = c + d; b = ROT (b XOR c) 7
      in (a, b, c, d))"

text \<open>
  One round: the four columns of the matrix, then its four diagonals, each mixed on its own.  \<open>k\<close>
  numbers the eight mixings of a round.
\<close>

definition msg_term :: "u32 list \<Rightarrow> nat \<Rightarrow> nat \<Rightarrow> nat \<Rightarrow> u32" where
  "msg_term m i p q = m ! (sigma ! (i mod 10) ! p) XOR cst ! (sigma ! (i mod 10) ! q)"

definition spec_mix :: "u32 list \<Rightarrow> nat \<Rightarrow> nat \<Rightarrow> u32 \<times> u32 \<times> u32 \<times> u32 \<Rightarrow> u32 \<times> u32 \<times> u32 \<times> u32" where
  "spec_mix m i k = mix4 (msg_term m i (2 * k) (2 * k + 1)) (msg_term m i (2 * k + 1) (2 * k))"

definition spec_columns :: "u32 list \<Rightarrow> nat \<Rightarrow> u32 list \<Rightarrow> u32 list" where
  "spec_columns m i v =
     (let q = (\<lambda>k. spec_mix m i k (v ! k, v ! (4 + k), v ! (8 + k), v ! (12 + k)))
      in map (\<lambda>k. fst (q k)) [0, 1, 2, 3] @ map (\<lambda>k. fst (snd (q k))) [0, 1, 2, 3]
         @ map (\<lambda>k. fst (snd (snd (q k)))) [0, 1, 2, 3] @ map (\<lambda>k. snd (snd (snd (q k)))) [0, 1, 2, 3])"

definition spec_diagonals :: "u32 list \<Rightarrow> nat \<Rightarrow> u32 list \<Rightarrow> u32 list" where
  "spec_diagonals m i v =
     (let q = (\<lambda>k. spec_mix m i (4 + k)
                (v ! k, v ! (4 + (k + 1) mod 4), v ! (8 + (k + 2) mod 4), v ! (12 + (k + 3) mod 4)))
      in map (\<lambda>k. fst (q k)) [0, 1, 2, 3] @ map (\<lambda>k. fst (snd (q k))) [3, 0, 1, 2]
         @ map (\<lambda>k. fst (snd (snd (q k)))) [2, 3, 0, 1] @ map (\<lambda>k. snd (snd (snd (q k)))) [1, 2, 3, 0])"

text \<open>Chain value, salt, counter (low and high word) and message block give the next chain value.\<close>

definition blake_f :: "u32 list \<Rightarrow> u32 list \<Rightarrow> u32 \<Rightarrow> u32 \<Rightarrow> bytes \<Rightarrow> u32 list" where
  "blake_f h s t0 t1 block =
     (let m = map (\<lambda>i. U8TO32 (slice block (4 * i) 4)) [0..<16];
          v = h @ map2 (XOR) (s @ [t0, t0, t1, t1]) (take 8 cst);
          v = fold (\<lambda>i v. spec_diagonals m i (spec_columns m i v)) [0..<14] v
      in map (\<lambda>i. h ! i XOR v ! i XOR v ! (8 + i) XOR s ! (i mod 4)) [0..<8])"

lemma list_16_ex: "length v = 16 \<Longrightarrow> \<exists>v0 v1 v2 v3 v4 v5 v6 v7 v8 v9 v10 v11 v12 v13 v14 v15.
    v = [v0, v1, v2, v3, v4, v5, v6, v7, v8, v9, v10, v11, v12, v13, v14, v15]"
  by (auto simp: length_Suc_conv eval_nat_numeral)

lemma sigma_period: "i < 14 \<Longrightarrow> sigma ! i = sigma ! (i mod 10)"
proof (cases "i < 10")
  case False
  assume "i < 14"
  with False have "i = 10 \<or> i = 11 \<or> i = 12 \<or> i = 13" by linarith
  then show ?thesis by (elim disjE) (simp_all add: sigma_def)
qed simp

text \<open>The macro is two halves, each of which sets the four named words.\<close>

definition half_mix :: "u32 \<Rightarrow> nat \<Rightarrow> nat \<Rightarrow> u32 \<times> u32 \<times> u32 \<times> u32 \<Rightarrow> u32 \<times> u32 \<times> u32 \<times> u32" where
  "half_mix x r1 r2 q =
     (case q of (a, b, c, d) \<Rightarrow>
      let a = a + (x + b); d = ROT (d XOR a) r1; c = c + d; b = ROT (b XOR c) r2 in (a, b, c, d))"

definition half_G :: "u32 \<Rightarrow> nat \<Rightarrow> nat \<Rightarrow> nat \<Rightarrow> nat \<Rightarrow> nat \<Rightarrow> nat \<Rightarrow> u32 list \<Rightarrow> u32 list" where
  "half_G x r1 r2 a b c d v =
     (let v = v[a := v ! a + (x + v ! b)]; v = v[d := ROT (v ! d XOR v ! a) r1];
          v = v[c := v ! c + v ! d] in v[b := ROT (v ! b XOR v ! c) r2])"

definition set4 :: "nat \<Rightarrow> nat \<Rightarrow> nat \<Rightarrow> nat \<Rightarrow> u32 \<times> u32 \<times> u32 \<times> u32 \<Rightarrow> u32 list \<Rightarrow> u32 list" where
  "set4 a b c d q v = (case q of (A, B, C, D) \<Rightarrow> v[a := A, b := B, c := C, d := D])"

lemma G_halves:
  "G m i a b c d e v = half_G (m ! (sigma ! i ! (e + 1)) XOR cst ! (sigma ! i ! e)) 8 7 a b c d
     (half_G (m ! (sigma ! i ! e) XOR cst ! (sigma ! i ! (e + 1))) 16 12 a b c d v)"
  by (simp only: G_def half_G_def Let_def)

lemma length_set4 [simp]: "length (set4 a b c d q v) = length v"
  by (simp add: set4_def split: prod.splits)

lemma nth_set4:
  assumes "distinct [a, b, c, d]" "a < length v" "b < length v" "c < length v" "d < length v"
  shows "set4 a b c d (A, B, C, D) v ! a = A" "set4 a b c d (A, B, C, D) v ! b = B"
    "set4 a b c d (A, B, C, D) v ! c = C" "set4 a b c d (A, B, C, D) v ! d = D"
  using assms by (auto simp: set4_def)

lemma set4_set4: "distinct [a, b, c, d] \<Longrightarrow> set4 a b c d p (set4 a b c d q v) = set4 a b c d p v"
  by (cases p; cases q) (auto simp: set4_def list_update_swap)

lemma half_G_set4:
  assumes "distinct [a, b, c, d]" "a < length v" "b < length v" "c < length v" "d < length v"
  shows "half_G x r1 r2 a b c d v = set4 a b c d (half_mix x r1 r2 (v ! a, v ! b, v ! c, v ! d)) v"
  using assms
  by (auto simp: half_G_def set4_def half_mix_def Let_def list_update_swap)

lemma mix4_halves: "mix4 x y q = half_mix y 8 7 (half_mix x 16 12 q)"
  by (simp add: mix4_def half_mix_def Let_def split: prod.splits)

lemma length_G [simp]: "length (G m i a b c d e v) = length v"
  by (simp add: G_halves half_G_def Let_def)

lemma G_mix:
  assumes "i < 14" "distinct [a, b, c, d]" "a < length v" "b < length v" "c < length v" "d < length v"
  shows "G m i a b c d (2 * k) v = set4 a b c d (spec_mix m i k (v ! a, v ! b, v ! c, v ! d)) v"
proof -
  let ?x = "msg_term m i (2 * k) (2 * k + 1)" and ?y = "msg_term m i (2 * k + 1) (2 * k)"
  obtain A B C D where h: "half_mix ?x 16 12 (v ! a, v ! b, v ! c, v ! d) = (A, B, C, D)" using prod_cases4 by blast
  have "G m i a b c d (2 * k) v = half_G ?y 8 7 a b c d (half_G ?x 16 12 a b c d v)"
    by (simp only: G_halves msg_term_def sigma_period [OF assms(1)])
  also have "\<dots> = half_G ?y 8 7 a b c d (set4 a b c d (A, B, C, D) v)"
    by (simp only: half_G_set4 [OF assms(2-6)] h)
  also have "\<dots> = set4 a b c d (half_mix ?y 8 7 (A, B, C, D)) (set4 a b c d (A, B, C, D) v)"
    using half_G_set4 [OF assms(2), of "set4 a b c d (A, B, C, D) v"] nth_set4 [OF assms(2-6), of A B C D] assms(3-6)
    by simp
  also have "\<dots> = set4 a b c d (spec_mix m i k (v ! a, v ! b, v ! c, v ! d)) v"
    by (simp only: set4_set4 [OF assms(2)] spec_mix_def mix4_halves h)
  finally show ?thesis .
qed

lemma blake_round_spec:
  assumes "length v = 16" "i < 14"
  shows "blake_round m i v = spec_diagonals m i (spec_columns m i v)"
proof -
  note g = G_mix [OF assms(2), where k = 0, simplified] G_mix [OF assms(2), where k = 1, simplified]
    G_mix [OF assms(2), where k = 2, simplified] G_mix [OF assms(2), where k = 3, simplified]
    G_mix [OF assms(2), where k = 4, simplified] G_mix [OF assms(2), where k = 5, simplified]
    G_mix [OF assms(2), where k = 6, simplified] G_mix [OF assms(2), where k = 7, simplified]
  obtain v0 v1 v2 v3 v4 v5 v6 v7 v8 v9 v10 v11 v12 v13 v14 v15 where
    v: "v = [v0, v1, v2, v3, v4, v5, v6, v7, v8, v9, v10, v11, v12, v13, v14, v15]"
    using list_16_ex [OF assms(1)] by blast
  show ?thesis
    unfolding v blake_round_def spec_columns_def spec_diagonals_def Let_def
    by (simp add: g set4_def split_def)
qed

lemma length_spec_steps [simp]: "length (spec_columns m i v) = 16" "length (spec_diagonals m i v) = 16"
  by (simp_all add: spec_columns_def spec_diagonals_def Let_def)

lemma blake_rounds_spec:
  assumes "length v = 16" "n \<le> 14"
  shows "fold (blake_round m) [0..<n] v = fold (\<lambda>i v. spec_diagonals m i (spec_columns m i v)) [0..<n] v
    \<and> length (fold (\<lambda>i v. spec_diagonals m i (spec_columns m i v)) [0..<n] v) = 16"
  using assms(2)
proof (induction n)
  case (Suc n)
  then show ?case using blake_round_spec [of _ n m] by simp
qed (simp add: assms(1))

lemma list_4_ex: "length s = 4 \<Longrightarrow> \<exists>s0 s1 s2 s3. s = [s0, s1, s2, s3]"
  by (auto simp: length_Suc_conv eval_nat_numeral)

text \<open>The last two loops of the compression.\<close>

lemma feed_forward:
  assumes "length h = 8" "length v = 16" "length s = 4"
  shows "fold (\<lambda>i h. h[i := h ! i XOR s ! (i mod 4)]) [0..<8]
     (fold (\<lambda>i h. h[i mod 8 := h ! (i mod 8) XOR v ! i]) [0..<16] h)
   = map (\<lambda>i. h ! i XOR v ! i XOR v ! (8 + i) XOR s ! (i mod 4)) [0..<8]"
proof -
  obtain h0 h1 h2 h3 h4 h5 h6 h7 where h: "h = [h0, h1, h2, h3, h4, h5, h6, h7]"
    using list_8_ex [OF assms(1)] by blast
  obtain v0 v1 v2 v3 v4 v5 v6 v7 v8 v9 v10 v11 v12 v13 v14 v15 where
    v: "v = [v0, v1, v2, v3, v4, v5, v6, v7, v8, v9, v10, v11, v12, v13, v14, v15]"
    using list_16_ex [OF assms(2)] by blast
  obtain s0 s1 s2 s3 where s: "s = [s0, s1, s2, s3]" using list_4_ex [OF assms(3)] by blast
  show ?thesis unfolding upt_8 upt_16 h v s by (simp add: xor_ac)
qed

lemma compress_spec:
  assumes "length (bl_h S) = 8" "length (bl_s S) = 4"
  shows "blake256_compress S block = S\<lparr>bl_h := blake_f (bl_h S) (bl_s S)
     (if bl_nullt S then 0 else bl_t0 S) (if bl_nullt S then 0 else bl_t1 S) block\<rparr>"
proof -
  obtain s0 s1 s2 s3 where s: "bl_s S = [s0, s1, s2, s3]" using list_4_ex [OF assms(2)] by blast
  obtain h0 h1 h2 h3 h4 h5 h6 h7 where h: "bl_h S = [h0, h1, h2, h3, h4, h5, h6, h7]"
    using list_8_ex [OF assms(1)] by blast
  define t0 t1 where "t0 = (if bl_nullt S then 0 else bl_t0 S)" and "t1 = (if bl_nullt S then 0 else bl_t1 S)"
  let ?m = "map (\<lambda>i. U8TO32 (slice block (4 * i) 4)) [0..<16]"
  define v where "v = bl_h S @ map2 (XOR) (bl_s S @ [t0, t0, t1, t1]) (take 8 cst)"
  have v0: "(if \<not> bl_nullt S then (bl_h S @ [s0 XOR 0x243F6A88, s1 XOR 0x85A308D3, s2 XOR 0x13198A2E,
        s3 XOR 0x03707344, 0xA4093822, 0x299F31D0, 0x082EFA98, 0xEC4E6C89])
          [12 := 0xA4093822 XOR bl_t0 S, 13 := 0x299F31D0 XOR bl_t0 S, 14 := 0x082EFA98 XOR bl_t1 S, 15 := 0xEC4E6C89 XOR bl_t1 S]
      else bl_h S @ [s0 XOR 0x243F6A88, s1 XOR 0x85A308D3, s2 XOR 0x13198A2E,
        s3 XOR 0x03707344, 0xA4093822, 0x299F31D0, 0x082EFA98, 0xEC4E6C89]) = v"
    unfolding v_def s h t0_def t1_def by (simp add: cst_def xor.commute)
  have lv: "length v = 16" unfolding v_def s h by (simp add: cst_def)
  define w where "w = fold (\<lambda>i v. spec_diagonals ?m i (spec_columns ?m i v)) [0..<14] v"
  have w: "fold (blake_round ?m) [0..<14] v = w" "length w = 16"
    using blake_rounds_spec [OF lv, of 14 ?m] unfolding w_def by blast+
  have "blake256_compress S block = S\<lparr>bl_h := fold (\<lambda>i h. h[i := h ! i XOR bl_s S ! (i mod 4)]) [0..<8]
     (fold (\<lambda>i h. h[i mod 8 := h ! (i mod 8) XOR w ! i]) [0..<16] (bl_h S))\<rparr>"
    unfolding blake256_compress_def Let_def w(1) [symmetric] v0 [symmetric]
    by (simp add: s h nth_append mult.commute del: upt_rec_numeral)
  also have "\<dots> = S\<lparr>bl_h := blake_f (bl_h S) (bl_s S) t0 t1 block\<rparr>"
    unfolding feed_forward [OF assms(1) w(2) assms(2)] blake_f_def Let_def v_def [symmetric] w_def [symmetric] ..
  finally show ?thesis by (simp only: t0_def t1_def)
qed

end
