(* ===== verification/Blake256_Stream.thy ===== *)
theory Blake256_Stream
  imports Blake256
begin

text \<open>
  Streaming, padding and HMAC of \<^verbatim>\<open>blake256.c\<close> against the BLAKE specification.  \<open>blake_inv h0 m S\<close> says
  what a state holds after the message \<open>m\<close>: its whole blocks compressed with the right counters, the
  rest in the buffer.  Updates keep it for the longer message, \<open>blake256_final_h\<close> turns it into the digest
  of the specification in all three padding cases.  The locales \<open>incremental_hash\<close> and
  \<open>hmac_hash\<close> are interpreted for both digest sizes.

  The exception is shown too: an empty update forgets what is in the buffer.
\<close>

unbundle bit_operations_syntax

section \<open>The hash of the specification\<close>

definition blake_pad :: "byte \<Rightarrow> byte \<Rightarrow> bytes \<Rightarrow> bytes" where
  "blake_pad pa pb m =
     (let r = length m mod 64 in
      m @ (if r = 55 then [pa] else 0x80 # replicate ((118 - r) mod 64) 0 @ [pb])
        @ U32TO8 (count_hi (8 * length m)) @ U32TO8 (count_lo (8 * length m)))"

text \<open>Block \<open>i\<close> is compressed with the number of message bits up to its end, or zero if it has none.\<close>

definition block_count :: "bytes \<Rightarrow> nat \<Rightarrow> nat" where
  "block_count m i = (if 64 * i < length m then min (8 * length m) (512 * (i + 1)) else 0)"

definition spec_step :: "bytes \<Rightarrow> bytes \<Rightarrow> nat \<Rightarrow> u32 list \<Rightarrow> u32 list" where
  "spec_step m p i h =
     blake_f h [0, 0, 0, 0] (count_lo (block_count m i)) (count_hi (block_count m i)) (slice p (64 * i) 64)"

definition blake_digest :: "u32 list \<Rightarrow> byte \<Rightarrow> byte \<Rightarrow> bytes \<Rightarrow> bytes" where
  "blake_digest h0 pa pb m =
     (let p = blake_pad pa pb m in concat (map U32TO8 (fold (spec_step m p) [0..<length p div 64] h0)))"

section \<open>Streaming refines the specification\<close>

text \<open>The chain value after the first \<open>k\<close> whole blocks of a message.\<close>

definition chain :: "u32 list \<Rightarrow> bytes \<Rightarrow> nat \<Rightarrow> u32 list" where
  "chain h0 m k =
     fold (\<lambda>i h. blake_f h [0, 0, 0, 0] (count_lo (512 * (i + 1))) (count_hi (512 * (i + 1))) (slice m (64 * i) 64))
       [0..<k] h0"

definition core :: "u32 list \<Rightarrow> bytes \<Rightarrow> nat \<Rightarrow> blake_state \<Rightarrow> bool" where
  "core h0 m k S \<longleftrightarrow> bl_h S = chain h0 m k \<and> bl_s S = [0, 0, 0, 0] \<and> \<not> bl_nullt S
     \<and> bl_t0 S = count_lo (512 * k) \<and> bl_t1 S = count_hi (512 * k)"

text \<open>What the state holds after the message \<open>m\<close>: its whole blocks compressed, the rest in the buffer.\<close>

definition blake_inv :: "u32 list \<Rightarrow> bytes \<Rightarrow> blake_state \<Rightarrow> bool" where
  "blake_inv h0 m S \<longleftrightarrow> core h0 m (length m div 64) S \<and> bl_buflen S = 8 * (length m mod 64)
     \<and> length (bl_buf S) = 64 \<and> take (length m mod 64) (bl_buf S) = drop (64 * (length m div 64)) m"

lemma length_blake_f [simp]: "length (blake_f h s t0 t1 b) = 8"
  by (simp add: blake_f_def Let_def)

lemma length_chain: "length h0 = 8 \<Longrightarrow> length (chain h0 m k) = 8"
  by (induction k) (simp_all add: chain_def)

lemma chain_append: "64 * k \<le> length m \<Longrightarrow> chain h0 (m @ d) k = chain h0 m k"
  by (induction k) (simp_all add: chain_def slice_def)

lemma count_block_core:
  "count_hi (512 * (k + 1)) = (if count_lo (512 * k) + 512 = 0 then count_hi (512 * k) + 1 else count_hi (512 * k))"
  "count_lo (512 * (k + 1)) = count_lo (512 * k) + 512"
proof -
  have "count_lo (512 * k) + 512 = (of_nat (512 * (k + 1)) :: u32)" by (simp add: count_lo_def add.commute)
  then have "count_lo (512 * k) + 512 = 0 \<longleftrightarrow> 2 ^ 32 dvd 512 * (k + 1)"
    by (simp only: word_of_nat_eq_0_iff) simp
  also have "(2::nat) ^ 32 = 512 * 2 ^ 23" by simp
  also have "512 * 2 ^ 23 dvd 512 * (k + 1) \<longleftrightarrow> 2 ^ 23 dvd k + 1" by (rule dvd_times_left_cancel_iff) simp
  finally have c: "count_lo (512 * k) + 512 = 0 \<longleftrightarrow> Suc k mod 2 ^ 23 = 0" by (simp add: dvd_eq_mod_eq_0)
  have d: "512 * n div 2 ^ 32 = n div 2 ^ 23" for n :: nat
    using div_mult_mult1 [of 512 n "2 ^ 23"] by simp
  show "count_hi (512 * (k + 1)) = (if count_lo (512 * k) + 512 = 0 then count_hi (512 * k) + 1 else count_hi (512 * k))"
    unfolding count_hi_def d using c by (simp add: div_Suc)
qed (simp add: count_lo_def add.commute)

lemma count_block_fields:
  "bl_h (count_block S) = bl_h S" "bl_s (count_block S) = bl_s S" "bl_nullt (count_block S) = bl_nullt S"
  "bl_buf (count_block S) = bl_buf S" "bl_t0 (count_block S) = bl_t0 S + 512"
  "bl_t1 (count_block S) = (if bl_t0 S + 512 = 0 then bl_t1 S + 1 else bl_t1 S)"
  by (simp_all add: count_block_def Let_def)

lemma core_step:
  assumes "core h0 m k S" "length h0 = 8" "b = slice m (64 * k) 64"
  shows "core h0 m (k + 1) (blake256_compress (count_block S) b)"
    "bl_buf (blake256_compress (count_block S) b) = bl_buf S"
proof -
  let ?S = "count_block S"
  have t: "bl_t0 ?S = count_lo (512 * (k + 1))" "bl_t1 ?S = count_hi (512 * (k + 1))"
    using assms(1) unfolding core_def by (simp_all only: count_block_fields count_block_core)
  have c: "blake256_compress ?S b = ?S\<lparr>bl_h := blake_f (chain h0 m k) [0, 0, 0, 0]
      (count_lo (512 * (k + 1))) (count_hi (512 * (k + 1))) b\<rparr>"
    using compress_spec [of ?S b] assms(1,2) t
    by (simp add: core_def count_block_fields length_chain)
  have "chain h0 m (k + 1) = blake_f (chain h0 m k) [0, 0, 0, 0] (count_lo (512 * (k + 1))) (count_hi (512 * (k + 1))) b"
    by (simp add: chain_def assms(3))
  then show "core h0 m (k + 1) (blake256_compress ?S b)"
    using assms(1) t unfolding c core_def by (simp add: count_block_fields)
  show "bl_buf (blake256_compress ?S b) = bl_buf S" unfolding c by (simp add: count_block_fields)
qed

text \<open>The loop over whole blocks, from block \<open>k\<close> of the message to its last.\<close>

lemma update_blocks_core:
  assumes "core h0 m k S" "length h0 = 8" "64 * k \<le> length m"
  shows "\<exists>S'. update_blocks S (drop (64 * k) m) (8 * (length m - 64 * k))
      = (S', drop (64 * (length m div 64)) m, 8 * (length m mod 64))
    \<and> core h0 m (length m div 64) S' \<and> bl_buf S' = bl_buf S"
  using assms(1,3)
proof (induction "length m - 64 * k" arbitrary: k S rule: less_induct)
  case less
  show ?case
  proof (cases "64 * (k + 1) \<le> length m")
    case True
    let ?b = "slice m (64 * k) 64"
    let ?S = "blake256_compress (count_block S) ?b"
    have "update_blocks S (drop (64 * k) m) (8 * (length m - 64 * k))
        = update_blocks ?S (drop (64 * (k + 1)) m) (8 * (length m - 64 * (k + 1)))"
    proof -
      have n: "8 * (length m - 64 * k) \<ge> 512" "8 * (length m - 64 * k) - 512 = 8 * (length m - 64 * (k + 1))"
        using True by simp_all
      have d: "drop 64 (drop (64 * k) m) = drop (64 * (k + 1)) m" by (simp add: add.commute)
      show ?thesis by (subst update_blocks.simps) (simp only: n if_True d slice_def)
    qed
    moreover have "length m - 64 * (k + 1) < length m - 64 * k" using True by simp
    ultimately show ?thesis
      using less.hyps [of "k + 1" ?S] core_step [OF less.prems(1) assms(2) refl] True by auto
  next
    case False
    have "k = length m div 64" using False less.prems(2) by (intro div_nat_eqI [symmetric]) auto
    moreover from this have "length m - 64 * k = length m mod 64" by (simp add: modulo_nat_def)
    ultimately show ?thesis
      using less.prems(1) False by (subst update_blocks.simps) auto
  qed
qed

text \<open>Storing \<open>n\<close> bytes that do not fill the buffer, and filling it exactly.\<close>

lemma update_store:
  assumes "bl_buflen S = 8 * left" "left + n < 64" "0 < n" "n \<le> length data"
  shows "blake256_update S data (8 * n) = S\<lparr>bl_buf := blit (bl_buf S) left (take n data), bl_buflen := 8 * (left + n)\<rparr>"
proof -
  have "\<not> 64 - left \<le> n" using assms by simp
  then show ?thesis
    using assms by (simp add: blake256_update_def Let_def update_blocks.simps [of _ _ "8 * n"])
qed

lemma update_fill:
  assumes "bl_buflen S = 8 * left" "left + n = 64" "0 < left" "0 < n" "n \<le> length data"
  defines "b \<equiv> blit (bl_buf S) left (take n data)"
  shows "blake256_update S data (8 * n)
    = (blake256_compress (count_block (S\<lparr>bl_buf := b\<rparr>)) b)\<lparr>bl_buflen := 0\<rparr>"
proof -
  have "64 - left = n" using assms by simp
  then show ?thesis
    using assms by (simp add: blake256_update_def Let_def update_blocks.simps [of _ _ 0])
qed

lemma core_update_fields:
  "core h0 m k (S\<lparr>bl_buf := b\<rparr>) = core h0 m k S" "core h0 m k (S\<lparr>bl_buflen := n\<rparr>) = core h0 m k S"
  by (simp_all add: core_def)

lemma core_append: "64 * k \<le> length m \<Longrightarrow> core h0 (m @ d) k S = core h0 m k S"
  by (simp add: core_def chain_append)

text \<open>The end of an update: the rest of the message goes to the start of the buffer.\<close>

lemma update_rest:
  assumes "core h0 m k S" "length h0 = 8" "64 * k \<le> length m" "length (bl_buf S) = 64"
  shows "\<exists>S'. (case update_blocks S (drop (64 * k) m) (8 * (length m - 64 * k)) of (S, data, datalen) \<Rightarrow>
       if datalen > 0
         then S\<lparr>bl_buf := blit (bl_buf S) 0 (take (datalen div 8) data), bl_buflen := 0 * 8 + datalen\<rparr>
         else S\<lparr>bl_buflen := 0\<rparr>) = S' \<and> blake_inv h0 m S'"
proof -
  let ?K = "length m div 64" and ?r = "length m mod 64"
  obtain S1 where u: "update_blocks S (drop (64 * k) m) (8 * (length m - 64 * k)) = (S1, drop (64 * ?K) m, 8 * ?r)"
    and c: "core h0 m ?K S1" and b: "bl_buf S1 = bl_buf S" using update_blocks_core [OF assms(1-3)] by blast
  have l: "length (drop (64 * ?K) m) = ?r" by (simp add: modulo_nat_def)
  show ?thesis
  proof (cases "?r = 0")
    case True
    then show ?thesis using u c b l assms(4) by (simp add: blake_inv_def core_update_fields)
  next
    case False
    have "?r < 64" by simp
    then show ?thesis using u c b l assms(4) False
      by (simp add: blake_inv_def core_update_fields blit_def)
  qed
qed

lemma update_inv:
  assumes "blake_inv h0 m S" "length h0 = 8" "d \<noteq> []"
  shows "blake_inv h0 (m @ d) (blake256_update S d (8 * length d))"
proof -
  let ?M = "m @ d"
  define r k where "r = length m mod 64" and "k = length m div 64"
  have inv: "core h0 m k S" "bl_buflen S = 8 * r" "length (bl_buf S) = 64" "take r (bl_buf S) = drop (64 * k) m"
    using assms(1) by (simp_all add: blake_inv_def r_def k_def)
  have m: "length m = 64 * k + r" "r < 64" by (simp_all add: r_def k_def)
  have cM: "core h0 ?M k S" using inv(1) m core_append [of k m h0 d S] by simp
  consider "r = 0" | "r \<noteq> 0" "64 - r \<le> length d" | "r \<noteq> 0" "length d < 64 - r" by linarith
  then show ?thesis
  proof cases
    case 1
    have e: "drop (64 * k) ?M = d" "length ?M - 64 * k = length d" using 1 m by simp_all
    show ?thesis
      using update_rest [OF cM assms(2) _ inv(3)] m 1 inv(2) unfolding e
      by (simp add: blake256_update_def Let_def)
  next
    case 2
    let ?n = "64 - r"
    let ?b = "blit (bl_buf S) r (take ?n d)"
    let ?S1 = "S\<lparr>bl_buf := ?b\<rparr>"
    have b: "?b = slice ?M (64 * k) 64"
    proof -
      have "?b = take r (bl_buf S) @ take ?n d" using 2 inv(3) m(2) by (simp add: blit_def)
      also have "\<dots> = slice ?M (64 * k) 64" using inv(4) m 2 by (simp add: slice_def)
      finally show ?thesis .
    qed
    have c1: "core h0 ?M (k + 1) (blake256_compress (count_block ?S1) ?b)"
      "bl_buf (blake256_compress (count_block ?S1) ?b) = ?b"
      using core_step [of h0 ?M k ?S1 ?b] cM assms(2) b by (simp_all add: core_update_fields)
    have e: "drop (64 * (k + 1)) ?M = drop ?n d" "8 * (length ?M - 64 * (k + 1)) = 8 * length d - ?n * 8"
      "64 * (k + 1) \<le> length ?M" "length ?b = 64"
      using m 2 inv(3) by (simp_all add: algebra_simps)
    have "blake256_update S d (8 * length d) = (case update_blocks (blake256_compress (count_block ?S1) ?b)
        (drop (64 * (k + 1)) ?M) (8 * (length ?M - 64 * (k + 1))) of (S, data, datalen) \<Rightarrow>
       if datalen > 0
         then S\<lparr>bl_buf := blit (bl_buf S) 0 (take (datalen div 8) data), bl_buflen := 0 * 8 + datalen\<rparr>
         else S\<lparr>bl_buflen := 0\<rparr>)"
      unfolding e using 2 inv(2) by (simp add: blake256_update_def Let_def)
    then show ?thesis using update_rest [OF c1(1) assms(2) e(3)] c1(2) e(4) by simp
  next
    case 3
    have e: "length ?M = 64 * k + (r + length d)" "r + length d < 64" using m 3 by simp_all
    have "(64 * k + x) div 64 = k" "(64 * k + x) mod 64 = x" if "x < 64" for x using that by simp_all
    then have q: "length ?M div 64 = k" "length ?M mod 64 = r + length d" using e by metis+
    have "blake256_update S d (8 * length d) = S\<lparr>bl_buf := blit (bl_buf S) r d, bl_buflen := 8 * (r + length d)\<rparr>"
      using 3 inv(2) assms(3) e(2) update_store [of S r "length d" d] by simp
    then show ?thesis
      unfolding blake_inv_def q using 3 inv m(1) cM by (simp add: core_update_fields blit_def)
  qed
qed

section \<open>Finishing\<close>

lemma update_fill_h:
  assumes "bl_buflen S = 8 * left" "left + n = 64" "0 < left" "0 < n" "n \<le> length data"
    "length (bl_h S) = 8" "bl_s S = [0, 0, 0, 0]" "length (bl_buf S) = 64" "bl_nullt S \<or> bl_t0 S + 512 \<noteq> 0"
  defines "b \<equiv> take left (bl_buf S) @ take n data"
  shows "\<exists>t1. blake256_update S data (8 * n) = S\<lparr>bl_h := blake_f (bl_h S) [0, 0, 0, 0]
      (if bl_nullt S then 0 else bl_t0 S + 512) (if bl_nullt S then 0 else bl_t1 S) b,
    bl_t0 := bl_t0 S + 512, bl_t1 := t1, bl_buflen := 0, bl_buf := b\<rparr>
    \<and> (bl_nullt S \<or> t1 = bl_t1 S)"
proof -
  have b: "blit (bl_buf S) left (take n data) = b" using assms by (simp add: b_def blit_def)
  have "blake256_update S data (8 * n) = (blake256_compress (count_block (S\<lparr>bl_buf := b\<rparr>)) b)\<lparr>bl_buflen := 0\<rparr>"
    using update_fill [OF assms(1-5)] b by simp
  also have "\<dots> = (count_block (S\<lparr>bl_buf := b\<rparr>))\<lparr>bl_h := blake_f (bl_h S) [0, 0, 0, 0]
      (if bl_nullt S then 0 else bl_t0 S + 512) (if bl_nullt S then 0 else bl_t1 S) b, bl_buflen := 0\<rparr>"
    using assms(6,7,9) by (auto simp: compress_spec count_block_fields)
  also have "count_block (S\<lparr>bl_buf := b\<rparr>) = S\<lparr>bl_buf := b, bl_t0 := bl_t0 S + 512,
      bl_t1 := (if bl_t0 S + 512 = 0 then bl_t1 S + 1 else bl_t1 S)\<rparr>"
    by (simp add: count_block_def Let_def)
  finally show ?thesis
    using assms(9) by (intro exI [of _ "if bl_t0 S + 512 = 0 then bl_t1 S + 1 else bl_t1 S"]) auto
qed

text \<open>A counter with bits left over from a whole block is not zero and does not carry.\<close>

lemma count_rest:
  assumes "0 < b" "b < 512"
  shows "count_lo (512 * k) + of_nat b \<noteq> 0" "\<not> count_lo (512 * k) + of_nat b < of_nat b"
    "count_lo (512 * k) + of_nat b = count_lo (512 * k + b)" "count_hi (512 * k + b) = count_hi (512 * k)"
proof -
  have m: "(512 * k + b) mod 2 ^ 32 = 512 * (k mod 2 ^ 23) + b"
  proof -
    have "(512 * k) mod 2 ^ 32 = 512 * (k mod 2 ^ 23)" using mult_mod_right [of 512 k "2 ^ 23"] by simp
    moreover have "512 * (k mod 2 ^ 23) + b < 2 ^ 32"
    proof -
      have "k mod 2 ^ 23 < 2 ^ 23" by simp
      then have "512 * (k mod 2 ^ 23) \<le> 512 * (2 ^ 23 - 1)" by (intro mult_le_mono2) simp
      then show ?thesis using assms(2) by simp
    qed
    moreover have "(512 * k + b) mod 2 ^ 32 = ((512 * k) mod 2 ^ 32 + b) mod 2 ^ 32" by (simp only: mod_add_left_eq)
    ultimately show ?thesis by (simp only: mod_less)
  qed
  show lo: "count_lo (512 * k) + of_nat b = count_lo (512 * k + b)" by (simp add: count_lo_def)
  have u: "unat (count_lo (512 * k + b)) = 512 * (k mod 2 ^ 23) + b"
    using m unfolding count_lo_def by (simp add: unat_of_nat del: of_nat_add of_nat_mult)
  show "count_lo (512 * k) + of_nat b \<noteq> 0" using u assms(1) unfolding lo by auto
  have "unat (of_nat b :: u32) = b" using assms(2) by (intro of_nat_inverse) simp_all
  then show "\<not> count_lo (512 * k) + of_nat b < of_nat b" unfolding lo word_less_nat_alt u by simp
  have d: "n div 2 ^ 32 = n div 512 div 2 ^ 23" for n :: nat using div_mult2_eq [of n 512 "2 ^ 23"] by simp
  have "(512 * k + b) div 512 = 512 * k div 512" using assms(2) by simp
  then have "(512 * k + b) div 2 ^ 32 = 512 * k div 2 ^ 32" by (simp only: d)
  then show "count_hi (512 * k + b) = count_hi (512 * k)" by (simp add: count_hi_def)
qed

lemma length_padding [simp]: "length padding = 64"
  by (simp add: padding_def)

lemma length_U32TO8 [simp]: "length (U32TO8 v) = 4"
  by (simp add: U32TO8_def)

lemma take_padding: "0 < n \<Longrightarrow> n \<le> 64 \<Longrightarrow> take n padding = 0x80 # replicate (n - 1) 0"
  by (cases n) (simp_all add: padding_def min_def)

text \<open>The first \<open>k\<close> steps of the specification are the chain, since their blocks lie in the message.\<close>

lemma spec_chain:
  "64 * k \<le> length m \<Longrightarrow> fold (spec_step m (m @ q)) [0..<k] h0 = chain h0 m k"
proof (induction k)
  case (Suc k)
  have "block_count m k = 512 * (k + 1)" using Suc.prems by (simp add: block_count_def)
  then show ?case using Suc by (simp add: chain_def spec_step_def slice_def)
qed (simp add: chain_def)

text \<open>The last block: 56 bytes in the buffer, then the length.\<close>

lemma last_block:
  assumes "bl_buflen S = 448" "bl_h S = h" "length h = 8" "bl_s S = [0, 0, 0, 0]" "length (bl_buf S) = 64"
    "length msglen = 8" "take 56 (bl_buf S) = q" "bl_nullt S \<and> c = 0 \<or> \<not> bl_nullt S \<and> c \<noteq> 0 \<and> bl_t0 S + 448 = c \<and> bl_t1 S = d"
    "bl_nullt S \<longrightarrow> d = 0"
  shows "bl_h (blake256_update (sub_t0 64 S) msglen 64) = blake_f h [0, 0, 0, 0] c d (q @ msglen)"
proof -
  have n: "(64::nat) = 8 * 8" "(448::nat) = 8 * 56" by simp_all
  have t: "bl_t0 (sub_t0 64 S) + 512 = bl_t0 S + 448" by (simp add: sub_t0_def)
  have "bl_nullt (sub_t0 64 S) \<or> bl_t0 (sub_t0 64 S) + 512 \<noteq> 0"
    using assms(8) unfolding t by (auto simp: sub_t0_def)
  then have "bl_h (blake256_update (sub_t0 64 S) msglen (8 * 8)) = blake_f (bl_h (sub_t0 64 S)) [0, 0, 0, 0]
      (if bl_nullt (sub_t0 64 S) then 0 else bl_t0 (sub_t0 64 S) + 512)
      (if bl_nullt (sub_t0 64 S) then 0 else bl_t1 (sub_t0 64 S)) (take 56 (bl_buf (sub_t0 64 S)) @ take 8 msglen)"
    using update_fill_h [of "sub_t0 64 S" 56 8 msglen] assms(1-6) by (fastforce simp: sub_t0_def)
  then show ?thesis
    using assms(2,6-9) unfolding n(1) [symmetric] t by (auto simp: sub_t0_def)
qed

text \<open>The state before the length is appended, and what the three padding cases make of it.\<close>

definition padded_state :: "blake_state \<Rightarrow> byte \<Rightarrow> byte \<Rightarrow> blake_state" where
  "padded_state S pa pb =
     (if bl_buflen S = 440
      then blake256_update (sub_t0 8 S) [pa] 8
      else
        let S = (if bl_buflen S < 440
                 then (let S1 = (if bl_buflen S = 0 then S\<lparr>bl_nullt := True\<rparr> else S)
                       in blake256_update (sub_t0 (440 - bl_buflen S) S1) padding (440 - bl_buflen S))
                 else (let S1 = blake256_update (sub_t0 (512 - bl_buflen S) S) padding (512 - bl_buflen S);
                           S2 = blake256_update (sub_t0 440 S1) (drop 1 padding) 440
                       in S2\<lparr>bl_nullt := True\<rparr>))
        in sub_t0 8 (blake256_update S [pb] 8))"

definition msglen_bytes :: "nat \<Rightarrow> bytes" where
  "msglen_bytes c = U32TO8 (count_hi c) @ U32TO8 (count_lo c)"

definition fin_ready :: "u32 list \<Rightarrow> nat \<Rightarrow> nat \<Rightarrow> bytes \<Rightarrow> blake_state \<Rightarrow> bool" where
  "fin_ready h k r q S \<longleftrightarrow> bl_h S = h \<and> length h = 8 \<and> bl_s S = [0, 0, 0, 0] \<and> \<not> bl_nullt S
     \<and> bl_t0 S = count_lo (512 * k) \<and> bl_t1 S = count_hi (512 * k) \<and> bl_buflen S = 8 * r \<and> r < 64
     \<and> length (bl_buf S) = 64 \<and> take r (bl_buf S) = q"

lemma final_h_padded:
  assumes "fin_ready h k r q S"
  shows "blake256_final_h S pa pb = concat (map U32TO8
    (bl_h (blake256_update (sub_t0 64 (padded_state S pa pb)) (msglen_bytes (512 * k + 8 * r)) 64)))"
proof -
  have t: "bl_t0 S = count_lo (512 * k)" "bl_t1 S = count_hi (512 * k)" "bl_buflen S = 8 * r" "r < 64"
    using assms by (simp_all add: fin_ready_def)
  have "(if bl_t0 S + of_nat (bl_buflen S) < of_nat (bl_buflen S) then bl_t1 S + 1 else bl_t1 S) = count_hi (512 * k + 8 * r)"
    "bl_t0 S + of_nat (bl_buflen S) = count_lo (512 * k + 8 * r)"
    unfolding t(1-3) using t(4) count_rest [of "8 * r" k]
    by (cases "r = 0"; simp)+
  then show ?thesis
    unfolding blake256_final_h_def padded_state_def msglen_bytes_def by (simp add: Let_def)
qed

lemma fin_one_byte:
  assumes "fin_ready h k 55 q S"
  shows "bl_h (blake256_update (sub_t0 64 (padded_state S pa pb)) (msglen_bytes c) 64)
    = blake_f h [0, 0, 0, 0] (count_lo (512 * k + 440)) (count_hi (512 * k + 440)) ((q @ [pa]) @ msglen_bytes c)"
proof -
  have i: "bl_h S = h" "length h = 8" "bl_s S = [0, 0, 0, 0]" "\<not> bl_nullt S" "bl_t0 S = count_lo (512 * k)"
    "bl_t1 S = count_hi (512 * k)" "bl_buflen S = 440" "length (bl_buf S) = 64" "take 55 (bl_buf S) = q"
    using assms by (simp_all add: fin_ready_def)
  have p: "padded_state S pa pb = (sub_t0 8 S)\<lparr>bl_buf := blit (bl_buf S) 55 [pa], bl_buflen := 448\<rparr>"
    using i update_store [of "sub_t0 8 S" 55 1 "[pa]"] by (simp add: padded_state_def sub_t0_def)
  have lq: "length q = 55" using arg_cong [OF i(9), of length] i(8) by simp
  have t: "440 + count_lo (512 * k) = count_lo (512 * k + 440)" "count_lo (512 * k + 440) \<noteq> 0"
    "count_hi (512 * k + 440) = count_hi (512 * k)"
    using count_rest [of 440 k] by (simp_all add: add.commute)
  show ?thesis
    using i lq t unfolding p
    by (intro last_block) (simp_all add: sub_t0_def msglen_bytes_def blit_def)
qed

lemma fin_short:
  assumes "fin_ready h k r q S" "r < 55"
  shows "bl_h (blake256_update (sub_t0 64 (padded_state S pa pb)) (msglen_bytes c) 64)
    = blake_f h [0, 0, 0, 0] (if r = 0 then 0 else count_lo (512 * k + 8 * r))
        (if r = 0 then 0 else count_hi (512 * k + 8 * r)) ((q @ 0x80 # replicate (54 - r) 0 @ [pb]) @ msglen_bytes c)"
proof -
  have i: "bl_h S = h" "length h = 8" "bl_s S = [0, 0, 0, 0]" "\<not> bl_nullt S" "bl_t0 S = count_lo (512 * k)"
    "bl_t1 S = count_hi (512 * k)" "bl_buflen S = 8 * r" "length (bl_buf S) = 64" "take r (bl_buf S) = q"
    using assms by (simp_all add: fin_ready_def)
  define S0 where "S0 = sub_t0 (440 - 8 * r) (if r = 0 then S\<lparr>bl_nullt := True\<rparr> else S)"
  have n: "440 - 8 * r = 8 * (55 - r)" "8 * r \<noteq> 440" "8 * r < 440" using assms(2) by simp_all
  have f: "bl_buflen S0 = 8 * r" "bl_buf S0 = bl_buf S" "bl_h S0 = h" "bl_s S0 = [0, 0, 0, 0]"
    "bl_nullt S0 = (r = 0)" "bl_t1 S0 = count_hi (512 * k)" "bl_t0 S0 = count_lo (512 * k) - of_nat (440 - 8 * r)"
    using i by (simp_all add: S0_def sub_t0_def)
  define b1 where "b1 = blit (bl_buf S) r (take (55 - r) padding)"
  have lq: "length q = r" using arg_cong [OF i(9), of length] i(8) assms(2) by simp
  have u1: "blake256_update S0 padding (8 * (55 - r)) = S0\<lparr>bl_buf := b1, bl_buflen := 440\<rparr>"
    using update_store [of S0 r "55 - r" padding] assms(2) f by (simp add: b1_def)
  have b1: "length b1 = 64" "take 55 b1 = q @ 0x80 # replicate (54 - r) 0"
    using assms(2) i(8,9) lq Suc_diff_Suc [of r 54] by (simp_all add: b1_def blit_def take_padding take_Cons')
  have p: "padded_state S pa pb = sub_t0 8 (S0\<lparr>bl_buf := blit b1 55 [pb], bl_buflen := 448\<rparr>)"
    using u1 update_store [of "S0\<lparr>bl_buf := b1, bl_buflen := 440\<rparr>" 55 1 "[pb]"] n i(7)
    by (simp add: padded_state_def Let_def S0_def)
  have t: "count_lo (512 * k) - of_nat (440 - 8 * r) - 8 + 448 = count_lo (512 * k) + of_nat (8 * r)"
    using n(3) by (simp add: of_nat_diff)
  have b2: "length (blit b1 55 [pb]) = 64" "take 56 (blit b1 55 [pb]) = q @ 0x80 # replicate (54 - r) 0 @ [pb]"
  proof -
    have "take 56 (blit b1 55 [pb]) = take 55 b1 @ [pb]" using b1(1) by (simp add: blit_def)
    then show "take 56 (blit b1 55 [pb]) = q @ 0x80 # replicate (54 - r) 0 @ [pb]" using b1(2) by simp
  qed (use b1(1) in simp)
  show ?thesis
    using i(2) f b2 count_rest [of "8 * r" k] assms(2) t unfolding p
    by (intro last_block) (auto simp: sub_t0_def msglen_bytes_def)
qed

lemma fin_long:
  assumes "fin_ready h k r q S" "55 < r"
  shows "bl_h (blake256_update (sub_t0 64 (padded_state S pa pb)) (msglen_bytes c) 64)
    = blake_f (blake_f h [0, 0, 0, 0] (count_lo (512 * k + 8 * r)) (count_hi (512 * k + 8 * r)) (q @ 0x80 # replicate (63 - r) 0))
        [0, 0, 0, 0] 0 0 ((replicate 55 0 @ [pb]) @ msglen_bytes c)"
proof -
  have i: "bl_h S = h" "length h = 8" "bl_s S = [0, 0, 0, 0]" "\<not> bl_nullt S" "bl_t0 S = count_lo (512 * k)"
    "bl_t1 S = count_hi (512 * k)" "bl_buflen S = 8 * r" "r < 64" "length (bl_buf S) = 64" "take r (bl_buf S) = q"
    using assms by (simp_all add: fin_ready_def)
  define S0 where "S0 = sub_t0 (512 - 8 * r) S"
  have f: "bl_buflen S0 = 8 * r" "bl_buf S0 = bl_buf S" "bl_h S0 = h" "bl_s S0 = [0, 0, 0, 0]" "\<not> bl_nullt S0"
    "bl_t1 S0 = count_hi (512 * k)" "bl_t0 S0 + 512 = count_lo (512 * k + 8 * r)"
    using i count_rest [of "8 * r" k] assms(2) by (simp_all add: S0_def sub_t0_def of_nat_diff)
  have nz: "count_lo (512 * k + 8 * r) \<noteq> 0" using count_rest [of "8 * r" k] i(8) assms(2) by simp
  let ?b = "q @ 0x80 # replicate (63 - r) 0"
  let ?h = "blake_f h [0, 0, 0, 0] (count_lo (512 * k + 8 * r)) (count_hi (512 * k + 8 * r)) ?b"
  have n: "512 - 8 * r = 8 * (64 - r)" "8 * r \<noteq> 440" "\<not> 8 * r < 440" "(440::nat) = 8 * 55" using assms(2) by simp_all
  obtain t1 where u1: "blake256_update S0 padding (8 * (64 - r)) = S0\<lparr>bl_h := ?h, bl_t0 := count_lo (512 * k + 8 * r),
      bl_t1 := t1, bl_buflen := 0, bl_buf := ?b\<rparr>"
  proof -
    have e: "take r (bl_buf S0) @ take (64 - r) padding = ?b"
      using f(2) i(8,10) assms(2) by (simp add: take_padding)
    have nn: "bl_nullt S0 \<or> bl_t0 S0 + 512 \<noteq> 0" "length (bl_h S0) = 8" "length (bl_buf S0) = 64"
      using nz f i by simp_all
    have "r + (64 - r) = 64" "0 < r" "0 < 64 - r" "64 - r \<le> length padding" using i(8) assms(2) by simp_all
    from update_fill_h [OF f(1) this nn(2) f(4) nn(3,1)]
    show ?thesis using that f(5,6) count_rest(4) [of "8 * r" k] i(8) assms(2)
      unfolding e f(3,7) by force
  qed
  define S1 where "S1 = S0\<lparr>bl_h := ?h, bl_t0 := count_lo (512 * k + 8 * r), bl_t1 := t1, bl_buflen := 0, bl_buf := ?b\<rparr>"
  have lq: "length q = r" using arg_cong [OF i(10), of length] i(8,9) by simp
  have z: "take 55 (drop 1 padding) = replicate 55 0" by (simp add: padding_def)
  have u2: "blake256_update (sub_t0 440 S1) (drop 1 padding) 440
      = (sub_t0 440 S1)\<lparr>bl_buf := blit ?b 0 (replicate 55 0), bl_buflen := 440\<rparr>"
    using update_store [of "sub_t0 440 S1" 0 55 "drop 1 padding"] z by (simp add: S1_def sub_t0_def)
  have u3: "blake256_update ((sub_t0 440 S1)\<lparr>bl_buf := blit ?b 0 (replicate 55 0), bl_buflen := 440, bl_nullt := True\<rparr>) [pb] 8
      = (sub_t0 440 S1)\<lparr>bl_buf := blit (blit ?b 0 (replicate 55 0)) 55 [pb], bl_buflen := 448, bl_nullt := True\<rparr>"
    using update_store [of "(sub_t0 440 S1)\<lparr>bl_buf := blit ?b 0 (replicate 55 0), bl_buflen := 440, bl_nullt := True\<rparr>" 55 1 "[pb]"]
    by simp
  have p: "padded_state S pa pb = sub_t0 8 ((sub_t0 440 S1)\<lparr>bl_buf := blit (blit ?b 0 (replicate 55 0)) 55 [pb], bl_buflen := 448, bl_nullt := True\<rparr>)"
  proof -
    have "padded_state S pa pb = sub_t0 8 (blake256_update ((blake256_update (sub_t0 440
        (blake256_update S0 padding (512 - 8 * r))) (drop 1 padding) 440)\<lparr>bl_nullt := True\<rparr>) [pb] 8)"
      unfolding padded_state_def i(7) S0_def Let_def using n(2,3) by (simp only: if_False)
    then show ?thesis unfolding n(1) u1 S1_def [symmetric] u2 u3 .
  qed
  show ?thesis
    using f(4) lq assms(2) i(8) unfolding p
    by (intro last_block) (simp_all add: sub_t0_def msglen_bytes_def blit_def S1_def)
qed

lemma digest_chain:
  assumes "64 * k \<le> length m" "length (m @ x) = 64 * (k + j)"
  shows "fold (spec_step m (m @ x)) [0..<length (m @ x) div 64] h0 = fold (spec_step m (m @ x)) [k..<k + j] (chain h0 m k)"
proof -
  have n: "length (m @ x) div 64 = k + j" unfolding assms(2) by simp
  have u: "[0..<k + j] = [0..<k] @ [k..<k + j]" by (rule upt_add_eq_append) simp
  show ?thesis unfolding n u fold_append comp_apply spec_chain [OF assms(1)] ..
qed

lemma spec_step_rest:
  assumes "length m = 64 * k + r" "r < 64"
  shows "spec_step m (m @ x) k h = blake_f h [0, 0, 0, 0] (if r = 0 then 0 else count_lo (512 * k + 8 * r))
    (if r = 0 then 0 else count_hi (512 * k + 8 * r)) (take 64 (drop (64 * k) m @ x))"
  "spec_step m (m @ x) (Suc k) h = blake_f h [0, 0, 0, 0] 0 0 (take 64 (drop (64 - r) x))"
proof -
  have "block_count m k = (if r = 0 then 0 else 512 * k + 8 * r)" using assms by (simp add: block_count_def)
  then show "spec_step m (m @ x) k h = blake_f h [0, 0, 0, 0] (if r = 0 then 0 else count_lo (512 * k + 8 * r))
    (if r = 0 then 0 else count_hi (512 * k + 8 * r)) (take 64 (drop (64 * k) m @ x))"
    using assms(1) by (simp add: spec_step_def slice_def count_lo_def count_hi_def)
  have "block_count m (Suc k) = 0" using assms by (simp add: block_count_def)
  moreover have "64 * Suc k - length m = 64 - r" using assms by simp
  ultimately show "spec_step m (m @ x) (Suc k) h = blake_f h [0, 0, 0, 0] 0 0 (take 64 (drop (64 - r) x))"
    using assms by (simp add: spec_step_def slice_def count_lo_def count_hi_def)
qed

lemma length_msglen_bytes [simp]: "length (msglen_bytes c) = 8"
  by (simp add: msglen_bytes_def)

lemma final_spec:
  assumes "blake_inv h0 m S" "length h0 = 8"
  shows "blake256_final_h S pa pb = blake_digest h0 pa pb m"
proof -
  define r k where "r = length m mod 64" and "k = length m div 64"
  define q where "q = drop (64 * k) m"
  have m: "length m = 64 * k + r" "r < 64" by (simp_all add: r_def k_def)
  have lq: "length q = r" using m by (simp add: q_def)
  have ready: "fin_ready (chain h0 m k) k r q S"
    using assms length_chain [OF assms(2)] by (simp add: blake_inv_def core_def r_def k_def q_def fin_ready_def)
  have L: "8 * length m = 512 * k + 8 * r" using m by simp
  let ?ml = "msglen_bytes (512 * k + 8 * r)"
  define x where "x = (if r = 55 then [pa] else 0x80 # replicate ((118 - r) mod 64) 0 @ [pb]) @ ?ml"
  have pad: "blake_pad pa pb m = m @ x"
    unfolding blake_pad_def Let_def r_def [symmetric] x_def msglen_bytes_def L by simp
  note step = spec_step_rest [OF m, of x, folded q_def]
  have k: "64 * k \<le> length m" using m by simp
  consider "r = 55" | "r < 55" | "55 < r" by linarith
  then have "fold (spec_step m (m @ x)) [0..<length (m @ x) div 64] h0
     = bl_h (blake256_update (sub_t0 64 (padded_state S pa pb)) ?ml 64)"
  proof cases
    case 1
    have "length (m @ x) = 64 * (k + 1)" using m 1 by (simp add: x_def)
    moreover have "take 64 (q @ x) = (q @ [pa]) @ ?ml" using 1 lq by (simp add: x_def)
    ultimately show ?thesis
      using digest_chain [OF k, of x 1] step(1) fin_one_byte [of _ k q S pa pb] ready 1 by simp
  next
    case 2
    have z: "(118 - r) mod 64 = 54 - r"
    proof -
      have "118 - r = 64 + (54 - r)" using 2 by simp
      moreover have "(64 + (54 - r)) mod 64 = 54 - r" unfolding mod_add_self1 using 2 by simp
      ultimately show ?thesis by (simp only:)
    qed
    have "length (m @ x) = 64 * (k + 1)" using m 2 z by (simp add: x_def)
    moreover have "take 64 (q @ x) = (q @ 0x80 # replicate (54 - r) 0 @ [pb]) @ ?ml" using 2 lq z by (simp add: x_def)
    ultimately show ?thesis
      using digest_chain [OF k, of x 1] step(1) fin_short [OF ready 2, of pa pb] by simp
  next
    case 3
    have z: "(118 - r) mod 64 = 118 - r" using 3 by simp
    have "replicate (118 - r) (0::byte) = replicate (63 - r) 0 @ replicate 55 0"
      using 3 m(2) by (simp flip: replicate_add)
    then have x: "x = (0x80 # replicate (63 - r) 0) @ (replicate 55 0 @ [pb]) @ ?ml" using 3 z by (simp add: x_def)
    have "length (m @ x) = 64 * (k + 2)" using m 3 by (simp add: x)
    moreover have "take 64 (q @ x) = q @ 0x80 # replicate (63 - r) 0"
    proof -
      have "take 64 (q @ y @ z) = q @ y" if "length y = 64 - r" for y z using that lq m(2) by simp
      then show ?thesis unfolding x using m(2) by (simp only: length_Cons length_replicate)
    qed
    moreover have "take 64 (drop (64 - r) x) = (replicate 55 0 @ [pb]) @ ?ml"
    proof -
      have "drop (64 - r) (y @ z) = z" if "length y = 64 - r" for y z :: bytes using that by simp
      then have "drop (64 - r) x = (replicate 55 0 @ [pb]) @ ?ml"
        unfolding x using m(2) by (simp only: length_Cons length_replicate)
      then show ?thesis by simp
    qed
    ultimately show ?thesis
      using digest_chain [OF k, of x 2] step fin_long [OF ready 3, of pa pb] 3 by (simp add: numeral_2_eq_2)
  qed
  then show ?thesis
    unfolding final_h_padded [OF ready] blake_digest_def pad Let_def by simp
qed

section \<open>BLAKE as a streaming hash\<close>

definition IV256 :: "u32 list" where
  "IV256 = bl_h (blake256_init [])"

definition IV224 :: "u32 list" where
  "IV224 = bl_h (blake224_init [])"

definition blake256_digest :: "bytes \<Rightarrow> bytes" where
  "blake256_digest = blake_digest IV256 0x81 0x01"

definition blake224_digest :: "bytes \<Rightarrow> bytes" where
  "blake224_digest = blake_digest IV224 0x80 0x00"

text \<open>An update given as whole bytes.\<close>

definition update_bytes :: "blake_state \<Rightarrow> bytes \<Rightarrow> blake_state" where
  "update_bytes S d = blake256_update S d (8 * length d)"

lemma init_inv:
  "length stack = 64 \<Longrightarrow> blake_inv IV256 [] (blake256_init stack)"
  "length stack = 64 \<Longrightarrow> blake_inv IV224 [] (blake224_init stack)"
  by (simp_all add: blake_inv_def core_def chain_def IV256_def IV224_def blake256_init_def blake224_init_def
      count_lo_def count_hi_def)

lemma empty_update: "bl_buflen S < 512 \<Longrightarrow> blake256_update S [] 0 = S\<lparr>bl_buflen := 0\<rparr>"
  using less_mult_imp_div_less [of "bl_buflen S" 64 8]
  by (simp add: blake256_update_def Let_def update_blocks.simps [of _ _ 0])

lemma update_bytes_inv:
  assumes "blake_inv h0 m S" "length h0 = 8" "d \<noteq> [] \<or> length m mod 64 = 0"
  shows "blake_inv h0 (m @ d) (update_bytes S d)"
proof (cases "d = []")
  case True
  then show ?thesis using assms by (simp add: update_bytes_def empty_update blake_inv_def core_update_fields)
qed (use update_inv [OF assms(1,2)] in \<open>simp add: update_bytes_def\<close>)

lemma length_IV [simp]: "length IV256 = 8" "length IV224 = 8"
  by (simp_all add: IV256_def IV224_def blake256_init_def blake224_init_def)

lemma length_blake_digest:
  assumes "length h0 = 8"
  shows "length (blake_digest h0 pa pb m) = 32"
proof -
  have "length (fold (spec_step m p) xs h0) = 8" for p xs
    using assms by (induction xs arbitrary: h0) (simp_all add: spec_step_def)
  then show ?thesis by (simp add: blake_digest_def Let_def length_concat comp_def sum_list_triv)
qed

interpretation blake256: hmac_hash blake256_init "\<lambda>g. length g = 64" update_bytes blake256_final
  "blake_inv IV256" blake256_digest 32
  by unfold_locales
    (auto simp: init_inv update_bytes_inv final_spec blake256_final_def blake256_digest_def length_blake_digest)

interpretation blake224: hmac_hash blake224_init "\<lambda>g. length g = 64" update_bytes blake224_final
  "blake_inv IV224" blake224_digest 28
  by unfold_locales
    (auto simp: init_inv update_bytes_inv final_spec blake224_final_def blake224_digest_def length_blake_digest)

section \<open>HMAC on BLAKE\<close>

text \<open>An update reads only as many bytes as it is told to.\<close>

lemma update_prefix:
  assumes "blake_inv h0 m S" "length m mod 64 = 0" "0 < n" "n < 64" "n \<le> length d"
  shows "blake256_update S d (8 * n) = update_bytes S (take n d)"
proof -
  have l: "bl_buflen S = 8 * 0" using assms(1,2) by (simp add: blake_inv_def)
  show ?thesis
    unfolding update_bytes_def
    using update_store [OF l, of n d] update_store [OF l, of n "take n d"] assms(3-5) by simp
qed

text \<open>The calls of an HMAC with a key that is not hashed.\<close>

definition hmac256_key :: "bytes \<Rightarrow> bytes \<Rightarrow> bytes \<Rightarrow> bytes" where
  "hmac256_key stack key m =
     blake256_final (blake256_update (blake256_update (blake256_init stack) (hmac_pad 0x5c key) 512)
       (blake256_final (blake256_update (blake256_update (blake256_init stack) (hmac_pad 0x36 key) 512) m (8 * length m))) 256)"

definition hmac224_key :: "bytes \<Rightarrow> bytes \<Rightarrow> bytes \<Rightarrow> bytes" where
  "hmac224_key stack key m =
     blake224_final (blake256_update (blake256_update (blake224_init stack) (hmac_pad 0x5c key) 512)
       (blake224_final (blake256_update (blake256_update (blake224_init stack) (hmac_pad 0x36 key) 512) m (8 * length m))) 224)"

lemma update_pad: "length key \<le> 64 \<Longrightarrow> blake256_update S (hmac_pad c key) 512
    = update_bytes S (xor_bytes (key_block key) (replicate 64 c))"
  by (simp add: update_bytes_def hmac_pad_eq length_key_block)

lemma length_digest: "length (blake256_digest x) = 32" "length (blake224_digest x) = 32"
  by (simp_all add: blake256_digest_def blake224_digest_def length_blake_digest)

lemma hmac256_key_spec:
  assumes "length stack = 64" "length key \<le> 64"
  shows "hmac256_key stack key m = hmac_spec blake256_digest blake256_digest (key_block key) m"
proof -
  let ?p = "\<lambda>c. xor_bytes (key_block key) (replicate 64 c)"
  have i: "blake256_final (update_bytes (update_bytes (blake256_init stack) (?p 0x36)) m) = blake256_digest (?p 0x36 @ m)"
    using assms length_key_block by (intro blake256.hmac_inner) simp_all
  have "hmac256_key stack key m
      = blake256_final (update_bytes (update_bytes (blake256_init stack) (?p 0x5c)) (blake256_digest (?p 0x36 @ m)))"
    unfolding hmac256_key_def update_pad [OF assms(2)] i [symmetric]
    unfolding i [unfolded update_bytes_def [of _ m]] i by (simp add: update_bytes_def length_digest)
  also have "\<dots> = blake256_digest (?p 0x5c @ blake256_digest (?p 0x36 @ m))"
    using assms length_key_block by (intro blake256.hmac_inner) simp_all
  finally show ?thesis by (simp add: hmac_spec_def)
qed

lemma hmac224_key_spec:
  assumes "length stack = 64" "length key \<le> 64"
  shows "hmac224_key stack key m = hmac_spec blake224_digest (take 28 \<circ> blake224_digest) (key_block key) m"
proof -
  let ?p = "\<lambda>c. xor_bytes (key_block key) (replicate 64 c)"
  let ?o = "update_bytes (blake224_init stack) (?p 0x5c)"
  have l: "length (?p c) = 64" for c using assms(2) length_key_block by simp
  have i: "blake224_final (update_bytes (update_bytes (blake224_init stack) (?p 0x36)) m) = blake224_digest (?p 0x36 @ m)"
    using assms(1) l by (rule blake224.hmac_inner)
  have "blake_inv IV224 (?p 0x5c) ?o" using assms(1) by (rule blake224.first_block)
  then have "blake256_update ?o (blake224_digest x) (8 * 28) = update_bytes ?o (take 28 (blake224_digest x))" for x
    by (rule update_prefix) (simp_all add: length_digest l del: length_xor_bytes)
  then have "hmac224_key stack key m = blake224_final (update_bytes ?o (take 28 (blake224_digest (?p 0x36 @ m))))"
    unfolding hmac224_key_def update_pad [OF assms(2)] i [unfolded update_bytes_def [of _ m]] by simp
  then show ?thesis using blake224.hmac_digest [OF assms(1) length_key_block [OF assms(2)], of m] unfolding i by simp
qed

section \<open>Properties\<close>

text \<open>C12: (streaming refines the specification) Whatever bytes the buffer holds at the start, a message
  given in any number of non-empty pieces has the digest of the BLAKE specification for the whole
  message: padding with the length, one counter value per block, salt zero.  The one-call functions give
  the same digest, also for the empty message, up to the length where the bit count overflows.
\<close>

theorem blake_streaming_refines_spec:
  assumes "length stack = 64" "[] \<notin> set ds" "length m < 2 ^ 61"
  shows "blake256_final (fold (\<lambda>d S. blake256_update S d (8 * length d)) ds (blake256_init stack)) = blake256_digest (concat ds)
    \<and> blake224_final (fold (\<lambda>d S. blake224_update S d (8 * length d)) ds (blake224_init stack)) = blake224_digest (concat ds)
    \<and> blake256_hash stack m = blake256_digest m \<and> blake224_hash stack m = blake224_digest m
    \<and> hash_extra_blake stack m = blake256_digest m"
  using blake256.stream_digest [OF assms(1,2)] blake224.stream_digest [OF assms(1,2)]
    blake256.hash_digest [OF assms(1), of m] blake224.hash_digest [OF assms(1), of m] assms(3)
  by (simp add: update_bytes_def blake256_hash_def blake224_hash_def blake224_update_def
      hash_extra_blake_def mult.commute)

theorem blake_streaming_refines_spec_witness:
  "blake256_final (blake256_update (blake256_update (blake256_init (replicate 64 7)) [1, 2] 16) [3] 8) = blake256_digest [1, 2, 3]
    \<and> blake256_hash (replicate 64 7) [] = blake256_digest []"
  using blake_streaming_refines_spec [of "replicate 64 7" "[[1, 2], [3]]" "[]"] by simp

text \<open>(an empty update drops the buffer) After a message \<open>m\<close>, an update with no data leaves the state of
  the message cut down to its whole blocks: the bytes waiting in the buffer are lost.  The digest is then
  the one of the shorter message.
\<close>

theorem empty_update_drops_buffer:
  assumes "blake_inv IV256 m S"
  shows "blake_inv IV256 (take (64 * (length m div 64)) m) (blake256_update S [] 0)
    \<and> blake256_final (blake256_update S [] 0) = blake256_digest (take (64 * (length m div 64)) m)"
proof -
  let ?m = "take (64 * (length m div 64)) m"
  have l: "length ?m = 64 * (length m div 64)" by simp
  have "bl_buflen S < 512" using assms by (simp add: blake_inv_def)
  moreover have "core IV256 ?m (length m div 64) S"
    using assms core_append [of "length m div 64" ?m IV256 "drop (64 * (length m div 64)) m" S]
    by (simp add: blake_inv_def)
  ultimately have "blake_inv IV256 ?m (blake256_update S [] 0)"
    using assms unfolding blake_inv_def l by (simp add: empty_update core_update_fields)
  then show ?thesis using blake256.final_digest by blast
qed

theorem empty_update_drops_buffer_witness:
  "blake256_final (blake256_update (blake256_update (blake256_init (replicate 64 0)) [1, 2, 3] 24) [] 0)
    = blake256_digest []"
proof -
  have "blake_inv IV256 ([] @ [1, 2, 3]) (blake256_update (blake256_init (replicate 64 0)) [1, 2, 3] (8 * length [1::byte, 2, 3]))"
    by (rule update_inv [OF init_inv(1)]) simp_all
  then show ?thesis using empty_update_drops_buffer [of "[1, 2, 3]"] by simp
qed

text \<open>C31: (HMAC) For a key of at most 64 bytes the two functions are HMAC over BLAKE-256, and over BLAKE-224
  with the inner digest cut to its 28 bytes.  A longer key is replaced by its BLAKE-256 digest, and in the
  224-bit function by the first 28 bytes of its BLAKE-256 digest, not by its BLAKE-224 digest.
\<close>

theorem hmac_blake_refines_spec:
  assumes "length stack = 64" "length m < 2 ^ 61" "length key < 2 ^ 61"
  shows "hmac_blake256_hash stack key m = hmac_spec blake256_digest blake256_digest
      (key_block (if length key \<le> 64 then key else blake256_digest key)) m
    \<and> hmac_blake224_hash stack key m = hmac_spec blake224_digest (take 28 \<circ> blake224_digest)
      (key_block (if length key \<le> 64 then key else take 28 (blake256_digest key))) m"
proof
  let ?k256 = "if length key \<le> 64 then key else blake256_digest key"
  let ?k224 = "if length key \<le> 64 then key else take 28 (blake256_digest key)"
  have h: "blake256_hash stack key = blake256_digest key"
    using blake256.hash_digest [OF assms(1), of key] assms(3)
    by (simp add: update_bytes_def blake256_hash_def mult.commute)
  have m: "length m * 8 mod 18446744073709551616 = 8 * length m" using assms(2) by simp
  have k: "length ?k256 \<le> 64" "length ?k224 \<le> 64" by (simp_all add: length_digest)
  show "hmac_blake256_hash stack key m = hmac_spec blake256_digest blake256_digest (key_block ?k256) m"
  proof -
    have "hmac_blake256_hash stack key m = hmac256_key stack ?k256 m"
      by (simp add: hmac_blake256_hash_def hmac_blake256_final_def hmac_blake256_update_def hmac_blake256_init_def
          hmac256_key_def Let_def m h)
    then show ?thesis using hmac256_key_spec [OF assms(1) k(1)] by simp
  qed
  show "hmac_blake224_hash stack key m = hmac_spec blake224_digest (take 28 \<circ> blake224_digest) (key_block ?k224) m"
  proof -
    have "hmac_blake224_hash stack key m = hmac224_key stack ?k224 m"
      by (simp add: hmac_blake224_hash_def hmac_blake224_final_def hmac_blake224_update_def hmac_blake224_init_def
          blake224_update_def hmac224_key_def Let_def m h)
    then show ?thesis using hmac224_key_spec [OF assms(1) k(2)] by simp
  qed
qed

theorem hmac_blake_refines_spec_witness:
  "hmac_blake256_hash (replicate 64 0) [1, 2] [3] = hmac_spec blake256_digest blake256_digest (key_block [1, 2]) [3]
    \<and> hmac_blake224_hash (replicate 64 0) (replicate 65 1) [3]
      = hmac_spec blake224_digest (take 28 \<circ> blake224_digest) (key_block (take 28 (blake256_digest (replicate 65 1)))) [3]"
  using hmac_blake_refines_spec [of "replicate 64 0" "[3]" "[1, 2]"]
    hmac_blake_refines_spec [of "replicate 64 0" "[3]" "replicate 65 1"]
  by simp

end
