(* ===== verification/Sha256.thy ===== *)
theory Sha256
  imports Stream_Hash
begin

text \<open>
  SHA-256, HMAC-SHA-256 and PBKDF2 of \<^verbatim>\<open>libmultihash/sha256.h\<close>.  A context is a record with the fields of
  the C structure; \<open>size_t\<close> lengths are natural numbers, the bit counter is its two 32-bit words.

  The second part relates the block function to FIPS 180-4: the message schedule as a recurrence, the
  working variables \<open>a\<close> to \<open>h\<close> shifted in every round.  The code keeps the variables in place and rotates
  the indices instead, and writes \<open>Ch\<close> and \<open>Maj\<close> with fewer operations.
\<close>

unbundle bit_operations_syntax

section \<open>Words and bytes\<close>

definition be32dec :: "bytes \<Rightarrow> u32" where
  "be32dec p = ucast (p ! 3) + push_bit 8 (ucast (p ! 2)) + push_bit 16 (ucast (p ! 1)) + push_bit 24 (ucast (p ! 0))"

definition be32enc :: "u32 \<Rightarrow> bytes" where
  "be32enc x = [ucast (drop_bit 24 x AND 0xff), ucast (drop_bit 16 x AND 0xff), ucast (drop_bit 8 x AND 0xff), ucast (x AND 0xff)]"

definition le32dec :: "bytes \<Rightarrow> u32" where
  "le32dec p = ucast (p ! 0) + push_bit 8 (ucast (p ! 1)) + push_bit 16 (ucast (p ! 2)) + push_bit 24 (ucast (p ! 3))"

definition le32enc :: "u32 \<Rightarrow> bytes" where
  "le32enc x = [ucast (x AND 0xff), ucast (drop_bit 8 x AND 0xff), ucast (drop_bit 16 x AND 0xff), ucast (drop_bit 24 x AND 0xff)]"

definition be32enc_vect :: "u32 list \<Rightarrow> nat \<Rightarrow> bytes" where
  "be32enc_vect src len = concat (map (\<lambda>i. be32enc (src ! i)) [0..<len div 4])"

definition be32dec_vect :: "bytes \<Rightarrow> nat \<Rightarrow> u32 list" where
  "be32dec_vect src len = map (\<lambda>i. be32dec (slice src (i * 4) 4)) [0..<len div 4]"

section \<open>The block function\<close>

definition Ch :: "u32 \<Rightarrow> u32 \<Rightarrow> u32 \<Rightarrow> u32" where
  "Ch x y z = (x AND (y XOR z)) XOR z"

definition Maj :: "u32 \<Rightarrow> u32 \<Rightarrow> u32 \<Rightarrow> u32" where
  "Maj x y z = (x AND (y OR z)) OR (y AND z)"

definition SHR :: "u32 \<Rightarrow> nat \<Rightarrow> u32" where
  "SHR x n = drop_bit n x"

definition ROTR :: "u32 \<Rightarrow> nat \<Rightarrow> u32" where
  "ROTR x n = drop_bit n x OR push_bit (32 - n) x"

definition Sigma0 :: "u32 \<Rightarrow> u32" where
  "Sigma0 x = ROTR x 2 XOR ROTR x 13 XOR ROTR x 22"

definition Sigma1 :: "u32 \<Rightarrow> u32" where
  "Sigma1 x = ROTR x 6 XOR ROTR x 11 XOR ROTR x 25"

definition sigma0 :: "u32 \<Rightarrow> u32" where
  "sigma0 x = ROTR x 7 XOR ROTR x 18 XOR SHR x 3"

definition sigma1 :: "u32 \<Rightarrow> u32" where
  "sigma1 x = ROTR x 17 XOR ROTR x 19 XOR SHR x 10"

text \<open>The macro, with the positions of its eight variables in the array.\<close>

definition RND :: "nat \<Rightarrow> nat \<Rightarrow> nat \<Rightarrow> nat \<Rightarrow> nat \<Rightarrow> nat \<Rightarrow> nat \<Rightarrow> nat \<Rightarrow> u32 \<Rightarrow> u32 list \<Rightarrow> u32 list" where
  "RND a b c d e f g h k S =
     (let t0 = S ! h + Sigma1 (S ! e) + Ch (S ! e) (S ! f) (S ! g) + k;
          t1 = Sigma0 (S ! a) + Maj (S ! a) (S ! b) (S ! c);
          S = S[d := S ! d + t0]
      in S[h := t0 + t1])"

definition RNDr :: "u32 list \<Rightarrow> nat \<Rightarrow> u32 \<Rightarrow> u32 list \<Rightarrow> u32 list" where
  "RNDr W i k S =
     RND ((64 - i) mod 8) ((65 - i) mod 8) ((66 - i) mod 8) ((67 - i) mod 8)
       ((68 - i) mod 8) ((69 - i) mod 8) ((70 - i) mod 8) ((71 - i) mod 8) (W ! i + k) S"

text \<open>The 64 calls of \<open>RNDr\<close>, each with its round number and its constant, in order.\<close>

definition round_calls :: "(nat \<times> u32) list" where
  "round_calls =
    [(0, 0x428a2f98), (1, 0x71374491), (2, 0xb5c0fbcf), (3, 0xe9b5dba5),
     (4, 0x3956c25b), (5, 0x59f111f1), (6, 0x923f82a4), (7, 0xab1c5ed5),
     (8, 0xd807aa98), (9, 0x12835b01), (10, 0x243185be), (11, 0x550c7dc3),
     (12, 0x72be5d74), (13, 0x80deb1fe), (14, 0x9bdc06a7), (15, 0xc19bf174),
     (16, 0xe49b69c1), (17, 0xefbe4786), (18, 0x0fc19dc6), (19, 0x240ca1cc),
     (20, 0x2de92c6f), (21, 0x4a7484aa), (22, 0x5cb0a9dc), (23, 0x76f988da),
     (24, 0x983e5152), (25, 0xa831c66d), (26, 0xb00327c8), (27, 0xbf597fc7),
     (28, 0xc6e00bf3), (29, 0xd5a79147), (30, 0x06ca6351), (31, 0x14292967),
     (32, 0x27b70a85), (33, 0x2e1b2138), (34, 0x4d2c6dfc), (35, 0x53380d13),
     (36, 0x650a7354), (37, 0x766a0abb), (38, 0x81c2c92e), (39, 0x92722c85),
     (40, 0xa2bfe8a1), (41, 0xa81a664b), (42, 0xc24b8b70), (43, 0xc76c51a3),
     (44, 0xd192e819), (45, 0xd6990624), (46, 0xf40e3585), (47, 0x106aa070),
     (48, 0x19a4c116), (49, 0x1e376c08), (50, 0x2748774c), (51, 0x34b0bcb5),
     (52, 0x391c0cb3), (53, 0x4ed8aa4a), (54, 0x5b9cca4f), (55, 0x682e6ff3),
     (56, 0x748f82ee), (57, 0x78a5636f), (58, 0x84c87814), (59, 0x8cc70208),
     (60, 0x90befffa), (61, 0xa4506ceb), (62, 0xbef9a3f7), (63, 0xc67178f2)]"

definition round_constants :: "u32 list" where
  "round_constants = map snd round_calls"

definition prepare_schedule :: "bytes \<Rightarrow> u32 list" where
  "prepare_schedule block =
     fold (\<lambda>i W. W[i := sigma1 (W ! (i - 2)) + W ! (i - 7) + sigma0 (W ! (i - 15)) + W ! (i - 16)])
       [16..<64] (be32dec_vect block 64 @ replicate 48 0)"

definition SHA256_Transform :: "u32 list \<Rightarrow> bytes \<Rightarrow> u32 list" where
  "SHA256_Transform state block =
     (let W = prepare_schedule block;
          S = fold (\<lambda>(i, k). RNDr W i k) round_calls state
      in map (\<lambda>i. state ! i + S ! i) [0..<8])"

section \<open>Streaming\<close>

definition PAD :: bytes where
  "PAD = 0x80 # replicate 63 0"

record SHA256_CTX =
  sha_state :: "u32 list"
  sha_count0 :: u32
  sha_count1 :: u32
  sha_buf :: bytes

text \<open>The buffer of a new context is what lies on the stack.\<close>

definition SHA256_Init :: "bytes \<Rightarrow> SHA256_CTX" where
  "SHA256_Init stack =
     \<lparr>sha_state = [0x6A09E667, 0xBB67AE85, 0x3C6EF372, 0xA54FF53A, 0x510E527F, 0x9B05688C, 0x1F83D9AB, 0x5BE0CD19],
      sha_count0 = 0, sha_count1 = 0, sha_buf = stack\<rparr>"

text \<open>The loop over whole blocks: the new chain value and the bytes left.\<close>

function complete_blocks :: "u32 list \<Rightarrow> bytes \<Rightarrow> nat \<Rightarrow> u32 list \<times> bytes \<times> nat" where
  "complete_blocks state src len =
     (if len \<ge> 64 then complete_blocks (SHA256_Transform state (take 64 src)) (drop 64 src) (len - 64)
      else (state, src, len))"
  by pat_completeness auto
termination
  by (relation "measure (\<lambda>(_, _, len). len)") auto

declare complete_blocks.simps [simp del]

definition SHA256_Update :: "SHA256_CTX \<Rightarrow> bytes \<Rightarrow> nat \<Rightarrow> SHA256_CTX" where
  "SHA256_Update ctx src len =
     (let r = unat (drop_bit 3 (sha_count1 ctx) AND 0x3f);
          bitlen1 = push_bit 3 (of_nat len) :: u32;
          bitlen0 = of_nat (len div 2 ^ 29) :: u32;
          ctx = ctx\<lparr>sha_count1 := sha_count1 ctx + bitlen1\<rparr>;
          ctx = (if sha_count1 ctx < bitlen1 then ctx\<lparr>sha_count0 := sha_count0 ctx + 1\<rparr> else ctx);
          ctx = ctx\<lparr>sha_count0 := sha_count0 ctx + bitlen0\<rparr>
      in if len < 64 - r
         then ctx\<lparr>sha_buf := blit (sha_buf ctx) r (take len src)\<rparr>
         else
           (let buf = blit (sha_buf ctx) r (take (64 - r) src);
                (state, src, len) = complete_blocks (SHA256_Transform (sha_state ctx) buf) (drop (64 - r) src) (len - (64 - r))
            in ctx\<lparr>sha_state := state, sha_buf := blit buf 0 (take len src)\<rparr>))"

definition SHA256_Pad :: "SHA256_CTX \<Rightarrow> SHA256_CTX" where
  "SHA256_Pad ctx =
     (let len = be32enc_vect [sha_count0 ctx, sha_count1 ctx] 8;
          r = unat (drop_bit 3 (sha_count1 ctx) AND 0x3f);
          plen = (if r < 56 then 56 - r else 120 - r)
      in SHA256_Update (SHA256_Update ctx PAD plen) len 8)"

text \<open>The digest, and the context as it is left behind.\<close>

definition SHA256_Final :: "SHA256_CTX \<Rightarrow> bytes \<times> SHA256_CTX" where
  "SHA256_Final ctx =
     (be32enc_vect (sha_state (SHA256_Pad ctx)) 32,
      \<lparr>sha_state = replicate 8 0, sha_count0 = 0, sha_count1 = 0, sha_buf = replicate 64 0\<rparr>)"

section \<open>HMAC and PBKDF2\<close>

record HMAC_SHA256_CTX =
  hmac_ictx :: SHA256_CTX
  hmac_octx :: SHA256_CTX

definition HMAC_SHA256_Init :: "bytes \<Rightarrow> bytes \<Rightarrow> HMAC_SHA256_CTX" where
  "HMAC_SHA256_Init stack key0 =
     (let key = (if length key0 > 64
                 then fst (SHA256_Final (SHA256_Update (SHA256_Init stack) key0 (length key0)))
                 else key0)
      in \<lparr>hmac_ictx = SHA256_Update (SHA256_Init stack) (hmac_pad 0x36 key) 64,
          hmac_octx = SHA256_Update (SHA256_Init stack) (hmac_pad 0x5c key) 64\<rparr>)"

definition HMAC_SHA256_Update :: "HMAC_SHA256_CTX \<Rightarrow> bytes \<Rightarrow> nat \<Rightarrow> HMAC_SHA256_CTX" where
  "HMAC_SHA256_Update ctx src len = ctx\<lparr>hmac_ictx := SHA256_Update (hmac_ictx ctx) src len\<rparr>"

definition HMAC_SHA256_Final :: "HMAC_SHA256_CTX \<Rightarrow> bytes \<times> HMAC_SHA256_CTX" where
  "HMAC_SHA256_Final ctx =
     (let (ihash, ictx) = SHA256_Final (hmac_ictx ctx);
          (digest, octx) = SHA256_Final (SHA256_Update (hmac_octx ctx) ihash 32)
      in (digest, \<lparr>hmac_ictx = ictx, hmac_octx = octx\<rparr>))"

text \<open>\<open>for (j = 2; j <= c; j++)\<close>: one more application of the keyed hash, added to \<open>T\<close>.\<close>

definition pbkdf2_iterate :: "bytes \<Rightarrow> bytes \<Rightarrow> nat \<Rightarrow> bytes \<Rightarrow> bytes" where
  "pbkdf2_iterate stack passwd c U1 =
     snd (((\<lambda>(U, T). let U = fst (HMAC_SHA256_Final (HMAC_SHA256_Update (HMAC_SHA256_Init stack passwd) U 32))
                     in (U, xor_bytes T U)) ^^ (c - 1)) (U1, U1))"

function pbkdf2_blocks :: "bytes \<Rightarrow> bytes \<Rightarrow> HMAC_SHA256_CTX \<Rightarrow> nat \<Rightarrow> nat \<Rightarrow> nat \<Rightarrow> bytes \<Rightarrow> bytes" where
  "pbkdf2_blocks stack passwd PShctx c dkLen i buf =
     (if i * 32 < dkLen
      then
        let U = fst (HMAC_SHA256_Final (HMAC_SHA256_Update PShctx (be32enc (of_nat (i + 1))) 4));
            T = pbkdf2_iterate stack passwd c U;
            clen = (if dkLen - i * 32 > 32 then 32 else dkLen - i * 32)
        in pbkdf2_blocks stack passwd PShctx c dkLen (i + 1) (blit buf (i * 32) (take clen T))
      else buf)"
  by pat_completeness auto
termination
  by (relation "measure (\<lambda>(_, _, _, _, dkLen, i, _). dkLen - i)") auto

declare pbkdf2_blocks.simps [simp del]

definition PBKDF2_SHA256 :: "bytes \<Rightarrow> bytes \<Rightarrow> bytes \<Rightarrow> nat \<Rightarrow> bytes \<Rightarrow> nat \<Rightarrow> bytes" where
  "PBKDF2_SHA256 stack passwd salt c buf dkLen =
     (let PShctx = HMAC_SHA256_Update (HMAC_SHA256_Init stack passwd) salt (length salt)
      in pbkdf2_blocks stack passwd PShctx c dkLen 0 buf)"

section \<open>The block function of the standard\<close>

definition sha_ch :: "u32 \<Rightarrow> u32 \<Rightarrow> u32 \<Rightarrow> u32" where
  "sha_ch x y z = (x AND y) XOR (NOT x AND z)"

definition sha_maj :: "u32 \<Rightarrow> u32 \<Rightarrow> u32 \<Rightarrow> u32" where
  "sha_maj x y z = (x AND y) XOR (x AND z) XOR (y AND z)"

definition sha_Sigma0 :: "u32 \<Rightarrow> u32" where
  "sha_Sigma0 x = word_rotr 2 x XOR word_rotr 13 x XOR word_rotr 22 x"

definition sha_Sigma1 :: "u32 \<Rightarrow> u32" where
  "sha_Sigma1 x = word_rotr 6 x XOR word_rotr 11 x XOR word_rotr 25 x"

definition sha_sigma0 :: "u32 \<Rightarrow> u32" where
  "sha_sigma0 x = word_rotr 7 x XOR word_rotr 18 x XOR drop_bit 3 x"

definition sha_sigma1 :: "u32 \<Rightarrow> u32" where
  "sha_sigma1 x = word_rotr 17 x XOR word_rotr 19 x XOR drop_bit 10 x"

fun sha_schedule :: "bytes \<Rightarrow> nat \<Rightarrow> u32" where
  "sha_schedule block t =
     (if t < 16 then be_word (slice block (4 * t) 4)
      else sha_sigma1 (sha_schedule block (t - 2)) + sha_schedule block (t - 7)
        + sha_sigma0 (sha_schedule block (t - 15)) + sha_schedule block (t - 16))"

declare sha_schedule.simps [simp del]

definition sha_round :: "u32 \<Rightarrow> u32 \<Rightarrow> u32 list \<Rightarrow> u32 list" where
  "sha_round k w v =
     (let T1 = v ! 7 + sha_Sigma1 (v ! 4) + sha_ch (v ! 4) (v ! 5) (v ! 6) + k + w;
          T2 = sha_Sigma0 (v ! 0) + sha_maj (v ! 0) (v ! 1) (v ! 2)
      in [T1 + T2, v ! 0, v ! 1, v ! 2, v ! 3 + T1, v ! 4, v ! 5, v ! 6])"

definition sha_compress :: "u32 list \<Rightarrow> bytes \<Rightarrow> u32 list" where
  "sha_compress h block =
     map2 (+) h (fold (\<lambda>t. sha_round (round_constants ! t) (sha_schedule block t)) [0..<64] h)"

section \<open>The code computes it\<close>

lemma ROTR_word_rotr:
  assumes "0 < n" "n < 32"
  shows "ROTR x n = word_rotr n x"
proof -
  have "ROTR x n = word_rotl (32 - n) x"
    using rotl_shift_or [of "32 - n" x] assms by (simp add: ROTR_def or.commute)
  also have "\<dots> = word_rotr n x"
    using assms by (intro bit_word_eqI) (simp add: bit_word_rotl_iff bit_word_rotr_iff)
  finally show ?thesis .
qed

lemma functions_of_standard:
  "Ch x y z = sha_ch x y z" "Maj x y z = sha_maj x y z" "Sigma0 x = sha_Sigma0 x" "Sigma1 x = sha_Sigma1 x"
  "sigma0 x = sha_sigma0 x" "sigma1 x = sha_sigma1 x"
proof -
  show "Ch x y z = sha_ch x y z" "Maj x y z = sha_maj x y z"
    by (rule bit_word_eqI; auto simp: Ch_def sha_ch_def Maj_def sha_maj_def bit_simps)+
qed (simp_all add: Sigma0_def sha_Sigma0_def Sigma1_def sha_Sigma1_def sigma0_def sha_sigma0_def sigma1_def
    sha_sigma1_def ROTR_word_rotr SHR_def)

text \<open>After \<open>i\<close> rounds, variable \<open>j\<close> of the standard is element \<open>(64 - i + j) mod 8\<close> of the array.\<close>

definition view :: "nat \<Rightarrow> u32 list \<Rightarrow> u32 list" where
  "view i S = map (\<lambda>j. S ! ((64 - i + j) mod 8)) [0, 1, 2, 3, 4, 5, 6, 7]"

lemma view_RNDr:
  assumes "i < 64" "length S = 8"
  shows "view (Suc i) (RNDr W i k S) = sha_round k (W ! i) (view i S)"
proof -
  define c where "c = (64 - i) mod 8"
  have m: "(64 - i + j) mod 8 = (c + j) mod 8" for j by (simp add: c_def mod_add_left_eq)
  have s: "(64 - Suc i + j) mod 8 = (c + (j + 7)) mod 8" for j
  proof -
    have "64 - Suc i + j + 8 = 64 - i + (j + 7)" using assms(1) by simp
    then have "(64 - Suc i + j) mod 8 = (64 - i + (j + 7)) mod 8" by (metis mod_add_self2)
    then show ?thesis by (simp only: m)
  qed
  have n: "65 - i = 64 - i + 1" "66 - i = 64 - i + 2" "67 - i = 64 - i + 3" "68 - i = 64 - i + 4"
    "69 - i = 64 - i + 5" "70 - i = 64 - i + 6" "71 - i = 64 - i + 7" "64 - i = 64 - i + 0"
    using assms(1) by simp_all
  have r: "RNDr W i k S = RND (c mod 8) ((c + 1) mod 8) ((c + 2) mod 8) ((c + 3) mod 8) ((c + 4) mod 8) ((c + 5) mod 8)
      ((c + 6) mod 8) ((c + 7) mod 8) (W ! i + k) S"
    unfolding RNDr_def n(1-7) using m [of 0] by (simp only: m add_0_right)
  obtain v0 v1 v2 v3 v4 v5 v6 v7 where S: "S = [v0, v1, v2, v3, v4, v5, v6, v7]" using list_8_ex [OF assms(2)] by blast
  have "c < 8" by (simp add: c_def)
  then consider "c = 0" | "c = 1" | "c = 2" | "c = 3" | "c = 4" | "c = 5" | "c = 6" | "c = 7" by linarith
  then show ?thesis
    unfolding r view_def s m unfolding S
    by cases (simp_all add: RND_def sha_round_def Let_def functions_of_standard add_ac)
qed

lemma length_RNDr [simp]: "length (RNDr W i k S) = length S"
  by (simp add: RNDr_def RND_def Let_def)

lemma le_word_Cons_add: "(le_word (b # bs) :: 'a::len word) = ucast b + 256 * le_word bs"
proof -
  have "(ucast b :: 'a word) AND push_bit 8 (le_word bs) = 0"
    by (rule bit_word_eqI) (auto simp: bit_simps dest: bit_imp_le_length)
  then show ?thesis by (simp add: disjunctive_add_eq_or [symmetric] push_bit_eq_mult mult.commute)
qed

lemma dec32_words:
  assumes "length p = 4"
  shows "be32dec p = be_word p" "le32dec p = le_word p"
proof -
  obtain a b c d where p: "p = [a, b, c, d]" using assms by (auto simp: length_Suc_conv eval_nat_numeral)
  show "be32dec p = be_word p" "le32dec p = le_word p"
    unfolding p by (simp_all add: be32dec_def le32dec_def le_word_Cons_add push_bit_eq_mult algebra_simps del: le_word.simps(2))
qed

lemma enc32_bytes: "be32enc x = be_bytes 4 x" "le32enc x = le_bytes 4 x"
proof -
  have "y AND 0xff = take_bit 8 y" for y :: u32 by (simp add: take_bit_eq_mask mask_eq_exp_minus_1)
  then have "(ucast (y AND 0xff) :: byte) = ucast y" for y :: u32
    by (intro bit_word_eqI) (auto simp: bit_simps dest: bit_imp_le_length)
  then show "be32enc x = be_bytes 4 x" "le32enc x = le_bytes 4 x"
    by (simp_all add: be32enc_def le32enc_def eval_nat_numeral drop_bit_drop_bit)
qed

lemma schedule_fold:
  assumes "length ws = 16" "\<And>t. t < 16 \<Longrightarrow> ws ! t = be_word (slice block (4 * t) 4)" "i < 64"
  shows "fold (\<lambda>i W. W[i := sigma1 (W ! (i - 2)) + W ! (i - 7) + sigma0 (W ! (i - 15)) + W ! (i - 16)]) [16..<64]
    (ws @ replicate 48 0) ! i = sha_schedule block i"
proof -
  let ?f = "\<lambda>i W. W[i := sigma1 (W ! (i - 2)) + W ! (i - 7) + sigma0 (W ! (i - 15)) + W ! (i - 16)]"
  have "length (fold ?f [16..<n] (ws @ replicate 48 0)) = 64
      \<and> (\<forall>j < n. fold ?f [16..<n] (ws @ replicate 48 0) ! j = sha_schedule block j)"
    if "16 \<le> n" "n \<le> 64" for n
    using that
  proof (induction n rule: nat_induct_at_least)
    case base
    show ?case using assms(1,2) by (auto simp: nth_append sha_schedule.simps)
  next
    case (Suc n)
    then have IH: "length (fold ?f [16..<n] (ws @ replicate 48 0)) = 64"
      "\<And>j. j < n \<Longrightarrow> fold ?f [16..<n] (ws @ replicate 48 0) ! j = sha_schedule block j"
      by simp_all
    have "sha_schedule block n = sigma1 (sha_schedule block (n - 2)) + sha_schedule block (n - 7)
        + sigma0 (sha_schedule block (n - 15)) + sha_schedule block (n - 16)"
      using Suc.hyps by (subst sha_schedule.simps) (simp add: functions_of_standard)
    then show ?case using Suc.hyps Suc.prems IH by (auto simp: less_Suc_eq nth_list_update)
  qed
  from this [of 64] show ?thesis using assms(3) by (simp only: order_refl)
qed

lemma schedule_spec:
  assumes "length block = 64" "i < 64"
  shows "prepare_schedule block ! i = sha_schedule block i"
  unfolding prepare_schedule_def
proof (rule schedule_fold)
  show "be32dec_vect block 64 ! t = be_word (slice block (4 * t) 4)" if "t < 16" for t
    using that assms(1) by (simp add: be32dec_vect_def dec32_words mult.commute)
qed (use assms(2) in \<open>simp_all add: be32dec_vect_def\<close>)

lemma length_round: "length (sha_round k w v) = 8"
  by (simp add: sha_round_def Let_def)

lemma round_calls_numbered: "round_calls = map (\<lambda>i. (i, round_constants ! i)) [0..<64]"
proof (rule nth_equalityI)
  show "length round_calls = length (map (\<lambda>i. (i, round_constants ! i)) [0..<64])"
    by (simp add: round_calls_def)
  have "map fst round_calls = [0..<64]" by (simp add: round_calls_def upt_conv_Cons)
  then show "round_calls ! i = map (\<lambda>i. (i, round_constants ! i)) [0..<64] ! i" if "i < length round_calls" for i
    using that by (metis (no_types, lifting) add_0 length_map length_upt nth_map nth_upt prod.collapse round_constants_def diff_zero)
qed

lemma transform_spec:
  assumes "length state = 8" "length block = 64"
  shows "SHA256_Transform state block = sha_compress state block"
proof -
  let ?W = "prepare_schedule block"
  have "length (fold (\<lambda>i. RNDr ?W i (round_constants ! i)) [0..<n] state) = 8
      \<and> view n (fold (\<lambda>i. RNDr ?W i (round_constants ! i)) [0..<n] state)
        = fold (\<lambda>t. sha_round (round_constants ! t) (sha_schedule block t)) [0..<n] (view 0 state)" if "n \<le> 64" for n
    using that
  proof (induction n)
    case (Suc n)
    then show ?case by (simp add: view_RNDr schedule_spec [OF assms(2)])
  qed (simp add: assms(1))
  from this [of 64] have v: "view 64 (fold (\<lambda>i. RNDr ?W i (round_constants ! i)) [0..<64] state)
        = fold (\<lambda>t. sha_round (round_constants ! t) (sha_schedule block t)) [0..<64] (view 0 state)"
    and l: "length (fold (\<lambda>i. RNDr ?W i (round_constants ! i)) [0..<64] state) = 8" by blast+
  have id: "view 0 x = x" "view 64 x = x" if "length x = 8" for x
    using list_8_ex [OF that] by (auto simp: view_def)
  define F where "F = fold (\<lambda>i. RNDr ?W i (round_constants ! i)) [0..<64] state"
  have "F = fold (\<lambda>t. sha_round (round_constants ! t) (sha_schedule block t)) [0..<64] state"
    using v l unfolding F_def [symmetric] by (simp only: id assms(1))
  then have "sha_compress state block = map2 (+) state F" unfolding sha_compress_def by (simp only:)
  moreover have "SHA256_Transform state block = map (\<lambda>i. state ! i + F ! i) [0..<8]"
    unfolding SHA256_Transform_def Let_def F_def round_calls_numbered fold_map comp_def split ..
  ultimately show ?thesis
    using assms(1) l [folded F_def] by (intro nth_equalityI) simp_all
qed

end
