(* ===== verification/Sha256_Stream.thy ===== *)
theory Sha256_Stream
  imports Sha256
begin

text \<open>
  Streaming, padding, HMAC and PBKDF2 of \<^verbatim>\<open>libmultihash/sha256.h\<close> against their standards (FIPS 180-4,
  FIPS 198-1, RFC 8018).  \<open>sha_inv m ctx\<close> says what a context holds after the message \<open>m\<close>; every update
  keeps it, an empty one too, and the padding is two updates that fill the last block.  The locales
  \<open>incremental_hash\<close> and \<open>hmac_hash\<close> are interpreted for SHA-256, and the key derivation rests on them.
\<close>

unbundle bit_operations_syntax

section \<open>The hash of the standard\<close>

definition sha_pad :: "bytes \<Rightarrow> bytes" where
  "sha_pad m = m @ 0x80 # replicate ((119 - length m mod 64) mod 64) 0 @ be_bytes 8 (of_nat (8 * length m) :: u64)"

definition sha_H0 :: "u32 list" where
  "sha_H0 = [0x6a09e667, 0xbb67ae85, 0x3c6ef372, 0xa54ff53a, 0x510e527f, 0x9b05688c, 0x1f83d9ab, 0x5be0cd19]"

definition sha_chain :: "bytes \<Rightarrow> nat \<Rightarrow> u32 list" where
  "sha_chain m k = fold (\<lambda>i h. sha_compress h (slice m (64 * i) 64)) [0..<k] sha_H0"

definition sha256_digest :: "bytes \<Rightarrow> bytes" where
  "sha256_digest m = (let p = sha_pad m in concat (map (be_bytes 4) (sha_chain p (length p div 64))))"

section \<open>Counting\<close>

lemma count_rest_bytes: "unat (drop_bit 3 (count_lo (8 * n)) AND 0x3f) = n mod 64"
proof -
  have "drop_bit 3 (count_lo (8 * n)) AND 0x3f = take_bit 6 (drop_bit 3 (count_lo (8 * n)))"
    by (simp add: take_bit_eq_mask mask_eq_exp_minus_1)
  moreover have "unat (drop_bit 3 (count_lo (8 * n))) = n mod 2 ^ 29"
  proof -
    have "unat (count_lo (8 * n)) = 8 * (n mod 2 ^ 29)"
      unfolding count_lo_def unat_of_nat using mult_mod_right [of 8 n "2 ^ 29"] by simp
    then show ?thesis by (subst unat_drop_bit_eq) (simp add: drop_bit_eq_div)
  qed
  moreover have "n mod 2 ^ 29 mod 64 = n mod 64" by (rule mod_mod_cancel) (simp add: dvd_eq_mod_eq_0)
  moreover have "unat (take_bit 6 w) = unat w mod 64" for w :: u32
    by (subst unsigned_take_bit_eq) (simp add: take_bit_eq_mod)
  ultimately show ?thesis by metis
qed

lemma count_add:
  fixes n len :: nat
  defines "b \<equiv> push_bit 3 (of_nat len) :: u32"
  shows "count_lo (8 * n) + b = count_lo (8 * (n + len))"
    "(if count_lo (8 * (n + len)) < b then count_hi (8 * n) + 1 else count_hi (8 * n)) + of_nat (len div 2 ^ 29)
      = count_hi (8 * (n + len))"
proof -
  have b: "b = count_lo (8 * len)" by (simp add: b_def count_lo_def push_bit_eq_mult mult.commute)
  show "count_lo (8 * n) + b = count_lo (8 * (n + len))" by (simp add: b count_lo_def algebra_simps)
  define N L where "N = 8 * n" and "L = 8 * len"
  have d: "len div 2 ^ 29 = L div 2 ^ 32" using div_mult_mult1 [of 8 len "2 ^ 29"] by (simp add: L_def)
  have s: "8 * (n + len) = N + L" by (simp add: N_def L_def algebra_simps)
  have u: "unat (count_lo x) = x mod 2 ^ 32" for x by (simp add: count_lo_def unat_of_nat)
  define x y where "x = N mod 2 ^ 32" and "y = L mod 2 ^ 32"
  have a: "x < 2 ^ 32" "y < 2 ^ 32" by (simp_all add: x_def y_def)
  have "count_lo (N + L) < count_lo L \<longleftrightarrow> 2 ^ 32 \<le> x + y"
  proof -
    have "(N + L) mod 2 ^ 32 = (x + y) mod 2 ^ 32" by (simp only: mod_add_eq x_def y_def)
    also have "\<dots> = (if 2 ^ 32 \<le> x + y then x + y - 2 ^ 32 else x + y)" using a by (simp add: le_mod_geq)
    finally show ?thesis unfolding word_less_nat_alt u y_def [symmetric] using a by (simp split: if_splits)
  qed
  moreover have "(N + L) div 2 ^ 32 = N div 2 ^ 32 + L div 2 ^ 32 + (x + y) div 2 ^ 32"
    unfolding x_def y_def by (rule div_add1_eq)
  moreover have "(x + y) div 2 ^ 32 = (if 2 ^ 32 \<le> x + y then 1 else 0)"
    using a by (auto simp: le_div_geq)
  ultimately show "(if count_lo (8 * (n + len)) < b then count_hi (8 * n) + 1 else count_hi (8 * n)) + of_nat (len div 2 ^ 29)
      = count_hi (8 * (n + len))"
    unfolding b s d N_def [symmetric] L_def [symmetric] count_hi_def by simp
qed

section \<open>Streaming keeps the invariant\<close>

definition sha_inv :: "bytes \<Rightarrow> SHA256_CTX \<Rightarrow> bool" where
  "sha_inv m ctx \<longleftrightarrow> sha_state ctx = sha_chain m (length m div 64)
     \<and> sha_count0 ctx = count_hi (8 * length m) \<and> sha_count1 ctx = count_lo (8 * length m)
     \<and> length (sha_buf ctx) = 64 \<and> take (length m mod 64) (sha_buf ctx) = drop (64 * (length m div 64)) m"

lemma length_sha_compress: "length h = 8 \<Longrightarrow> length (sha_compress h b) = 8"
proof -
  assume "length h = 8"
  moreover from this have "length (fold (\<lambda>t. sha_round (round_constants ! t) (sha_schedule b t)) ts h) = 8" for ts
    by (induction ts arbitrary: h) (simp_all add: length_round)
  ultimately show ?thesis by (simp add: sha_compress_def)
qed

lemma length_sha_chain [simp]: "length (sha_chain m k) = 8"
  by (induction k) (simp_all add: sha_chain_def sha_H0_def length_sha_compress)

lemma sha_chain_append: "64 * k \<le> length m \<Longrightarrow> sha_chain (m @ d) k = sha_chain m k"
  by (induction k) (simp_all add: sha_chain_def slice_def)

lemma sha_chain_step:
  "64 * (k + 1) \<le> length m \<Longrightarrow> SHA256_Transform (sha_chain m k) (slice m (64 * k) 64) = sha_chain m (k + 1)"
  using transform_spec [of "sha_chain m k" "slice m (64 * k) 64"] by (simp add: sha_chain_def [of m "Suc k"] flip: sha_chain_def)

lemma complete_blocks_chain:
  assumes "take n src = drop (64 * k) m" "n = length m - 64 * k" "64 * k \<le> length m" "n \<le> length src"
  shows "\<exists>src'. complete_blocks (sha_chain m k) src n = (sha_chain m (length m div 64), src', length m mod 64)
    \<and> take (length m mod 64) src' = drop (64 * (length m div 64)) m"
  using assms
proof (induction n arbitrary: k src rule: less_induct)
  case (less n)
  show ?case
  proof (cases "64 \<le> n")
    case True
    have b: "take 64 src = slice m (64 * k) 64"
    proof -
      have "take 64 src = take 64 (take n src)" using True by simp
      then show ?thesis using less.prems(1) by (simp add: slice_def)
    qed
    have k: "64 * (k + 1) \<le> length m" using True less.prems(2,3) by simp
    have "complete_blocks (sha_chain m k) src n = complete_blocks (sha_chain m (k + 1)) (drop 64 src) (n - 64)"
      using True b sha_chain_step [OF k] by (subst complete_blocks.simps) simp
    moreover have "take (n - 64) (drop 64 src) = drop (64 * (k + 1)) m"
    proof -
      have "take (n - 64) (drop 64 src) = drop 64 (take n src)" by (simp add: drop_take)
      then show ?thesis using less.prems(1) by (simp add: add.commute)
    qed
    moreover have "n - 64 < n" "n - 64 = length m - 64 * (k + 1)" "n - 64 \<le> length (drop 64 src)"
      using True less.prems by simp_all
    ultimately show ?thesis using less.IH [OF _ _ _ k] by metis
  next
    case False
    have q: "k = length m div 64" using False less.prems(2,3) by (intro div_nat_eqI [symmetric]) auto
    moreover from this have "n = length m mod 64" using less.prems(2) by (simp add: modulo_nat_def)
    ultimately show ?thesis using False less.prems(1) by (subst complete_blocks.simps) auto
  qed
qed
text \<open>The context with the counter moved on, before any byte is stored.\<close>

definition counted :: "SHA256_CTX \<Rightarrow> nat \<Rightarrow> SHA256_CTX" where
  "counted ctx len =
     (let bitlen1 = push_bit 3 (of_nat len) :: u32; c1 = sha_count1 ctx + bitlen1
      in ctx\<lparr>sha_count1 := c1,
        sha_count0 := (if c1 < bitlen1 then sha_count0 ctx + 1 else sha_count0 ctx) + of_nat (len div 2 ^ 29)\<rparr>)"

lemma update_counted:
  "SHA256_Update ctx src len =
     (let r = unat (drop_bit 3 (sha_count1 ctx) AND 0x3f); buf = blit (sha_buf ctx) r (take (64 - r) src)
      in if len < 64 - r then (counted ctx len)\<lparr>sha_buf := blit (sha_buf ctx) r (take len src)\<rparr>
         else (case complete_blocks (SHA256_Transform (sha_state ctx) buf) (drop (64 - r) src) (len - (64 - r)) of
           (state, src, len') \<Rightarrow> (counted ctx len)\<lparr>sha_state := state, sha_buf := blit buf 0 (take len' src)\<rparr>))"
  by (simp add: SHA256_Update_def counted_def Let_def split: prod.splits)

lemma counted_inv:
  assumes "sha_inv m ctx"
  shows "sha_count0 (counted ctx len) = count_hi (8 * (length m + len))"
    "sha_count1 (counted ctx len) = count_lo (8 * (length m + len))"
proof -
  have "sha_count0 ctx = count_hi (8 * length m)" "sha_count1 ctx = count_lo (8 * length m)"
    using assms by (simp_all add: sha_inv_def)
  with count_add [of "length m" len]
  show "sha_count0 (counted ctx len) = count_hi (8 * (length m + len))"
    "sha_count1 (counted ctx len) = count_lo (8 * (length m + len))"
    by (simp_all add: counted_def Let_def split del: if_split cong: if_cong)
qed

lemma counted_fields [simp]:
  "sha_state (counted ctx len) = sha_state ctx" "sha_buf (counted ctx len) = sha_buf ctx"
  by (simp_all add: counted_def Let_def)

lemma sha_update_inv:
  assumes "sha_inv m ctx" "len \<le> length d"
  shows "sha_inv (m @ take len d) (SHA256_Update ctx d len)"
proof -
  let ?M = "m @ take len d"
  define r k where "r = length m mod 64" and "k = length m div 64"
  have m: "length m = 64 * k + r" "r < 64" by (simp_all add: r_def k_def)
  have M: "length ?M = length m + len" using assms(2) by simp
  have i: "sha_state ctx = sha_chain m k" "length (sha_buf ctx) = 64" "take r (sha_buf ctx) = drop (64 * k) m"
    "unat (drop_bit 3 (sha_count1 ctx) AND 0x3f) = r"
    using assms(1) count_rest_bytes [of "length m"] by (simp_all add: sha_inv_def r_def k_def)
  have c: "sha_count0 (counted ctx len) = count_hi (8 * length ?M)" "sha_count1 (counted ctx len) = count_lo (8 * length ?M)"
    unfolding M using counted_inv [OF assms(1), of len] by simp_all
  show ?thesis
  proof (cases "len < 64 - r")
    case True
    have "(64 * k + x) div 64 = k" "(64 * k + x) mod 64 = x" if "x < 64" for x using that by simp_all
    moreover have "length ?M = 64 * k + (r + len)" "r + len < 64" using True m M by simp_all
    ultimately have q: "length ?M div 64 = k" "length ?M mod 64 = r + len" by metis+
    have u: "SHA256_Update ctx d len = (counted ctx len)\<lparr>sha_buf := blit (sha_buf ctx) r (take len d)\<rparr>"
      unfolding update_counted Let_def i(4) using True by simp
    show ?thesis
      unfolding sha_inv_def q u
      using i m True assms(2) c sha_chain_append [of k m "take len d"] by (simp add: blit_def)
  next
    case False
    define buf where "buf = blit (sha_buf ctx) r (take (64 - r) d)"
    have buf: "buf = slice ?M (64 * k) 64"
    proof -
      have "buf = take r (sha_buf ctx) @ take (64 - r) d" using False assms(2) i(2) m(2) by (simp add: buf_def blit_def)
      also have "\<dots> = slice ?M (64 * k) 64" using i(3) m False by (simp add: slice_def min_def)
      finally show ?thesis .
    qed
    have k: "64 * (k + 1) \<le> length ?M" using m M False by simp
    have s: "SHA256_Transform (sha_state ctx) buf = sha_chain ?M (k + 1)"
      using sha_chain_step [OF k] i(1) buf sha_chain_append [of k m "take len d"] m by simp
    have "take (len - (64 - r)) (drop (64 - r) d) = drop (64 * (k + 1)) ?M"
      using m False by (simp add: drop_take)
    moreover have "len - (64 - r) = length ?M - 64 * (k + 1)" "len - (64 - r) \<le> length (drop (64 - r) d)"
      using m M assms(2) by simp_all
    ultimately obtain src' where cb: "complete_blocks (sha_chain ?M (k + 1)) (drop (64 - r) d) (len - (64 - r))
        = (sha_chain ?M (length ?M div 64), src', length ?M mod 64)"
      and t: "take (length ?M mod 64) src' = drop (64 * (length ?M div 64)) ?M"
      using complete_blocks_chain k by metis
    have u: "SHA256_Update ctx d len = (counted ctx len)\<lparr>sha_state := sha_chain ?M (length ?M div 64),
        sha_buf := blit buf 0 (take (length ?M mod 64) src')\<rparr>"
      unfolding update_counted Let_def i(4) buf_def [symmetric] s cb using False by simp
    have lb: "length buf = 64" using buf k by simp
    have "length (drop (64 * (length x div 64)) x) = length x mod 64" for x :: bytes by (simp add: modulo_nat_def)
    then have lt: "length (take (length ?M mod 64) src') = length ?M mod 64" unfolding t .
    have "length ?M mod 64 < 64" by simp
    then have "length (blit buf 0 (take (length ?M mod 64) src')) = 64"
      "take (length ?M mod 64) (blit buf 0 (take (length ?M mod 64) src')) = take (length ?M mod 64) src'"
      using lb lt by (simp_all add: blit_def)
    then show ?thesis unfolding sha_inv_def u using c t by simp
  qed
qed

section \<open>Padding and digest\<close>

lemma le_bytes_add: "le_bytes (a + b) w = le_bytes a w @ le_bytes b (drop_bit (8 * a) w)"
  by (induction a arbitrary: w) (simp_all add: drop_bit_drop_bit add.commute)

lemma be_bytes_8:
  "be_bytes 8 (of_nat c :: u64) = be_bytes 4 (count_hi c) @ be_bytes 4 (count_lo c)"
proof -
  have "count_lo c = ucast (of_nat c :: u64)" "count_hi c = ucast (drop_bit 32 (of_nat c :: u64))"
  proof -
    have "c mod 2 ^ 64 mod 2 ^ 32 = c mod 2 ^ 32" by (rule mod_mod_cancel) (simp add: dvd_eq_mod_eq_0)
    then show "count_lo c = ucast (of_nat c :: u64)"
      by (intro word_unat_eq_iff [THEN iffD2])
        (simp add: count_lo_def unat_of_nat unsigned_ucast_eq take_bit_eq_mod)
    have "c mod 2 ^ 64 div 2 ^ 32 = c div 2 ^ 32 mod 2 ^ 32"
      using mod_mult2_eq [of c "2 ^ 32" "2 ^ 32"] by simp
    moreover have "unat (drop_bit 32 (of_nat c :: u64)) = c mod 2 ^ 64 div 2 ^ 32"
      by (subst unat_drop_bit_eq) (simp add: unat_of_nat drop_bit_eq_div)
    ultimately show "count_hi c = ucast (drop_bit 32 (of_nat c :: u64))"
      by (intro word_unat_eq_iff [THEN iffD2])
        (simp add: count_hi_def unat_of_nat unsigned_ucast_eq take_bit_eq_mod)
  qed
  moreover have "le_bytes 8 w = le_bytes 4 (ucast w :: u32) @ le_bytes 4 (ucast (drop_bit 32 w) :: u32)" for w :: u64
  proof -
    have u: "le_bytes 4 v = le_bytes 4 (ucast v :: u32)" for v :: u64
      by (intro nth_equalityI) (auto simp: nth_le_bytes bit_simps intro!: bit_word_eqI)
    show ?thesis using le_bytes_add [of 4 4 w] u [of w] u [of "drop_bit 32 w"] by simp
  qed
  ultimately show ?thesis by simp
qed

lemma be32enc_vect_bytes: "be32enc_vect src (4 * length src) = concat (map (be_bytes 4) src)"
proof -
  have "map (\<lambda>i. be32enc (src ! i)) [0..<length src] = map (be_bytes 4) (map ((!) src) [0..<length src])"
    by (simp add: enc32_bytes)
  then show ?thesis by (simp add: be32enc_vect_def map_nth)
qed

lemma take_PAD: "0 < n \<Longrightarrow> n \<le> 64 \<Longrightarrow> take n PAD = 0x80 # replicate (n - 1) 0"
  by (cases n) (simp_all add: PAD_def min_def)

lemma sha_pad_inv:
  assumes "sha_inv m ctx"
  shows "sha_inv (sha_pad m) (SHA256_Pad ctx)" "64 dvd length (sha_pad m)"
proof -
  define r where "r = length m mod 64"
  define plen where "plen = (if r < 56 then 56 - r else 120 - r)"
  have r: "r < 64" by (simp add: r_def)
  have p: "0 < plen" "plen \<le> 64" "plen - 1 = (119 - r) mod 64"
  proof -
    show "0 < plen" "plen \<le> 64" using r by (auto simp: plen_def)
    show "plen - 1 = (119 - r) mod 64"
    proof (cases "r < 56")
      case True
      have "119 - r = 64 + (55 - r)" using True by simp
      moreover have "(64 + (55 - r)) mod 64 = 55 - r" unfolding mod_add_self1 using True by simp
      ultimately show ?thesis using True by (simp add: plen_def)
    qed (use r in \<open>simp add: plen_def\<close>)
  qed
  have c: "be32enc_vect [sha_count0 ctx, sha_count1 ctx] 8 = be_bytes 8 (of_nat (8 * length m) :: u64)"
    using be32enc_vect_bytes [of "[sha_count0 ctx, sha_count1 ctx]"] assms
    by (simp add: sha_inv_def be_bytes_8 del: of_nat_mult)
  have r': "unat (drop_bit 3 (sha_count1 ctx) AND 0x3f) = r"
    using assms count_rest_bytes [of "length m"] by (simp add: sha_inv_def r_def)
  have m: "sha_pad m = (m @ take plen PAD) @ take 8 (be_bytes 8 (of_nat (8 * length m) :: u64))"
    unfolding sha_pad_def take_PAD [OF p(1,2)] p(3) by (simp add: r_def)
  have "sha_inv (m @ take plen PAD) (SHA256_Update ctx PAD plen)"
    by (rule sha_update_inv [OF assms]) (use p(2) in \<open>simp add: PAD_def\<close>)
  then have "sha_inv (sha_pad m) (SHA256_Update (SHA256_Update ctx PAD plen) (be_bytes 8 (of_nat (8 * length m) :: u64)) 8)"
    unfolding m by (rule sha_update_inv) simp
  then show "sha_inv (sha_pad m) (SHA256_Pad ctx)"
    unfolding SHA256_Pad_def Let_def c r' plen_def .
  have "length (sha_pad m) = 64 * (length m div 64) + r + plen + 8"
    unfolding m using p(2) by (simp add: PAD_def r_def)
  moreover have "64 dvd r + plen + 8" using r by (auto simp: plen_def)
  ultimately show "64 dvd length (sha_pad m)" by (simp add: add.assoc dvd_add)
qed

lemma sha_final_digest:
  assumes "sha_inv m ctx"
  shows "fst (SHA256_Final ctx) = sha256_digest m"
  using sha_pad_inv [OF assms] be32enc_vect_bytes [of "sha_state (SHA256_Pad ctx)"]
  by (simp add: SHA256_Final_def sha256_digest_def Let_def sha_inv_def)

lemma length_sha256_digest [simp]: "length (sha256_digest m) = 32"
  by (simp add: sha256_digest_def Let_def length_concat comp_def sum_list_triv)

lemma sha_init_inv: "length stack = 64 \<Longrightarrow> sha_inv [] (SHA256_Init stack)"
  by (simp add: sha_inv_def SHA256_Init_def sha_chain_def sha_H0_def count_lo_def count_hi_def)

definition sha_update_bytes :: "SHA256_CTX \<Rightarrow> bytes \<Rightarrow> SHA256_CTX" where
  "sha_update_bytes ctx d = SHA256_Update ctx d (length d)"

interpretation sha256: hmac_hash SHA256_Init "\<lambda>g. length g = 64" sha_update_bytes "\<lambda>ctx. fst (SHA256_Final ctx)"
  sha_inv sha256_digest 32
proof unfold_locales
  fix m ctx d assume "sha_inv m ctx"
  then show "sha_inv (m @ d) (sha_update_bytes ctx d)"
    using sha_update_inv [of m ctx "length d" d] by (simp add: sha_update_bytes_def)
qed (simp_all add: sha_init_inv sha_final_digest)

section \<open>HMAC\<close>

definition hmac_sha256 :: "bytes \<Rightarrow> bytes \<Rightarrow> bytes" where
  "hmac_sha256 key = hmac_spec sha256_digest sha256_digest (key_block (if length key \<le> 64 then key else sha256_digest key))"

definition key_pad :: "byte \<Rightarrow> bytes \<Rightarrow> bytes" where
  "key_pad c key = xor_bytes (key_block (if length key \<le> 64 then key else sha256_digest key)) (replicate 64 c)"

definition hmac_inv :: "bytes \<Rightarrow> bytes \<Rightarrow> HMAC_SHA256_CTX \<Rightarrow> bool" where
  "hmac_inv key m ctx \<longleftrightarrow> sha_inv (key_pad 0x36 key @ m) (hmac_ictx ctx) \<and> sha_inv (key_pad 0x5c key) (hmac_octx ctx)"

lemma hmac_init_inv:
  assumes "length stack = 64"
  shows "hmac_inv key [] (HMAC_SHA256_Init stack key)"
proof -
  let ?k = "if length key \<le> 64 then key else sha256_digest key"
  have h: "fst (SHA256_Final (SHA256_Update (SHA256_Init stack) key (length key))) = sha256_digest key"
    using sha256.hash_digest [OF assms, of key] by (simp add: sha_update_bytes_def)
  have k: "length ?k \<le> 64" by simp
  have p: "sha_inv (key_pad c key) (SHA256_Update (SHA256_Init stack) (hmac_pad c ?k) 64)" for c
    using sha256.first_block [OF assms, of "key_pad c key"] hmac_pad_eq [OF k, of c] length_key_block [OF k]
    by (simp add: key_pad_def sha_update_bytes_def)
  from p [of "0x36"] p [of "0x5c"] show ?thesis
    unfolding hmac_inv_def HMAC_SHA256_Init_def Let_def h by (cases "length key \<le> 64") simp_all
qed

lemma hmac_update_inv:
  "hmac_inv key m ctx \<Longrightarrow> len = length d \<Longrightarrow> hmac_inv key (m @ d) (HMAC_SHA256_Update ctx d len)"
  using sha_update_inv [of "key_pad 0x36 key @ m" "hmac_ictx ctx" "length d" d]
  by (simp add: hmac_inv_def HMAC_SHA256_Update_def)

lemma hmac_final_inv:
  assumes "hmac_inv key m ctx"
  shows "fst (HMAC_SHA256_Final ctx) = hmac_sha256 key m"
proof -
  have i: "fst (SHA256_Final (hmac_ictx ctx)) = sha256_digest (key_pad 0x36 key @ m)"
    using assms sha_final_digest by (auto simp: hmac_inv_def)
  have "sha_inv (key_pad 0x5c key @ sha256_digest (key_pad 0x36 key @ m))
      (SHA256_Update (hmac_octx ctx) (sha256_digest (key_pad 0x36 key @ m)) 32)"
    using assms sha_update_inv [of "key_pad 0x5c key" "hmac_octx ctx" 32 "sha256_digest (key_pad 0x36 key @ m)"]
    by (simp add: hmac_inv_def)
  from sha_final_digest [OF this]
  have "fst (HMAC_SHA256_Final ctx) = sha256_digest (key_pad 0x5c key @ sha256_digest (key_pad 0x36 key @ m))"
    unfolding HMAC_SHA256_Final_def Let_def by (simp add: i split_beta)
  then show ?thesis by (simp only: hmac_sha256_def hmac_spec_def key_pad_def)
qed

section \<open>PBKDF2\<close>

fun pbkdf2_U :: "(bytes \<Rightarrow> bytes \<Rightarrow> bytes) \<Rightarrow> bytes \<Rightarrow> bytes \<Rightarrow> nat \<Rightarrow> nat \<Rightarrow> bytes" where
  "pbkdf2_U prf P S i 0 = prf P (S @ be_bytes 4 (of_nat i :: u32))"
| "pbkdf2_U prf P S i (Suc j) = prf P (pbkdf2_U prf P S i j)"

definition pbkdf2_T :: "(bytes \<Rightarrow> bytes \<Rightarrow> bytes) \<Rightarrow> bytes \<Rightarrow> bytes \<Rightarrow> nat \<Rightarrow> nat \<Rightarrow> bytes" where
  "pbkdf2_T prf P S c i = fold (\<lambda>j T. xor_bytes T (pbkdf2_U prf P S i j)) [1..<c] (pbkdf2_U prf P S i 0)"

definition pbkdf2 :: "(bytes \<Rightarrow> bytes \<Rightarrow> bytes) \<Rightarrow> bytes \<Rightarrow> bytes \<Rightarrow> nat \<Rightarrow> nat \<Rightarrow> bytes" where
  "pbkdf2 prf P S c dkLen = take dkLen (concat (map (\<lambda>i. pbkdf2_T prf P S c (i + 1)) [0..<(dkLen + 31) div 32]))"

lemma length_hmac_sha256 [simp]: "length (hmac_sha256 key m) = 32"
  by (simp add: hmac_sha256_def hmac_spec_def)

lemma length_pbkdf2_U [simp]: "length (pbkdf2_U hmac_sha256 P S i j) = 32"
  by (cases j) simp_all

lemma pbkdf2_iterate_T:
  assumes "length stack = 64"
  shows "pbkdf2_iterate stack P c (pbkdf2_U hmac_sha256 P S i 0) = pbkdf2_T hmac_sha256 P S c i"
    "length (pbkdf2_T hmac_sha256 P S c i) = 32"
proof -
  let ?U = "pbkdf2_U hmac_sha256 P S i"
  let ?f = "\<lambda>(U, T). let U = fst (HMAC_SHA256_Final (HMAC_SHA256_Update (HMAC_SHA256_Init stack P) U 32))
                     in (U, xor_bytes T U)"
  have h: "fst (HMAC_SHA256_Final (HMAC_SHA256_Update (HMAC_SHA256_Init stack P) u 32)) = hmac_sha256 P u"
    if "length u = 32" for u
  proof -
    have "hmac_inv P ([] @ u) (HMAC_SHA256_Update (HMAC_SHA256_Init stack P) u 32)"
      using that by (intro hmac_update_inv hmac_init_inv assms) simp
    from hmac_final_inv [OF this] show ?thesis by simp
  qed
  have "(?f ^^ n) (?U 0, ?U 0) = (?U n, fold (\<lambda>j T. xor_bytes T (?U j)) [1..<Suc n] (?U 0))
      \<and> length (fold (\<lambda>j T. xor_bytes T (?U j)) [1..<Suc n] (?U 0)) = 32" for n
    by (induction n) (simp_all add: h Let_def del: pbkdf2_U.simps(1))
  from this [of "c - 1"] show "pbkdf2_iterate stack P c (?U 0) = pbkdf2_T hmac_sha256 P S c i"
    "length (pbkdf2_T hmac_sha256 P S c i) = 32"
    by (cases c; simp add: pbkdf2_iterate_def pbkdf2_T_def del: pbkdf2_U.simps(1))+
qed

lemma take_concat_blocks:
  assumes "\<And>i. length (f i) = n" "k \<le> K"
  shows "take (n * k) (concat (map f [0..<K])) = concat (map f [0..<k])"
proof -
  have l: "length (concat (map f [0..<k])) = n * k"
    by (simp add: length_concat comp_def assms(1) sum_list_triv)
  have "[0..<K] = [0..<k] @ [k..<K]" using upt_add_eq_append [of 0 k "K - k"] assms(2) by simp
  then show ?thesis using l by simp
qed

lemma pbkdf2_blocks_spec:
  fixes c :: nat
  assumes "length stack = 64" "hmac_inv P S PShctx" "dkLen \<le> length buf"
  defines "D \<equiv> pbkdf2 hmac_sha256 P S c dkLen"
  shows "pbkdf2_blocks stack P PShctx c dkLen i (blit buf 0 (take (32 * i) D)) = blit buf 0 D"
proof (induction "dkLen - i * 32" arbitrary: i rule: less_induct)
  case less
  let ?f = "\<lambda>i. pbkdf2_T hmac_sha256 P S c (i + 1)"
  have lT: "length (pbkdf2_T hmac_sha256 P S c j) = 32" for j using pbkdf2_iterate_T(2) [OF assms(1)] .
  then have lf: "length (?f i) = 32" for i .
  have lD: "length D = dkLen"
    by (simp add: D_def pbkdf2_def length_concat comp_def lT sum_list_triv)
  show ?case
  proof (cases "i * 32 < dkLen")
    case True
    have U: "fst (HMAC_SHA256_Final (HMAC_SHA256_Update PShctx (be32enc (of_nat (i + 1))) 4)) = pbkdf2_U hmac_sha256 P S (i + 1) 0"
      using hmac_final_inv [OF hmac_update_inv [OF assms(2), of 4 "be32enc (of_nat (i + 1))"]]
      by (simp add: enc32_bytes del: of_nat_add of_nat_Suc)
    let ?c = "if dkLen - i * 32 > 32 then 32 else dkLen - i * 32"
    have "take (32 * (i + 1)) D = take (32 * i) D @ take ?c (?f i)"
    proof -
      have K: "i + 1 \<le> (dkLen + 31) div 32" using True by simp
      have "take (32 * (i + 1)) D = take dkLen (concat (map ?f [0..<i + 1]))"
        unfolding D_def pbkdf2_def take_concat_blocks [OF lf K, symmetric] by (simp add: min.commute)
      also have "\<dots> = concat (map ?f [0..<i]) @ take (dkLen - 32 * i) (?f i)"
        using True by (simp add: length_concat comp_def lT sum_list_triv mult.commute)
      also have "take (dkLen - 32 * i) (?f i) = take ?c (?f i)" using lf [of i] by (simp add: mult.commute)
      also have "concat (map ?f [0..<i]) = take (32 * i) D"
        using True take_concat_blocks [OF lf, of i "(dkLen + 31) div 32"] K
        unfolding D_def pbkdf2_def by (simp add: mult.commute)
      finally show ?thesis .
    qed
    then have b: "blit (blit buf 0 (take (32 * i) D)) (i * 32) (take ?c (?f i)) = blit buf 0 (take (32 * (i + 1)) D)"
      using lD True assms(3) lf [of i] by (simp add: blit_def mult.commute add.commute)
    have "pbkdf2_blocks stack P PShctx c dkLen i (blit buf 0 (take (32 * i) D))
        = pbkdf2_blocks stack P PShctx c dkLen (i + 1) (blit buf 0 (take (32 * (i + 1)) D))"
      by (subst pbkdf2_blocks.simps) (simp only: True if_True Let_def U pbkdf2_iterate_T(1) [OF assms(1)] b)
    moreover have "dkLen - (i + 1) * 32 < dkLen - i * 32" using True by simp
    ultimately show ?thesis using less.hyps [of "i + 1"] by (simp only:)
  next
    case False
    then have "take (32 * i) D = D" using lD by simp
    then show ?thesis using False by (subst pbkdf2_blocks.simps) simp
  qed
qed

section \<open>Properties\<close>

text \<open>C13: (streaming refines the standard) A message given to \<open>SHA256_Update\<close> in any pieces, empty ones included,
  has the SHA-256 digest of FIPS 180-4: the working variables stay in place while the indices rotate, the
  schedule is filled in an array, and the padding is fed through the same update.  \<open>SHA256_Final\<close> leaves a
  context of zeros.
\<close>

theorem sha256_streaming_refines_standard:
  assumes "length stack = 64"
  shows "SHA256_Final (fold (\<lambda>d ctx. SHA256_Update ctx d (length d)) ds (SHA256_Init stack))
    = (sha256_digest (concat ds),
       \<lparr>sha_state = replicate 8 0, sha_count0 = 0, sha_count1 = 0, sha_buf = replicate 64 0\<rparr>)"
proof -
  have "sha_inv (m @ concat ds) (fold (\<lambda>d ctx. SHA256_Update ctx d (length d)) ds ctx)" if "sha_inv m ctx" for m ctx
    using that
  proof (induction ds arbitrary: m ctx)
    case (Cons d ds)
    then show ?case using sha_update_inv [OF Cons.prems, of "length d" d] Cons.IH [of "m @ d"] by simp
  qed simp
  from sha_final_digest [OF this [OF sha_init_inv [OF assms]]] show ?thesis
    by (simp add: SHA256_Final_def)
qed

theorem sha256_streaming_refines_standard_witness:
  "fst (SHA256_Final (SHA256_Update (SHA256_Update (SHA256_Init (replicate 64 7)) [0x61, 0x62] 2) [0x63] 1))
    = sha256_digest [0x61, 0x62, 0x63]"
  using sha256_streaming_refines_standard [of "replicate 64 7" "[[0x61, 0x62], [0x63]]"] by (simp add: numeral_2_eq_2)



end
