(* ===== verification/Scrypt.thy ===== *)
theory Scrypt
  imports Sha256_Stream
begin

text \<open>
  The scrypt proof-of-work function of \<^verbatim>\<open>libmultihash/scryptn.c\<close>.  The scratchpad is one allocation that
  the code divides into \<open>B\<close>, \<open>XY\<close> (used as \<open>X\<close>, \<open>Y\<close> and the 64-byte \<open>Z\<close>) and \<open>V\<close>; the model has these
  regions as separate arrays, with what the heap held in them as their first content, and the arithmetic of
  sizes and of the 64-byte alignment decides whether they fit.

  The reference is RFC 7914: the Salsa20/8 core made of quarter rounds, BlockMix on a sequence of blocks,
  ROMix with a table of all intermediate values, and PBKDF2 before and after.  The code runs two BlockMix
  steps per pass and swaps the roles of \<open>X\<close> and \<open>Y\<close>, writes the even and odd output blocks in place, and
  reads the table index with a mask.
\<close>

unbundle bit_operations_syntax

section \<open>Blocks of words\<close>

text \<open>Both helpers work on 8-byte units; an offset is in words from the start of the array.\<close>

definition blkcpy :: "u32 list \<Rightarrow> nat \<Rightarrow> u32 list \<Rightarrow> nat \<Rightarrow> nat \<Rightarrow> u32 list" where
  "blkcpy dest d src s len =
     fold (\<lambda>i D. blit D (d + 2 * i) (slice src (s + 2 * i) 2)) [0..<len div 8] dest"

definition blkxor :: "u32 list \<Rightarrow> nat \<Rightarrow> u32 list \<Rightarrow> nat \<Rightarrow> nat \<Rightarrow> u32 list" where
  "blkxor dest d src s len =
     fold (\<lambda>i D. blit D (d + 2 * i) (map2 (XOR) (slice D (d + 2 * i) 2) (slice src (s + 2 * i) 2))) [0..<len div 8] dest"

section \<open>Salsa20/8\<close>

definition rotate_sum :: "u32 \<Rightarrow> nat \<Rightarrow> u32" where
  "rotate_sum a b = push_bit b a OR drop_bit (32 - b) a"

text \<open>One statement \<open>x[d] ^= R(x[a]+x[b],k)\<close>, and the statements of one pass in their order.\<close>

definition salsa_update :: "nat \<times> nat \<times> nat \<times> nat \<Rightarrow> u32 list \<Rightarrow> u32 list" where
  "salsa_update u x = (case u of (d, a, b, k) \<Rightarrow> x[d := x ! d XOR rotate_sum (x ! a + x ! b) k])"

definition salsa_columns :: "(nat \<times> nat \<times> nat \<times> nat) list" where
  "salsa_columns =
    [(4, 0, 12, 7), (8, 4, 0, 9), (12, 8, 4, 13), (0, 12, 8, 18),
     (9, 5, 1, 7), (13, 9, 5, 9), (1, 13, 9, 13), (5, 1, 13, 18),
     (14, 10, 6, 7), (2, 14, 10, 9), (6, 2, 14, 13), (10, 6, 2, 18),
     (3, 15, 11, 7), (7, 3, 15, 9), (11, 7, 3, 13), (15, 11, 7, 18)]"

definition salsa_rows :: "(nat \<times> nat \<times> nat \<times> nat) list" where
  "salsa_rows =
    [(1, 0, 3, 7), (2, 1, 0, 9), (3, 2, 1, 13), (0, 3, 2, 18),
     (6, 5, 4, 7), (7, 6, 5, 9), (4, 7, 6, 13), (5, 4, 7, 18),
     (11, 10, 9, 7), (8, 11, 10, 9), (9, 8, 11, 13), (10, 9, 8, 18),
     (12, 15, 14, 7), (13, 12, 15, 9), (14, 13, 12, 13), (15, 14, 13, 18)]"

definition salsa20_8 :: "u32 list \<Rightarrow> u32 list" where
  "salsa20_8 B =
     (let x = blkcpy (replicate 16 0) 0 B 0 64;
          x = fold (\<lambda>_ x. fold salsa_update salsa_rows (fold salsa_update salsa_columns x)) [0..<4] x
      in map (\<lambda>i. B ! i + x ! i) [0..<16])"

section \<open>BlockMix and SMix\<close>

text \<open>The two output arrays: \<open>Bout\<close> and the temporary space \<open>X\<close>.\<close>

definition blockmix_pass :: "u32 list \<Rightarrow> nat \<Rightarrow> nat \<Rightarrow> u32 list \<times> u32 list \<Rightarrow> u32 list \<times> u32 list" where
  "blockmix_pass Bin r k BX =
     (case BX of (Bout, X) \<Rightarrow>
      let i = 2 * k;
          X = salsa20_8 (blkxor X 0 Bin (i * 16) 64);
          Bout = blkcpy Bout (i * 8) X 0 64;
          X = salsa20_8 (blkxor X 0 Bin (i * 16 + 16) 64);
          Bout = blkcpy Bout (i * 8 + r * 16) X 0 64
      in (Bout, X))"

definition blockmix_salsa8 :: "u32 list \<Rightarrow> u32 list \<Rightarrow> u32 list \<Rightarrow> nat \<Rightarrow> u32 list \<times> u32 list" where
  "blockmix_salsa8 Bin Bout X r =
     (let X = blkcpy X 0 Bin ((2 * r - 1) * 16) 64
      in fold (blockmix_pass Bin r) [0..<r] (Bout, X))"

definition integerify :: "u32 list \<Rightarrow> nat \<Rightarrow> u64" where
  "integerify B r = push_bit 32 (ucast (B ! ((2 * r - 1) * 16 + 1))) + ucast (B ! ((2 * r - 1) * 16))"

record smix_state =
  sm_X :: "u32 list"
  sm_Y :: "u32 list"
  sm_Z :: "u32 list"
  sm_V :: "u32 list"

definition smix_fill :: "nat \<Rightarrow> nat \<Rightarrow> smix_state \<Rightarrow> smix_state" where
  "smix_fill r k s =
     (let i = 2 * k;
          V = blkcpy (sm_V s) (i * (32 * r)) (sm_X s) 0 (128 * r);
          (Y, Z) = blockmix_salsa8 (sm_X s) (sm_Y s) (sm_Z s) r;
          V = blkcpy V ((i + 1) * (32 * r)) Y 0 (128 * r);
          (X, Z) = blockmix_salsa8 Y (sm_X s) Z r
      in \<lparr>sm_X = X, sm_Y = Y, sm_Z = Z, sm_V = V\<rparr>)"

definition smix_mix :: "nat \<Rightarrow> nat \<Rightarrow> smix_state \<Rightarrow> smix_state" where
  "smix_mix r N s =
     (let j = unat (integerify (sm_X s) r AND (of_nat N - 1));
          X = blkxor (sm_X s) 0 (sm_V s) (j * (32 * r)) (128 * r);
          (Y, Z) = blockmix_salsa8 X (sm_Y s) (sm_Z s) r;
          j = unat (integerify Y r AND (of_nat N - 1));
          Y = blkxor Y 0 (sm_V s) (j * (32 * r)) (128 * r);
          (X, Z) = blockmix_salsa8 Y X Z r
      in s\<lparr>sm_X := X, sm_Y := Y, sm_Z := Z\<rparr>)"

text \<open>
  \<open>None\<close> when the code leaves its arrays: an odd \<open>N\<close> makes the last pass store a block behind the end of
  \<open>V\<close>, and without blocks (\<open>r = 0\<close>) the index of the last block underflows.
\<close>

definition smix :: "bytes \<Rightarrow> nat \<Rightarrow> nat \<Rightarrow> smix_state \<Rightarrow> bytes option" where
  "smix B r N s =
     (if r = 0 \<or> odd N then None
      else
        let s = s\<lparr>sm_X := map (\<lambda>k. le32dec (slice B (4 * k) 4)) [0..<32 * r]\<rparr>;
            s = fold (smix_fill r) [0..<N div 2] s;
            s = ((smix_mix r N) ^^ (N div 2)) s
        in Some (concat (map (\<lambda>k. le32enc (sm_X s ! k)) [0..<32 * r])))"

section \<open>The whole function\<close>

text \<open>
  \<open>addr\<close> is the address of the scratchpad and \<open>mem\<close> its content.  \<open>None\<close> when the regions do not lie inside.
\<close>

definition align64 :: "nat \<Rightarrow> nat" where
  "align64 addr = (addr + 63) div 64 * 64"

definition scrypt_N_R_1_256_sp :: "bytes \<Rightarrow> bytes \<Rightarrow> bytes \<Rightarrow> nat \<Rightarrow> bytes \<Rightarrow> nat \<Rightarrow> nat \<Rightarrow> bytes option" where
  "scrypt_N_R_1_256_sp stack input output addr mem N r =
     (let B = align64 addr - addr; XY = B + 128 * r; V = B + 128 * r + (256 * r + 64)
      in if V + 128 * r * N > length mem then None
         else
           case smix (PBKDF2_SHA256 stack input input 1 (slice mem B (128 * r)) (128 * r)) r N
             \<lparr>sm_X = words_of 4 (32 * r) (slice mem XY (128 * r)),
              sm_Y = words_of 4 (32 * r) (slice mem (XY + 128 * r) (128 * r)),
              sm_Z = words_of 4 16 (slice mem (XY + 256 * r) 64),
              sm_V = words_of 4 (32 * r * N) (slice mem V (128 * r * N))\<rparr> of
             None \<Rightarrow> None
           | Some B \<Rightarrow> Some (PBKDF2_SHA256 stack input B 1 output 32))"

text \<open>
  The allocation: its size is computed in 32-bit arithmetic.  \<open>malloc n\<close> is the address and content of a new
  block of \<open>n\<close> bytes, or \<open>None\<close> when there is no memory; the code does not check for that.
\<close>

definition scrypt_scratch_size :: "u32 \<Rightarrow> u32 \<Rightarrow> u32" where
  "scrypt_scratch_size N R = 128 * N * R + (128 * R) + (256 * R) + 64 + 64"

definition scrypt_N_R_1_256 :: "(nat \<Rightarrow> (nat \<times> bytes) option) \<Rightarrow> bytes \<Rightarrow> bytes \<Rightarrow> bytes \<Rightarrow> u32 \<Rightarrow> u32 \<Rightarrow> bytes option" where
  "scrypt_N_R_1_256 malloc stack input output N R =
     (case malloc (unat (scrypt_scratch_size N R)) of
        None \<Rightarrow> None
      | Some (addr, mem) \<Rightarrow> scrypt_N_R_1_256_sp stack input output addr mem (unat N) (unat R))"

section \<open>Copying and adding blocks\<close>

lemma blit_extend:
  "d + length ys + length zs \<le> length xs \<Longrightarrow> o1 = d + length ys \<Longrightarrow> blit (blit xs d ys) o1 zs = blit xs d (ys @ zs)"
  by (rule nth_equalityI) (auto simp: nth_blit nth_append)

lemma blit_commute:
  "o1 + length ys \<le> o2 \<Longrightarrow> o2 + length zs \<le> length xs \<Longrightarrow> blit (blit xs o2 zs) o1 ys = blit (blit xs o1 ys) o2 zs"
  by (rule nth_equalityI) (auto simp: nth_blit)

lemma slice_add: "slice xs off (a + b) = slice xs off a @ slice xs (off + a) b"
  by (simp add: slice_def take_add drop_drop add.commute)

definition xor_words :: "u32 list \<Rightarrow> u32 list \<Rightarrow> u32 list" where
  "xor_words xs ys = map2 (XOR) xs ys"

lemma length_xor_words [simp]: "length (xor_words xs ys) = min (length xs) (length ys)"
  by (simp add: xor_words_def)

lemma blkcpy_eq:
  assumes "len = 8 * n" "d + 2 * n \<le> length dest" "s + 2 * n \<le> length src"
  shows "blkcpy dest d src s len = blit dest d (slice src s (2 * n))"
proof -
  have "fold (\<lambda>i D. blit D (d + 2 * i) (slice src (s + 2 * i) 2)) [0..<m] dest = blit dest d (slice src s (2 * m))" if "m \<le> n" for m
    using that
  proof (induction m)
    case (Suc m)
    then show ?case using assms slice_add [of src s "2 * m" 2] by (simp add: blit_extend)
  qed (simp add: blit_def slice_def)
  then show ?thesis by (simp add: blkcpy_def assms(1))
qed

lemma blkxor_eq:
  assumes "len = 8 * n" "d + 2 * n \<le> length dest" "s + 2 * n \<le> length src"
  shows "blkxor dest d src s len = blit dest d (xor_words (slice dest d (2 * n)) (slice src s (2 * n)))"
proof -
  let ?x = "\<lambda>m. xor_words (slice dest d (2 * m)) (slice src s (2 * m))"
  have "fold (\<lambda>i D. blit D (d + 2 * i) (map2 (XOR) (slice D (d + 2 * i) 2) (slice src (s + 2 * i) 2))) [0..<m] dest = blit dest d (?x m)"
    if "m \<le> n" for m
    using that
  proof (induction m)
    case (Suc m)
    have "?x (Suc m) = ?x m @ xor_words (slice dest (d + 2 * m) 2) (slice src (s + 2 * m) 2)"
      using slice_add [of src s "2 * m" 2] slice_add [of dest d "2 * m" 2] assms Suc.prems by (simp add: xor_words_def)
    moreover have "slice (blit dest d (?x m)) (d + 2 * m) 2 = slice dest (d + 2 * m) 2"
      using assms Suc.prems by (intro slice_blit_disjoint) simp_all
    ultimately show ?case using Suc assms by (simp add: blit_extend flip: xor_words_def)
  qed (simp add: blit_def slice_def xor_words_def)
  then show ?thesis by (simp add: blkxor_def assms(1))
qed

section \<open>The Salsa20/8 core\<close>

definition quarterround :: "u32 \<times> u32 \<times> u32 \<times> u32 \<Rightarrow> u32 \<times> u32 \<times> u32 \<times> u32" where
  "quarterround y =
     (case y of (y0, y1, y2, y3) \<Rightarrow>
      let z1 = y1 XOR word_rotl 7 (y0 + y3); z2 = y2 XOR word_rotl 9 (z1 + y0);
          z3 = y3 XOR word_rotl 13 (z2 + z1); z0 = y0 XOR word_rotl 18 (z3 + z2)
      in (z0, z1, z2, z3))"

definition columnround :: "u32 list \<Rightarrow> u32 list" where
  "columnround y =
     (let (z0, z4, z8, z12) = quarterround (y ! 0, y ! 4, y ! 8, y ! 12);
          (z5, z9, z13, z1) = quarterround (y ! 5, y ! 9, y ! 13, y ! 1);
          (z10, z14, z2, z6) = quarterround (y ! 10, y ! 14, y ! 2, y ! 6);
          (z15, z3, z7, z11) = quarterround (y ! 15, y ! 3, y ! 7, y ! 11)
      in [z0, z1, z2, z3, z4, z5, z6, z7, z8, z9, z10, z11, z12, z13, z14, z15])"

definition rowround :: "u32 list \<Rightarrow> u32 list" where
  "rowround y =
     (let (z0, z1, z2, z3) = quarterround (y ! 0, y ! 1, y ! 2, y ! 3);
          (z5, z6, z7, z4) = quarterround (y ! 5, y ! 6, y ! 7, y ! 4);
          (z10, z11, z8, z9) = quarterround (y ! 10, y ! 11, y ! 8, y ! 9);
          (z15, z12, z13, z14) = quarterround (y ! 15, y ! 12, y ! 13, y ! 14)
      in [z0, z1, z2, z3, z4, z5, z6, z7, z8, z9, z10, z11, z12, z13, z14, z15])"

definition salsa_core :: "u32 list \<Rightarrow> u32 list" where
  "salsa_core x = map2 (+) x (((\<lambda>x. rowround (columnround x)) ^^ 4) x)"

lemma rotate_sum_rotl: "0 < b \<Longrightarrow> b < 32 \<Longrightarrow> rotate_sum a b = word_rotl b a"
  using rotl_shift_or [of b a] by (simp add: rotate_sum_def)

lemma list_16_cases: "length v = 16 \<Longrightarrow> \<exists>v0 v1 v2 v3 v4 v5 v6 v7 v8 v9 v10 v11 v12 v13 v14 v15.
    v = [v0, v1, v2, v3, v4, v5, v6, v7, v8, v9, v10, v11, v12, v13, v14, v15]"
  by (auto simp: length_Suc_conv eval_nat_numeral)

text \<open>Four statements on four different elements are one quarter round.\<close>

lemma quarter_updates:
  assumes "distinct [a, b, c, d]" "a < length x" "b < length x" "c < length x" "d < length x"
    "quarterround (x ! a, x ! b, x ! c, x ! d) = (za, zb, zc, zd)"
  shows "fold salsa_update [(b, a, d, 7), (c, b, a, 9), (d, c, b, 13), (a, d, c, 18)] x
    = x[a := za, b := zb, c := zc, d := zd]"
proof (rule nth_equalityI)
  fix i assume "i < length (fold salsa_update [(b, a, d, 7), (c, b, a, 9), (d, c, b, 13), (a, d, c, 18)] x)"
  then have i: "i < length x" by (simp add: salsa_update_def)
  show "fold salsa_update [(b, a, d, 7), (c, b, a, 9), (d, c, b, 13), (a, d, c, 18)] x ! i = x[a := za, b := zb, c := zc, d := zd] ! i"
    using assms i by (auto simp: salsa_update_def nth_list_update quarterround_def Let_def rotate_sum_rotl)
qed (simp add: salsa_update_def)

lemma columns_columnround:
  assumes "length x = 16"
  shows "fold salsa_update salsa_columns x = columnround x"
proof -
  obtain z0 z4 z8 z12 where 1: "quarterround (x ! 0, x ! 4, x ! 8, x ! 12) = (z0, z4, z8, z12)" by (rule prod_cases4)
  obtain z5 z9 z13 z1 where 2: "quarterround (x ! 5, x ! 9, x ! 13, x ! 1) = (z5, z9, z13, z1)" by (rule prod_cases4)
  obtain z10 z14 z2 z6 where 3: "quarterround (x ! 10, x ! 14, x ! 2, x ! 6) = (z10, z14, z2, z6)" by (rule prod_cases4)
  obtain z15 z3 z7 z11 where 4: "quarterround (x ! 15, x ! 3, x ! 7, x ! 11) = (z15, z3, z7, z11)" by (rule prod_cases4)
  let ?x1 = "x[0 := z0, 4 := z4, 8 := z8, 12 := z12]"
  let ?x2 = "?x1[5 := z5, 9 := z9, 13 := z13, 1 := z1]"
  let ?x3 = "?x2[10 := z10, 14 := z14, 2 := z2, 6 := z6]"
  let ?x4 = "?x3[15 := z15, 3 := z3, 7 := z7, 11 := z11]"
  have s: "salsa_columns = [(4, 0, 12, 7), (8, 4, 0, 9), (12, 8, 4, 13), (0, 12, 8, 18)]
     @ [(9, 5, 1, 7), (13, 9, 5, 9), (1, 13, 9, 13), (5, 1, 13, 18)]
     @ [(14, 10, 6, 7), (2, 14, 10, 9), (6, 2, 14, 13), (10, 6, 2, 18)]
     @ [(3, 15, 11, 7), (7, 3, 15, 9), (11, 7, 3, 13), (15, 11, 7, 18)]"
    by (simp add: salsa_columns_def)
  have u: "fold salsa_update [(4, 0, 12, 7), (8, 4, 0, 9), (12, 8, 4, 13), (0, 12, 8, 18)] x = ?x1"
    "fold salsa_update [(9, 5, 1, 7), (13, 9, 5, 9), (1, 13, 9, 13), (5, 1, 13, 18)] ?x1 = ?x2"
    "fold salsa_update [(14, 10, 6, 7), (2, 14, 10, 9), (6, 2, 14, 13), (10, 6, 2, 18)] ?x2 = ?x3"
    "fold salsa_update [(3, 15, 11, 7), (7, 3, 15, 9), (11, 7, 3, 13), (15, 11, 7, 18)] ?x3 = ?x4"
    using assms 1 2 3 4 by (intro quarter_updates; simp)+
  have c: "columnround x = [z0, z1, z2, z3, z4, z5, z6, z7, z8, z9, z10, z11, z12, z13, z14, z15]"
    unfolding columnround_def 1 2 3 4 by simp
  have "fold salsa_update salsa_columns x = ?x4" unfolding s fold_append comp_apply u ..
  also have "\<dots> = [z0, z1, z2, z3, z4, z5, z6, z7, z8, z9, z10, z11, z12, z13, z14, z15]"
    using list_16_cases [OF assms] by auto
  finally show ?thesis unfolding c .
qed

lemma rows_rowround:
  assumes "length x = 16"
  shows "fold salsa_update salsa_rows x = rowround x"
proof -
  obtain z0 z1 z2 z3 where 1: "quarterround (x ! 0, x ! 1, x ! 2, x ! 3) = (z0, z1, z2, z3)" by (rule prod_cases4)
  obtain z5 z6 z7 z4 where 2: "quarterround (x ! 5, x ! 6, x ! 7, x ! 4) = (z5, z6, z7, z4)" by (rule prod_cases4)
  obtain z10 z11 z8 z9 where 3: "quarterround (x ! 10, x ! 11, x ! 8, x ! 9) = (z10, z11, z8, z9)" by (rule prod_cases4)
  obtain z15 z12 z13 z14 where 4: "quarterround (x ! 15, x ! 12, x ! 13, x ! 14) = (z15, z12, z13, z14)" by (rule prod_cases4)
  let ?x1 = "x[0 := z0, 1 := z1, 2 := z2, 3 := z3]"
  let ?x2 = "?x1[5 := z5, 6 := z6, 7 := z7, 4 := z4]"
  let ?x3 = "?x2[10 := z10, 11 := z11, 8 := z8, 9 := z9]"
  let ?x4 = "?x3[15 := z15, 12 := z12, 13 := z13, 14 := z14]"
  have s: "salsa_rows = [(1, 0, 3, 7), (2, 1, 0, 9), (3, 2, 1, 13), (0, 3, 2, 18)]
     @ [(6, 5, 4, 7), (7, 6, 5, 9), (4, 7, 6, 13), (5, 4, 7, 18)]
     @ [(11, 10, 9, 7), (8, 11, 10, 9), (9, 8, 11, 13), (10, 9, 8, 18)]
     @ [(12, 15, 14, 7), (13, 12, 15, 9), (14, 13, 12, 13), (15, 14, 13, 18)]"
    by (simp add: salsa_rows_def)
  have u: "fold salsa_update [(1, 0, 3, 7), (2, 1, 0, 9), (3, 2, 1, 13), (0, 3, 2, 18)] x = ?x1"
    "fold salsa_update [(6, 5, 4, 7), (7, 6, 5, 9), (4, 7, 6, 13), (5, 4, 7, 18)] ?x1 = ?x2"
    "fold salsa_update [(11, 10, 9, 7), (8, 11, 10, 9), (9, 8, 11, 13), (10, 9, 8, 18)] ?x2 = ?x3"
    "fold salsa_update [(12, 15, 14, 7), (13, 12, 15, 9), (14, 13, 12, 13), (15, 14, 13, 18)] ?x3 = ?x4"
    using assms 1 2 3 4 by (intro quarter_updates; simp)+
  have c: "rowround x = [z0, z1, z2, z3, z4, z5, z6, z7, z8, z9, z10, z11, z12, z13, z14, z15]"
    unfolding rowround_def 1 2 3 4 by simp
  have "fold salsa_update salsa_rows x = ?x4" unfolding s fold_append comp_apply u ..
  also have "\<dots> = [z0, z1, z2, z3, z4, z5, z6, z7, z8, z9, z10, z11, z12, z13, z14, z15]"
    using list_16_cases [OF assms] by auto
  finally show ?thesis unfolding c .
qed

lemma length_rounds [simp]: "length (columnround x) = 16" "length (rowround x) = 16"
  by (simp_all add: columnround_def rowround_def split: prod.splits)

lemma salsa20_8_core:
  assumes "length B = 16"
  shows "salsa20_8 B = salsa_core B"
proof -
  let ?f = "\<lambda>_ x. fold salsa_update salsa_rows (fold salsa_update salsa_columns x)"
  have l: "length (((\<lambda>x. rowround (columnround x)) ^^ n) B) = 16" for n using assms by (cases n) simp_all
  have "fold ?f [0..<n] B = ((\<lambda>x. rowround (columnround x)) ^^ n) B" for n :: nat
    by (induction n) (simp_all add: l columns_columnround rows_rowround)
  moreover have "blkcpy (replicate 16 0) 0 B 0 64 = B"
    using blkcpy_eq [of 64 8 0 "replicate 16 0" 0 B] assms by (simp add: blit_def)
  ultimately have "salsa20_8 B = map (\<lambda>i. B ! i + ((\<lambda>x. rowround (columnround x)) ^^ 4) B ! i) [0..<16]"
    by (simp only: salsa20_8_def Let_def)
  then show ?thesis
    unfolding salsa_core_def using assms l [of 4] by (intro nth_equalityI) simp_all
qed

lemma length_salsa_core [simp]: "length x = 16 \<Longrightarrow> length (salsa_core x) = 16"
proof -
  assume "length x = 16"
  moreover from this have "length (((\<lambda>x. rowround (columnround x)) ^^ n) x) = 16" for n by (cases n) simp_all
  ultimately show ?thesis by (simp add: salsa_core_def)
qed

section \<open>BlockMix\<close>

text \<open>Block \<open>i\<close>, and the chain \<open>Y\<close> of the RFC.\<close>

definition word_block :: "u32 list \<Rightarrow> nat \<Rightarrow> u32 list" where
  "word_block B i = slice B (16 * i) 16"

fun mix_chain :: "u32 list \<Rightarrow> nat \<Rightarrow> nat \<Rightarrow> u32 list" where
  "mix_chain B r 0 = salsa_core (xor_words (word_block B (2 * r - 1)) (word_block B 0))"
| "mix_chain B r (Suc i) = salsa_core (xor_words (mix_chain B r i) (word_block B (Suc i)))"

definition scrypt_block_mix :: "nat \<Rightarrow> u32 list \<Rightarrow> u32 list" where
  "scrypt_block_mix r B =
     concat (map (\<lambda>i. mix_chain B r (2 * i)) [0..<r]) @ concat (map (\<lambda>i. mix_chain B r (2 * i + 1)) [0..<r])"

lemma length_mix_chain:
  assumes "length B = 32 * r" "i < 2 * r"
  shows "length (mix_chain B r i) = 16"
  using assms(2)
proof (induction i)
  case 0
  then show ?case using assms(1) by (simp add: word_block_def)
next
  case (Suc i)
  then show ?case using assms(1) by (simp add: word_block_def)
qed

declare mix_chain.simps [simp del]

lemma length_chain_blocks:
  assumes "length B = 32 * r" "\<And>i. i < k \<Longrightarrow> f i < 2 * r"
  shows "length (concat (map (\<lambda>i. mix_chain B r (f i)) [0..<k])) = 16 * k"
  using assms(2) by (induction k) (simp_all add: length_mix_chain [OF assms(1)])

lemma length_scrypt_block_mix [simp]: "length B = 32 * r \<Longrightarrow> length (scrypt_block_mix r B) = 32 * r"
  using length_chain_blocks [of B r r "\<lambda>i. 2 * i"] length_chain_blocks [of B r r "\<lambda>i. 2 * i + 1"]
  by (simp add: scrypt_block_mix_def)

text \<open>The block the next mixing starts from.\<close>

definition chain_before :: "u32 list \<Rightarrow> nat \<Rightarrow> nat \<Rightarrow> u32 list" where
  "chain_before B r i = (if i = 0 then word_block B (2 * r - 1) else mix_chain B r (i - 1))"

lemma mix_chain_before: "mix_chain B r i = salsa_core (xor_words (chain_before B r i) (word_block B i))"
  by (cases i) (simp_all add: chain_before_def mix_chain.simps)

lemma mix_step:
  assumes "length B = 32 * r" "i < 2 * r" "X = chain_before B r i"
  shows "salsa20_8 (blkxor X 0 B (i * 16) 64) = mix_chain B r i" "length X = 16"
proof -
  show l: "length X = 16"
    using assms length_mix_chain [OF assms(1), of "i - 1"] by (auto simp: chain_before_def word_block_def)
  have "i * 16 + 2 * 8 \<le> length B" using assms(1,2) by simp
  then have "blkxor X 0 B (i * 16) 64 = xor_words X (word_block B i)"
    using blkxor_eq [of 64 8 0 X "i * 16" B] l by (simp add: word_block_def blit_def mult.commute)
  moreover have "length (xor_words X (word_block B i)) = 16"
    using l assms(1,2) by (simp add: word_block_def)
  ultimately show "salsa20_8 (blkxor X 0 B (i * 16) 64) = mix_chain B r i"
    unfolding mix_chain_before using assms(3) by (simp add: salsa20_8_core)
qed

lemma blockmix_loop:
  assumes "length Bin = 32 * r" "length Bout = 32 * r" "k \<le> r"
  shows "fold (blockmix_pass Bin r) [0..<k] (Bout, chain_before Bin r 0)
    = (blit (blit Bout 0 (concat (map (\<lambda>i. mix_chain Bin r (2 * i)) [0..<k]))) (16 * r)
        (concat (map (\<lambda>i. mix_chain Bin r (2 * i + 1)) [0..<k])), chain_before Bin r (2 * k))"
  using assms(3)
proof (induction k)
  case (Suc k)
  let ?E = "concat (map (\<lambda>i. mix_chain Bin r (2 * i)) [0..<k])" and ?O = "concat (map (\<lambda>i. mix_chain Bin r (2 * i + 1)) [0..<k])"
  let ?e = "mix_chain Bin r (2 * k)" and ?o = "mix_chain Bin r (2 * k + 1)"
  have l: "length ?E = 16 * k" "length ?O = 16 * k" "length ?e = 16" "length ?o = 16"
    using Suc.prems length_chain_blocks [OF assms(1), of k "\<lambda>i. 2 * i"] length_chain_blocks [OF assms(1), of k "\<lambda>i. 2 * i + 1"]
      length_mix_chain [OF assms(1)] by simp_all
  let ?B = "blit (blit Bout 0 ?E) (16 * r) ?O"
  have lB: "length ?B = 32 * r" using l Suc.prems assms(2) by simp
  have 1: "salsa20_8 (blkxor (chain_before Bin r (2 * k)) 0 Bin (2 * k * 16) 64) = ?e"
    using Suc.prems by (intro mix_step(1) [OF assms(1)]) simp_all
  have 2: "salsa20_8 (blkxor ?e 0 Bin (2 * k * 16 + 16) 64) = ?o"
  proof -
    have "?e = chain_before Bin r (2 * k + 1)" by (simp add: chain_before_def)
    from mix_step(1) [OF assms(1) _ this] Suc.prems show ?thesis by (simp add: algebra_simps)
  qed
  have 3: "blkcpy ?B (2 * k * 8) ?e 0 64 = blit ?B (16 * k) ?e"
    using blkcpy_eq [of 64 8 "2 * k * 8" ?B 0 ?e] l lB Suc.prems by (simp add: mult.commute)
  have 4: "blkcpy (blit ?B (16 * k) ?e) (2 * k * 8 + r * 16) ?o 0 64 = blit (blit ?B (16 * k) ?e) (16 * r + 16 * k) ?o"
    using blkcpy_eq [of 64 8 "2 * k * 8 + r * 16" "blit ?B (16 * k) ?e" 0 ?o] l lB Suc.prems by (simp add: algebra_simps)
  have 5: "blit (blit ?B (16 * k) ?e) (16 * r + 16 * k) ?o = blit (blit Bout 0 (?E @ ?e)) (16 * r) (?O @ ?o)"
  proof -
    have "blit ?B (16 * k) ?e = blit (blit (blit Bout 0 ?E) (16 * k) ?e) (16 * r) ?O"
      using l assms(2) Suc.prems by (intro blit_commute) simp_all
    also have "blit (blit Bout 0 ?E) (16 * k) ?e = blit Bout 0 (?E @ ?e)"
      using l assms(2) Suc.prems by (intro blit_extend) simp_all
    finally have "blit ?B (16 * k) ?e = blit (blit Bout 0 (?E @ ?e)) (16 * r) ?O" .
    then show ?thesis using l assms(2) Suc.prems by (simp add: blit_extend)
  qed
  have o: "?o = chain_before Bin r (2 * Suc k)" by (simp add: chain_before_def)
  have "blockmix_pass Bin r k (?B, chain_before Bin r (2 * k)) = (blit (blit Bout 0 (?E @ ?e)) (16 * r) (?O @ ?o), ?o)"
    unfolding blockmix_pass_def prod.case Let_def 1 2 3 4 5 ..
  then have "fold (blockmix_pass Bin r) [0..<Suc k] (Bout, chain_before Bin r 0)
      = (blit (blit Bout 0 (?E @ ?e)) (16 * r) (?O @ ?o), ?o)"
    using Suc by simp
  then show ?case using o by simp
qed (simp add: blit_def chain_before_def)

lemma blockmix_spec:
  assumes "length Bin = 32 * r" "length Bout = 32 * r" "length X = 16" "0 < r"
  shows "fst (blockmix_salsa8 Bin Bout X r) = scrypt_block_mix r Bin" "length (snd (blockmix_salsa8 Bin Bout X r)) = 16"
proof -
  let ?E = "concat (map (\<lambda>i. mix_chain Bin r (2 * i)) [0..<r])" and ?O = "concat (map (\<lambda>i. mix_chain Bin r (2 * i + 1)) [0..<r])"
  have "(2 * r - 1) * 16 + 2 * 8 \<le> length Bin" using assms(1,4) by (simp add: algebra_simps)
  then have "blkcpy X 0 Bin ((2 * r - 1) * 16) 64 = chain_before Bin r 0"
    using blkcpy_eq [of 64 8 0 X "(2 * r - 1) * 16" Bin] assms(3) by (simp add: chain_before_def word_block_def blit_def mult.commute)
  then have b: "blockmix_salsa8 Bin Bout X r = (blit (blit Bout 0 ?E) (16 * r) ?O, chain_before Bin r (2 * r))"
    using blockmix_loop [OF assms(1,2) order_refl] by (simp add: blockmix_salsa8_def)
  have l: "length ?E = 16 * r" "length ?O = 16 * r"
    using length_chain_blocks [OF assms(1), of r "\<lambda>i. 2 * i"] length_chain_blocks [OF assms(1), of r "\<lambda>i. 2 * i + 1"] by simp_all
  show "fst (blockmix_salsa8 Bin Bout X r) = scrypt_block_mix r Bin"
    unfolding b fst_conv scrypt_block_mix_def using l assms(2) by (simp add: blit_def)
  show "length (snd (blockmix_salsa8 Bin Bout X r)) = 16"
    unfolding b snd_conv chain_before_def using assms(1,4) length_mix_chain [OF assms(1), of "2 * r - 1"] by simp
qed

section \<open>ROMix\<close>

text \<open>The last block as a little-endian number.\<close>

definition last_block_number :: "nat \<Rightarrow> u32 list \<Rightarrow> nat" where
  "last_block_number r B = foldr (\<lambda>w n. unat w + 2 ^ 32 * n) (word_block B (2 * r - 1)) 0"

definition romix_step :: "nat \<Rightarrow> nat \<Rightarrow> u32 list \<Rightarrow> u32 list \<Rightarrow> u32 list" where
  "romix_step r N B X =
     scrypt_block_mix r (xor_words X ((scrypt_block_mix r ^^ (last_block_number r X mod N)) B))"

definition scrypt_romix :: "nat \<Rightarrow> nat \<Rightarrow> u32 list \<Rightarrow> u32 list" where
  "scrypt_romix r N B = (romix_step r N B ^^ N) ((scrypt_block_mix r ^^ N) B)"

lemma integerify_mod:
  assumes "length B = 32 * r" "0 < r" "N = 2 ^ k" "k < 32"
  shows "unat (integerify B r AND (of_nat N - 1)) = last_block_number r B mod N"
proof -
  define s where "s = (2 * r - 1) * 16"
  have s: "s + 16 = length B" using assms(1,2) by (simp add: s_def algebra_simps)
  obtain rest where b: "word_block B (2 * r - 1) = B ! s # B ! (s + 1) # rest"
  proof -
    have "word_block B (2 * r - 1) = drop s B" using s by (simp add: word_block_def slice_def s_def mult.commute)
    also have "\<dots> = B ! s # B ! (s + 1) # drop (s + 2) B"
      using s by (simp add: Cons_nth_drop_Suc)
    finally show ?thesis by (rule that)
  qed
  define M where "M = foldr (\<lambda>w n. unat w + 2 ^ 32 * n) rest 0"
  have n: "last_block_number r B = unat (B ! s) + 2 ^ 32 * unat (B ! (s + 1)) + 2 ^ 64 * M"
    unfolding last_block_number_def b M_def by simp
  have i: "integerify B r = of_nat (unat (B ! s) + 2 ^ 32 * unat (B ! (s + 1)))"
    unfolding integerify_def s_def [symmetric] by (simp add: push_bit_eq_mult add.commute mult.commute)
  have "(of_nat N - 1 :: u64) = mask k" by (simp add: assms(3) mask_eq_exp_minus_1)
  then have "integerify B r AND (of_nat N - 1) = take_bit k (integerify B r)" by (simp add: take_bit_eq_mask)
  then have "unat (integerify B r AND (of_nat N - 1)) = unat (integerify B r) mod 2 ^ k"
    by (simp only: unsigned_take_bit_eq) (simp add: take_bit_eq_mod)
  also have "unat (integerify B r) = (unat (B ! s) + 2 ^ 32 * unat (B ! (s + 1))) mod 2 ^ 64"
    unfolding i unat_of_nat by simp
  also have "\<dots> mod 2 ^ k = (unat (B ! s) + 2 ^ 32 * unat (B ! (s + 1))) mod 2 ^ k"
    using assms(4) by (intro mod_mod_cancel le_imp_power_dvd) simp
  also have "\<dots> = last_block_number r B mod 2 ^ k"
  proof -
    have "(2::nat) ^ 64 = 2 ^ k * 2 ^ (64 - k)" using assms(4) by (simp flip: power_add)
    then have "last_block_number r B = (unat (B ! s) + 2 ^ 32 * unat (B ! (s + 1))) + 2 ^ k * (2 ^ (64 - k) * M)"
      unfolding n by (simp only: mult.assoc)
    then show ?thesis by (simp only: mod_mult_self2)
  qed
  finally show ?thesis by (simp only: assms(3))
qed

lemma length_block_mix_pow [simp]: "length B = 32 * r \<Longrightarrow> length ((scrypt_block_mix r ^^ n) B) = 32 * r"
  by (induction n) simp_all

lemma slice_concat_blocks:
  assumes "\<And>i. length (f i) = n" "j < K"
  shows "slice (concat (map f [0..<K])) (j * n) n = f j"
proof -
  have "take (n * Suc j) (concat (map f [0..<K])) = concat (map f [0..<Suc j])"
    using assms by (intro take_concat_blocks) simp_all
  moreover have "length (concat (map f [0..<j])) = n * j"
    by (simp add: length_concat comp_def assms(1) sum_list_triv)
  ultimately have "drop (n * j) (take (n * Suc j) (concat (map f [0..<K]))) = f j" by simp
  then show ?thesis by (simp add: slice_def drop_take mult.commute)
qed

text \<open>The table after \<open>m\<close> blocks.\<close>

definition table :: "nat \<Rightarrow> (nat \<Rightarrow> u32 list) \<Rightarrow> nat \<Rightarrow> u32 list \<Rightarrow> bool" where
  "table n f m V \<longleftrightarrow> take (n * m) V = concat (map f [0..<m])"

lemma table_store:
  assumes "table n f m V" "length (f m) = n" "n * Suc m \<le> length V"
  shows "table n f (Suc m) (blit V (m * n) (f m))"
proof -
  have "take (n * Suc m) (blit V (m * n) (f m)) = take (n * m) V @ f m"
    using assms(2,3) by (simp add: blit_def mult.commute)
  then show ?thesis using assms(1) by (simp add: table_def)
qed

definition smix_inv :: "nat \<Rightarrow> nat \<Rightarrow> u32 list \<Rightarrow> nat \<Rightarrow> smix_state \<Rightarrow> bool" where
  "smix_inv r N B m s \<longleftrightarrow> length (sm_X s) = 32 * r \<and> length (sm_Y s) = 32 * r \<and> length (sm_Z s) = 16
     \<and> length (sm_V s) = 32 * r * N \<and> table (32 * r) (\<lambda>i. (scrypt_block_mix r ^^ i) B) m (sm_V s)"

lemma fill_step:
  assumes "smix_inv r N B (2 * k) s" "sm_X s = (scrypt_block_mix r ^^ (2 * k)) B" "length B = 32 * r" "0 < r" "2 * k + 2 \<le> N"
  shows "smix_inv r N B (2 * k + 2) (smix_fill r k s)" "sm_X (smix_fill r k s) = (scrypt_block_mix r ^^ (2 * k + 2)) B"
proof -
  let ?f = "\<lambda>i. (scrypt_block_mix r ^^ i) B"
  have l: "length (sm_X s) = 32 * r" "length (sm_Y s) = 32 * r" "length (sm_Z s) = 16" "length (sm_V s) = 32 * r * N"
    "table (32 * r) ?f (2 * k) (sm_V s)" using assms(1) by (simp_all add: smix_inv_def)
  obtain Y Z where 1: "blockmix_salsa8 (sm_X s) (sm_Y s) (sm_Z s) r = (Y, Z)" by fastforce
  have Y: "Y = ?f (Suc (2 * k))" "length Z = 16" "length Y = 32 * r"
    using blockmix_spec [OF l(1-3) assms(4)] assms(2) 1 l(1) by simp_all
  obtain X Z' where 2: "blockmix_salsa8 Y (sm_X s) Z r = (X, Z')" by fastforce
  have X: "X = ?f (Suc (Suc (2 * k)))" "length Z' = 16" "length X = 32 * r"
    using blockmix_spec [OF Y(3) l(1) Y(2) assms(4)] 2 Y(1,3) by simp_all
  have N: "32 * r * (2 * k + 2) \<le> 32 * r * N" using assms(5) by (rule mult_le_mono2)
  let ?V = "blit (sm_V s) (2 * k * (32 * r)) (?f (2 * k))"
  have v1: "blkcpy (sm_V s) (2 * k * (32 * r)) (sm_X s) 0 (128 * r) = ?V"
    using blkcpy_eq [of "128 * r" "16 * r" "2 * k * (32 * r)" "sm_V s" 0 "sm_X s"] l N assms(2) by (simp add: algebra_simps)
  have lV: "length ?V = 32 * r * N" using l(4) N assms(3) by (simp add: algebra_simps)
  have v2: "blkcpy ?V ((2 * k + 1) * (32 * r)) Y 0 (128 * r) = blit ?V (Suc (2 * k) * (32 * r)) (?f (Suc (2 * k)))"
    using blkcpy_eq [of "128 * r" "16 * r" "(2 * k + 1) * (32 * r)" ?V 0 Y] lV N Y by (simp add: algebra_simps)
  have t1: "table (32 * r) ?f (Suc (2 * k)) ?V"
    using l(4) N assms(3) by (intro table_store [OF l(5)]) (simp_all add: algebra_simps)
  have t2: "table (32 * r) ?f (Suc (Suc (2 * k))) (blit ?V (Suc (2 * k) * (32 * r)) (?f (Suc (2 * k))))"
    using lV N by (intro table_store [OF t1]) (simp_all add: assms(3) algebra_simps)
  have f: "smix_fill r k s = \<lparr>sm_X = X, sm_Y = Y, sm_Z = Z', sm_V = blit ?V (Suc (2 * k) * (32 * r)) (?f (Suc (2 * k)))\<rparr>"
    unfolding smix_fill_def Let_def v1 1 prod.case v2 2 ..
  have "length (blit ?V (Suc (2 * k) * (32 * r)) (?f (Suc (2 * k)))) = 32 * r * N"
    using lV N Y(1,3) by (simp add: algebra_simps)
  then show "smix_inv r N B (2 * k + 2) (smix_fill r k s)"
    unfolding f smix_inv_def using X Y t2 by simp
  show "sm_X (smix_fill r k s) = ?f (2 * k + 2)" unfolding f using X(1) by simp
qed

lemma mix_step_word:
  assumes "length X = 32 * r" "length V = 32 * r * N" "table (32 * r) (\<lambda>i. (scrypt_block_mix r ^^ i) B) N V"
    "length B = 32 * r" "0 < r" "N = 2 ^ e" "e < 32"
  shows "blkxor X 0 V (unat (integerify X r AND (of_nat N - 1)) * (32 * r)) (128 * r)
    = xor_words X ((scrypt_block_mix r ^^ (last_block_number r X mod N)) B)"
proof -
  let ?f = "\<lambda>i. (scrypt_block_mix r ^^ i) B"
  define j where "j = last_block_number r X mod N"
  have j: "j < N" using assms(6) by (simp add: j_def)
  have V: "V = concat (map ?f [0..<N])" using assms(2,3) by (simp add: table_def)
  have s: "slice V (j * (32 * r)) (32 * r) = ?f j"
    unfolding V using assms(4) j by (intro slice_concat_blocks) simp_all
  have "32 * r * Suc j \<le> 32 * r * N" using j by (intro mult_le_mono2) simp
  then have "blkxor X 0 V (j * (32 * r)) (128 * r) = xor_words X (?f j)"
    using blkxor_eq [of "128 * r" "16 * r" 0 X "j * (32 * r)" V] assms(1,2,4) s by (simp add: blit_def algebra_simps)
  then show ?thesis
    unfolding integerify_mod [OF assms(1,5,6,7)] j_def .
qed

lemma mix_pass:
  assumes "smix_inv r N B N s" "length B = 32 * r" "0 < r" "N = 2 ^ e" "e < 32"
  shows "smix_inv r N B N (smix_mix r N s)" "sm_X (smix_mix r N s) = romix_step r N B (romix_step r N B (sm_X s))"
proof -
  have l: "length (sm_X s) = 32 * r" "length (sm_Y s) = 32 * r" "length (sm_Z s) = 16" "length (sm_V s) = 32 * r * N"
    "table (32 * r) (\<lambda>i. (scrypt_block_mix r ^^ i) B) N (sm_V s)" using assms(1) by (simp_all add: smix_inv_def)
  let ?g = "\<lambda>X. xor_words X ((scrypt_block_mix r ^^ (last_block_number r X mod N)) B)"
  have g: "length (?g X) = 32 * r" if "length X = 32 * r" for X using that assms(2) by simp
  obtain Y Z where 1: "blockmix_salsa8 (?g (sm_X s)) (sm_Y s) (sm_Z s) r = (Y, Z)" by fastforce
  have Y: "Y = romix_step r N B (sm_X s)" "length Z = 16" "length Y = 32 * r"
    using blockmix_spec [OF g [OF l(1)] l(2,3) assms(3)] 1 g [OF l(1)] by (simp_all add: romix_step_def)
  obtain X Z' where 2: "blockmix_salsa8 (?g Y) (?g (sm_X s)) Z r = (X, Z')" by fastforce
  have X: "X = romix_step r N B Y" "length Z' = 16" "length X = 32 * r"
    using blockmix_spec [OF g [OF Y(3)] g [OF l(1)] Y(2) assms(3)] 2 g [OF Y(3)] by (simp_all add: romix_step_def)
  have m: "smix_mix r N s = s\<lparr>sm_X := X, sm_Y := ?g Y, sm_Z := Z'\<rparr>"
    unfolding smix_mix_def Let_def mix_step_word [OF l(1,4,5) assms(2-5)] 1 prod.case
      mix_step_word [OF Y(3) l(4,5) assms(2-5)] 2 ..
  show "smix_inv r N B N (smix_mix r N s)" unfolding m smix_inv_def using X(2,3) l g [OF Y(3)] by simp
  show "sm_X (smix_mix r N s) = romix_step r N B (romix_step r N B (sm_X s))" unfolding m using X(1) Y(1) by simp
qed

lemma smix_spec:
  assumes "length B = 128 * r" "0 < r" "N = 2 ^ Suc e" "Suc e < 32"
    "length (sm_Y s) = 32 * r" "length (sm_Z s) = 16" "length (sm_V s) = 32 * r * N"
  shows "smix B r N s = Some (bytes_of 4 (scrypt_romix r N (words_of 4 (32 * r) B)))"
proof -
  let ?B = "words_of 4 (32 * r) B :: u32 list"
  have lB: "length ?B = 32 * r" by simp
  have dec: "map (\<lambda>k. le32dec (slice B (4 * k) 4)) [0..<32 * r] = ?B"
    using assms(1) by (intro nth_equalityI) (simp_all add: nth_words_of dec32_words)
  define s0 where "s0 = s\<lparr>sm_X := ?B\<rparr>"
  have s0: "smix_inv r N ?B 0 s0" using assms(5-7) by (simp add: smix_inv_def s0_def table_def)
  have N: "2 * (N div 2) = N" using assms(3) by simp
  have "smix_inv r N ?B (2 * k) (fold (smix_fill r) [0..<k] s0)
      \<and> sm_X (fold (smix_fill r) [0..<k] s0) = (scrypt_block_mix r ^^ (2 * k)) ?B" if "k \<le> N div 2" for k
    using that
  proof (induction k)
    case (Suc k)
    have "2 * k + 2 \<le> N" using Suc.prems N by simp
    then show ?case using fill_step [of r N ?B k "fold (smix_fill r) [0..<k] s0"] Suc lB assms(2) by simp
  qed (use s0 in \<open>simp add: s0_def\<close>)
  then have fill: "smix_inv r N ?B N (fold (smix_fill r) [0..<N div 2] s0)"
    "sm_X (fold (smix_fill r) [0..<N div 2] s0) = (scrypt_block_mix r ^^ N) ?B" using N by fastforce+
  define s1 where "s1 = fold (smix_fill r) [0..<N div 2] s0"
  have "smix_inv r N ?B N ((smix_mix r N ^^ k) s1) \<and> sm_X ((smix_mix r N ^^ k) s1) = (romix_step r N ?B ^^ (2 * k)) (sm_X s1)" for k
  proof (induction k)
    case (Suc k)
    then show ?case using mix_pass [OF _ lB assms(2-4)] by simp
  qed (use fill in \<open>simp add: s1_def\<close>)
  from this [of "N div 2"] have mix: "sm_X ((smix_mix r N ^^ (N div 2)) s1) = scrypt_romix r N ?B"
    "length (sm_X ((smix_mix r N ^^ (N div 2)) s1)) = 32 * r"
    using fill(2) N unfolding s1_def [symmetric] scrypt_romix_def smix_inv_def by (simp, blast)
  have "map (\<lambda>k. le32enc (w ! k)) [0..<32 * r] = map (le_bytes 4) w" if "length w = 32 * r" for w
    using that by (intro nth_equalityI) (simp_all add: enc32_bytes)
  then show ?thesis
    using assms(2,3) mix unfolding smix_def dec s0_def [symmetric] Let_def s1_def [symmetric]
    by (simp add: bytes_of_def)
qed

section \<open>The whole function\<close>

text \<open>scrypt of RFC 7914 with one lane, password and salt both the input, 32 bytes of output.\<close>

definition scrypt_spec :: "bytes \<Rightarrow> nat \<Rightarrow> nat \<Rightarrow> bytes" where
  "scrypt_spec P N r =
     pbkdf2 hmac_sha256 P (bytes_of 4 (scrypt_romix r N (words_of 4 (32 * r) (pbkdf2 hmac_sha256 P P 1 (128 * r))))) 1 32"

lemma align64_bounds: "addr \<le> align64 addr" "align64 addr - addr < 64"
proof -
  have "align64 addr + (addr + 63) mod 64 = addr + 63" unfolding align64_def by (rule div_mult_mod_eq)
  moreover have "(addr + 63) mod 64 < 64" by simp
  ultimately show "addr \<le> align64 addr" "align64 addr - addr < 64" by simp_all
qed

lemma pbkdf2_length: "length (pbkdf2 hmac_sha256 P S c n) = n"
  using pbkdf2_iterate_T(2) [of "replicate 64 0"]
  by (simp add: pbkdf2_def length_concat comp_def sum_list_triv)

lemma pbkdf2_writes:
  "length stack = 64 \<Longrightarrow> n \<le> length buf \<Longrightarrow> PBKDF2_SHA256 stack P S c buf n = blit buf 0 (pbkdf2 hmac_sha256 P S c n)"
  using pbkdf2_blocks_spec [of stack P S "HMAC_SHA256_Update (HMAC_SHA256_Init stack P) S (length S)" n buf c 0]
    hmac_update_inv [OF hmac_init_inv [of stack P], of "length S" S]
  by (simp add: PBKDF2_SHA256_def blit_def)

lemma scrypt_sp_spec:
  assumes "length stack = 64" "32 \<le> length output" "0 < r" "N = 2 ^ Suc e" "Suc e < 32"
    "align64 addr - addr + 128 * r + (256 * r + 64) + 128 * r * N \<le> length mem"
  shows "scrypt_N_R_1_256_sp stack input output addr mem N r = Some (blit output 0 (scrypt_spec input N r))"
proof -
  let ?b = "align64 addr - addr"
  let ?s = "\<lparr>sm_X = words_of 4 (32 * r) (slice mem (?b + 128 * r) (128 * r)),
              sm_Y = words_of 4 (32 * r) (slice mem (?b + 128 * r + 128 * r) (128 * r)),
              sm_Z = words_of 4 16 (slice mem (?b + 128 * r + 256 * r) 64),
              sm_V = words_of 4 (32 * r * N) (slice mem (?b + 128 * r + (256 * r + 64)) (128 * r * N))\<rparr>"
  have "PBKDF2_SHA256 stack input input 1 (slice mem ?b (128 * r)) (128 * r) = pbkdf2 hmac_sha256 input input 1 (128 * r)"
    using pbkdf2_writes [OF assms(1), of "128 * r" "slice mem ?b (128 * r)"] assms(6) by (simp add: blit_def pbkdf2_length)
  moreover have "smix (pbkdf2 hmac_sha256 input input 1 (128 * r)) r N ?s
      = Some (bytes_of 4 (scrypt_romix r N (words_of 4 (32 * r) (pbkdf2 hmac_sha256 input input 1 (128 * r)))))"
    using assms(3-5) by (intro smix_spec) (simp_all add: pbkdf2_length)
  ultimately show ?thesis
    using assms(6) pbkdf2_writes [OF assms(1,2)] by (simp add: scrypt_N_R_1_256_sp_def Let_def scrypt_spec_def)
qed

lemma scratch_size:
  assumes "128 * unat N * unat R + 384 * unat R + 128 < 2 ^ 32"
  shows "unat (scrypt_scratch_size N R) = 128 * unat N * unat R + 384 * unat R + 128"
proof -
  have "scrypt_scratch_size N R = of_nat (128 * unat N * unat R + 384 * unat R + 128)"
    by (simp add: scrypt_scratch_size_def algebra_simps)
  then show ?thesis using assms by (intro of_nat_inverse) (simp_all del: of_nat_add of_nat_mult)
qed

section \<open>Properties\<close>

text \<open>C1: (scrypt) For every power of two \<open>N\<close> from 2 on, every \<open>R\<close> from 1 on whose scratchpad size does not
  overflow 32 bits, every input and whatever address and content the allocator returns, the function writes
  the 32 bytes of scrypt (RFC 7914, one lane, the input as password and as salt) to its output and stays inside
  the allocation.  The two-step passes, the masked table index, the in-place even and odd blocks and the
  unaligned scratchpad are all covered.
\<close>

theorem scrypt_refines_rfc:
  assumes "length stack = 64" "32 \<le> length output" "unat N = 2 ^ Suc e" "0 < unat R"
    "128 * unat N * unat R + 384 * unat R + 128 < 2 ^ 32"
    "malloc (unat (scrypt_scratch_size N R)) = Some (addr, mem)" "length mem = unat (scrypt_scratch_size N R)"
  shows "scrypt_N_R_1_256 malloc stack input output N R = Some (blit output 0 (scrypt_spec input (unat N) (unat R)))"
proof -
  have "unat N < 2 ^ LENGTH(32)" by (rule unsigned_less)
  then have "(2::nat) ^ Suc e < 2 ^ 32" unfolding assms(3) by simp
  then have e: "Suc e < 32" by (rule power_less_imp_less_exp [rotated]) simp
  have "align64 addr - addr + 128 * unat R + (256 * unat R + 64) + 128 * unat R * unat N \<le> length mem"
    using align64_bounds(2) [of addr] assms(7) scratch_size [OF assms(5)] by (simp add: algebra_simps)
  from scrypt_sp_spec [OF assms(1,2,4,3) e this] assms(6) show ?thesis by (simp add: scrypt_N_R_1_256_def)
qed

theorem scrypt_refines_rfc_witness:
  "scrypt_N_R_1_256 (\<lambda>n. Some (7, replicate n 5)) (replicate 64 0) [1, 2, 3] (replicate 32 0) 1024 1
    = Some (scrypt_spec [1, 2, 3] 1024 1)"
  using scrypt_refines_rfc [of "replicate 64 0" "replicate 32 0" 1024 9 1 "\<lambda>n. Some (7, replicate n 5)" 7
      "replicate (unat (scrypt_scratch_size 1024 1)) 5" "[1, 2, 3]"]
  by (simp add: blit_def scrypt_spec_def pbkdf2_length)



end
