(* ===== verification/Dcrypt.thy ===== *)
theory Dcrypt
  imports Sha256_Stream "HOL-Library.Monad_Syntax"
begin

text \<open>
  The dcrypt proof-of-work function, \<^verbatim>\<open>libmultihash/dcrypt.c\<close>.  It has a SHA-256 of its own that pads the
  message inside the caller's buffer and writes the digest as 64 numbers below 16, one per byte, and a mixing
  loop whose length depends on the data.  The macros \<open>Ch\<close>, \<open>Maj\<close>, \<open>ROTR\<close>, \<open>S0\<close>, \<open>S1\<close>, \<open>s0\<close>, \<open>s1\<close> of the file are
  those of \<^verbatim>\<open>sha256.h\<close> and are shared.

  Buffers are byte lists of the size the code allocated.  \<open>None\<close> means that the code reads or writes outside
  a buffer; lengths stay below \<open>2^32\<close> and are natural numbers.
\<close>

unbundle bit_operations_syntax

section \<open>SHA-256 in the buffer of the caller\<close>

definition hexmap :: bytes where
  "hexmap = map (\<lambda>c. of_nat (of_char c)) ''0123456789abcdef''"

definition dc_K :: "u32 list" where
  "dc_K = concat
    [[0x428a2f98, 0x71374491, 0xb5c0fbcf, 0xe9b5dba5],
     [0x3956c25b, 0x59f111f1, 0x923f82a4, 0xab1c5ed5],
     [0xd807aa98, 0x12835b01, 0x243185be, 0x550c7dc3],
     [0x72be5d74, 0x80deb1fe, 0x9bdc06a7, 0xc19bf174],
     [0xe49b69c1, 0xefbe4786, 0x0fc19dc6, 0x240ca1cc],
     [0x2de92c6f, 0x4a7484aa, 0x5cb0a9dc, 0x76f988da],
     [0x983e5152, 0xa831c66d, 0xb00327c8, 0xbf597fc7],
     [0xc6e00bf3, 0xd5a79147, 0x06ca6351, 0x14292967],
     [0x27b70a85, 0x2e1b2138, 0x4d2c6dfc, 0x53380d13],
     [0x650a7354, 0x766a0abb, 0x81c2c92e, 0x92722c85],
     [0xa2bfe8a1, 0xa81a664b, 0xc24b8b70, 0xc76c51a3],
     [0xd192e819, 0xd6990624, 0xf40e3585, 0x106aa070],
     [0x19a4c116, 0x1e376c08, 0x2748774c, 0x34b0bcb5],
     [0x391c0cb3, 0x4ed8aa4a, 0x5b9cca4f, 0x682e6ff3],
     [0x748f82ee, 0x78a5636f, 0x84c87814, 0x8cc70208],
     [0x90befffa, 0xa4506ceb, 0xbef9a3f7, 0xc67178f2]]"

definition dc_H :: "u32 list" where
  "dc_H = [0x6a09e667, 0xbb67ae85, 0x3c6ef372, 0xa54ff53a, 0x510e527f, 0x9b05688c, 0x1f83d9ab, 0x5be0cd19]"

definition dc_blocks :: "nat \<Rightarrow> nat" where
  "dc_blocks len = (let l = (len + 1) div 4 + 2 in (l + 15) div 16)"

definition dc_schedule :: "bytes \<Rightarrow> nat \<Rightarrow> nat \<Rightarrow> u32 list" where
  "dc_schedule instr len curBlock =
     (let word = \<lambda>t. push_bit 24 (ucast (instr ! (curBlock * 64 + t * 4 + 0))) + push_bit 16 (ucast (instr ! (curBlock * 64 + t * 4 + 1)))
                   + push_bit 8 (ucast (instr ! (curBlock * 64 + t * 4 + 2))) + ucast (instr ! (curBlock * 64 + t * 4 + 3)) :: u32;
          W = map word [0..<16] @ replicate 48 0;
          W = (if curBlock = dc_blocks len - 1 then W[15 := of_nat len * 8] else W)
      in fold (\<lambda>t W. W[t := sigma1 (W ! (t - 2)) + W ! (t - 7) + sigma0 (W ! (t - 15)) + W ! (t - 16)]) [16..<64] W)"

definition dc_round :: "u32 list \<Rightarrow> nat \<Rightarrow> u32 list \<Rightarrow> u32 list" where
  "dc_round W t v =
     (case v of
        [a, b, c, d, e, f, g, h] \<Rightarrow>
          (let T1 = h + Sigma1 e + Ch e f g + dc_K ! t + W ! t;
               T2 = Sigma0 a + Maj a b c
           in [T1 + T2, a, b, c, d + T1, e, f, g])
      | _ \<Rightarrow> v)"

definition dc_block :: "bytes \<Rightarrow> nat \<Rightarrow> nat \<Rightarrow> u32 list \<Rightarrow> u32 list" where
  "dc_block instr len curBlock H = map2 (+) H (fold (dc_round (dc_schedule instr len curBlock)) [0..<64] H)"

text \<open>The eight digits of a word, highest first, one per byte.\<close>

definition dc_digits :: "u32 \<Rightarrow> bytes" where
  "dc_digits i = map (\<lambda>k. ucast (drop_bit k i AND 0xf)) [28, 24, 20, 16, 12, 8, 4, 0]"

text \<open>The padded buffer and the 64 bytes written to \<open>hash\<close>.\<close>

definition dc_sha256 :: "bytes \<Rightarrow> nat \<Rightarrow> (bytes \<times> bytes) option" where
  "dc_sha256 instr len =
     (let N = dc_blocks len
      in if N * 64 > length instr then None
         else
           let instr = blit instr len (128 # replicate (N * 64 - (len + 1)) 0);
               H = fold (dc_block instr len) [0..<N] dc_H
           in Some (instr, concat (map dc_digits H)))"

section \<open>Mixing\<close>

definition hexToAsc :: "bytes \<Rightarrow> nat \<Rightarrow> bytes option" where
  "hexToAsc tmp_list len =
     (if len \<le> length tmp_list \<and> (\<forall>i \<in> set (take len tmp_list). i < 16)
      then Some (blit tmp_list 0 (map (\<lambda>d. hexmap ! unat d) (take len tmp_list)))
      else None)"

record mix_state =
  mx_hashed :: bytes
  mx_tmp :: bytes
  mx_index :: nat
  mx_ret :: bytes
  mx_len :: nat

definition rehash :: "bytes \<Rightarrow> bytes option" where
  "rehash hashedData = do {
     h \<leftarrow> hexToAsc hashedData 64;
     (h, digits) \<leftarrow> dc_sha256 h 64;
     Some (blit h 0 digits)
   }"

text \<open>One pass of the loop: the new state, and whether \<open>hashed_end\<close> was set.\<close>

definition mix_pass :: "mix_state \<Rightarrow> (mix_state \<times> bool) option" where
  "mix_pass s =
     (if length (mx_hashed s) \<le> mx_index s then None
      else do {
        let index = mx_index s + unat (mx_hashed s ! mx_index s) + 1;
        (hashed, index) \<leftarrow> (if index \<ge> 64 then map_option (\<lambda>h. (h, index mod 64)) (rehash (mx_hashed s))
                            else Some (mx_hashed s, index));
        if length hashed \<le> index \<or> hashed ! index \<ge> 16 \<or> length (mx_ret s) < mx_len s + 64 then None
        else do {
          let tmp_val = hexmap ! unat (hashed ! index);
          (tmp, digits) \<leftarrow> dc_sha256 ((mx_tmp s)[64 := tmp_val]) 65;
          tmp \<leftarrow> hexToAsc (blit tmp 0 digits) 64;
          Some (\<lparr>mx_hashed = hashed, mx_tmp = tmp, mx_index = index,
                 mx_ret = blit (mx_ret s) (mx_len s) (take 64 tmp), mx_len = mx_len s + 64\<rparr>,
                index = 63 \<and> tmp_val = tmp ! 63)
        }
      })"

lemma mix_pass_len: "mix_pass s = Some (s', e) \<Longrightarrow> mx_len s' = mx_len s + 64"
  by (auto simp: mix_pass_def Let_def split: if_splits Option.bind_splits)

text \<open>The loop ends with \<open>true\<close> when a pass sets \<open>hashed_end\<close>, with \<open>false\<close> when the list is too long.\<close>

function mix_loop :: "mix_state \<Rightarrow> (bool \<times> mix_state) option" where
  "mix_loop s =
     (case mix_pass s of
        None \<Rightarrow> None
      | Some (s', hashed_end) \<Rightarrow>
          if mx_len s' > 1048576 then Some (False, s')
          else if hashed_end then Some (True, s')
          else mix_loop s')"
  by pat_completeness auto
termination
  by (relation "measure (\<lambda>s. 1048577 - mx_len s)") (auto dest: mix_pass_len)

declare mix_loop.simps [simp del]

text \<open>
  \<open>malloc n\<close> is the content of a new block for \<open>n\<close> bytes, as long as the allocator made it, or \<open>None\<close> when there
  is no memory, which the code does not check.
\<close>

definition mix_hashed_num :: "(nat \<Rightarrow> bytes option) \<Rightarrow> bytes \<Rightarrow> bytes \<Rightarrow> (bool \<times> mix_state) option" where
  "mix_hashed_num malloc hashedData ret_list = do {
     tmp_list \<leftarrow> malloc 128;
     mix_loop \<lparr>mx_hashed = hashedData, mx_tmp = blit tmp_list 0 (replicate 64 255), mx_index = 0,
       mx_ret = ret_list, mx_len = 0\<rparr>
   }"

text \<open>\<open>Some None\<close>: the buffer limit was exceeded, a message is printed and nothing is written to \<open>hash\<close>.\<close>

definition dcrypt_hash :: "(nat \<Rightarrow> bytes option) \<Rightarrow> bytes \<Rightarrow> bytes option option" where
  "dcrypt_hash malloc input = do {
     let len = length input;
     instr \<leftarrow> malloc len;
     let instr = blit instr 0 input;
     hashed \<leftarrow> malloc 128;
     mixedHash \<leftarrow> malloc (1048576 + 1024);
     (instr, digits) \<leftarrow> dc_sha256 instr len;
     (ok, s) \<leftarrow> mix_hashed_num malloc (blit hashed 0 digits) mixedHash;
     if ok then do {
       finalToHash \<leftarrow> malloc (mx_len s + len + 64);
       let finalToHash = blit (blit finalToHash 0 (take (mx_len s) (mx_ret s))) (mx_len s) (take len instr);
       (finalToHash, digits) \<leftarrow> dc_sha256 finalToHash (len + mx_len s);
       Some (Some digits)
     } else Some None
   }"

section \<open>The hash is SHA-256 for most lengths\<close>

text \<open>Blocks of the standard: the message, the end mark and the eight bytes of the length.\<close>

definition sha_blocks :: "nat \<Rightarrow> nat" where
  "sha_blocks len = (len + 72) div 64"

lemma dc_blocks_sha_blocks:
  "dc_blocks len = (if len mod 64 \<in> {56, 57, 58} then sha_blocks len - 1 else sha_blocks len)"
  "64 * dc_blocks len > len"
proof -
  define r q where "r = len mod 64" and "q = len div 64"
  have len: "len = 64 * q + r" "r < 64" by (simp_all add: r_def q_def)
  have d: "dc_blocks len = q + ((r + 1) div 4 + 17) div 16"
  proof -
    have "(len + 1) div 4 = 16 * q + (r + 1) div 4" using len(1) by simp
    then show ?thesis by (simp add: dc_blocks_def Let_def)
  qed
  have s: "sha_blocks len = q + (r + 72) div 64" by (simp add: sha_blocks_def len(1))
  have m: "((r + 1) div 4 + 17) div 16 = (if r < 59 then 1 else 2)" "(r + 72) div 64 = (if r < 56 then 1 else 2)"
    using len(2) by auto
  show "dc_blocks len = (if len mod 64 \<in> {56, 57, 58} then sha_blocks len - 1 else sha_blocks len)"
    unfolding d s m r_def [symmetric] by auto
  show "64 * dc_blocks len > len" unfolding d m using len by auto
qed

lemma length_sha_pad: "length (sha_pad m) = 64 * sha_blocks (length m)"
proof -
  define r q where "r = length m mod 64" and "q = length m div 64"
  have len: "length m = 64 * q + r" "r < 64" by (simp_all add: r_def q_def)
  have "(119 - r) mod 64 = (if r < 56 then 55 - r else 119 - r)"
  proof (cases "r < 56")
    case True
    have "119 - r = 64 + (55 - r)" using True by simp
    moreover have "(64 + (55 - r)) mod 64 = 55 - r" unfolding mod_add_self1 using True by simp
    ultimately show ?thesis using True by simp
  qed (use len(2) in simp)
  moreover have "(r + 72) div 64 = (if r < 56 then 1 else 2)" using len(2) by auto
  moreover have "length (sha_pad m) = length m + 9 + (119 - r) mod 64" by (simp add: sha_pad_def r_def)
  moreover have "sha_blocks (length m) = q + (r + 72) div 64" by (simp add: sha_blocks_def len(1))
  ultimately show ?thesis using len by auto
qed

lemma dc_tables: "dc_K = round_constants" "dc_H = sha_H0"
  by (simp_all add: dc_K_def round_constants_def round_calls_def dc_H_def sha_H0_def)

lemma dc_round_sha:
  assumes "length v = 8"
  shows "dc_round W t v = sha_round (round_constants ! t) (W ! t) v"
proof -
  obtain a b c d e f g h where "v = [a, b, c, d, e, f, g, h]" using list_8_ex [OF assms] by blast
  then show ?thesis by (simp add: dc_round_def sha_round_def Let_def functions_of_standard dc_tables)
qed

lemma fold_dc_round:
  assumes "length v = 8" "\<And>t. t < 64 \<Longrightarrow> W ! t = sha_schedule block t"
  shows "map2 (+) v (fold (dc_round W) [0..<64] v) = sha_compress v block"
proof -
  let ?r = "\<lambda>t. sha_round (round_constants ! t) (sha_schedule block t)"
  have "fold (dc_round W) [0..<n] v = fold ?r [0..<n] v \<and> length (fold ?r [0..<n] v) = 8" if "n \<le> 64" for n
    using that assms by (induction n) (simp_all add: dc_round_sha length_round)
  from this [of 64] show ?thesis unfolding sha_compress_def by (simp only: order_refl)
qed

lemma dc_schedule_words:
  assumes "length block = 64" "i < 64" "curBlock * 64 + 64 \<le> length instr"
    "\<And>t. t < 15 \<Longrightarrow> slice block (4 * t) 4 = slice instr (curBlock * 64 + 4 * t) 4"
    "if curBlock = dc_blocks len - 1 then be_word (slice block 60 4) = (of_nat len * 8 :: u32)
     else slice block 60 4 = slice instr (curBlock * 64 + 60) 4"
  shows "dc_schedule instr len curBlock ! i = sha_schedule block i"
proof -
  define ws where "ws = (let word = \<lambda>t. push_bit 24 (ucast (instr ! (curBlock * 64 + t * 4 + 0))) + push_bit 16 (ucast (instr ! (curBlock * 64 + t * 4 + 1)))
                   + push_bit 8 (ucast (instr ! (curBlock * 64 + t * 4 + 2))) + ucast (instr ! (curBlock * 64 + t * 4 + 3)) :: u32
      in if curBlock = dc_blocks len - 1 then (map word [0..<16])[15 := of_nat len * 8] else map word [0..<16])"
  have d: "dc_schedule instr len curBlock
      = fold (\<lambda>i W. W[i := sigma1 (W ! (i - 2)) + W ! (i - 7) + sigma0 (W ! (i - 15)) + W ! (i - 16)]) [16..<64] (ws @ replicate 48 0)"
    unfolding dc_schedule_def Let_def ws_def by (simp add: list_update_append1 del: upt_rec_numeral)
  have w: "push_bit 24 (ucast (instr ! (curBlock * 64 + t * 4 + 0))) + push_bit 16 (ucast (instr ! (curBlock * 64 + t * 4 + 1)))
      + push_bit 8 (ucast (instr ! (curBlock * 64 + t * 4 + 2))) + ucast (instr ! (curBlock * 64 + t * 4 + 3))
      = (be_word (slice instr (curBlock * 64 + 4 * t) 4) :: u32)" if "t < 16" for t
  proof -
    have l: "length (slice instr (curBlock * 64 + 4 * t) 4) = 4" using assms(3) that by simp
    show ?thesis
      unfolding dec32_words(1) [OF l, symmetric] be32dec_def using assms(3) that by (simp add: algebra_simps)
  qed
  show ?thesis
    unfolding d
  proof (rule schedule_fold [OF _ _ assms(2)])
    show "length ws = 16" by (simp add: ws_def Let_def)
    show "ws ! t = be_word (slice block (4 * t) 4)" if "t < 16" for t
    proof (cases "t = 15")
      case True
      then show ?thesis using assms(5) w [OF that] by (auto simp: ws_def Let_def split: if_splits)
    next
      case False
      then show ?thesis using assms(4) [of t] w [OF that] that by (auto simp: ws_def Let_def)
    qed
  qed
qed

definition hex_digits :: "bytes \<Rightarrow> bytes" where
  "hex_digits bs = concat (map (\<lambda>b. [drop_bit 4 b, b AND 0xf]) bs)"

lemma dc_digits_hex: "dc_digits w = hex_digits (be_bytes 4 w)"
proof -
  have a: "(ucast (drop_bit (k + 4) w AND 0xf) :: byte) = drop_bit 4 (ucast (drop_bit k w))"
    "(ucast (drop_bit k w AND 0xf) :: byte) = ucast (drop_bit k w) AND 0xf" for k
  proof -
    have f: "(0xf :: u32) = mask 4" "(0xf :: byte) = mask 4" by (simp_all add: mask_eq_exp_minus_1)
    show "(ucast (drop_bit (k + 4) w AND 0xf) :: byte) = drop_bit 4 (ucast (drop_bit k w))"
      "(ucast (drop_bit k w AND 0xf) :: byte) = ucast (drop_bit k w) AND 0xf"
      unfolding f by (rule bit_word_eqI; auto simp: bit_simps add_ac)+
  qed
  have b: "be_bytes 4 w = [ucast (drop_bit 24 w), ucast (drop_bit 16 w), ucast (drop_bit 8 w), ucast (drop_bit 0 w)]"
    by (simp add: eval_nat_numeral drop_bit_drop_bit)
  show ?thesis
    unfolding dc_digits_def hex_digits_def b
    using a(1) [of 24] a(1) [of 16] a(1) [of 8] a(1) [of 0] a(2) [of 24] a(2) [of 16] a(2) [of 8] a(2) [of 0] by simp
qed

lemma hex_digits_concat: "concat (map dc_digits ws) = hex_digits (concat (map (be_bytes 4) ws))"
  by (induction ws) (simp_all add: dc_digits_hex hex_digits_def)

lemma slice_slice: "a + n \<le> m \<Longrightarrow> slice (slice xs off m) a n = slice xs (off + a) n"
  by (simp add: slice_def drop_take min_def add.commute)

lemma pad_as_buffer:
  assumes "len \<le> length instr" "len mod 64 \<notin> {56, 57, 58}" "8 * len < 2 ^ 32" "dc_blocks len * 64 \<le> length instr"
  defines "n \<equiv> dc_blocks len * 64"
  defines "instr' \<equiv> blit instr len (128 # replicate (n - (len + 1)) 0)"
  shows "sha_pad (take len instr) = take (n - 4) instr' @ be_bytes 4 (of_nat len * 8 :: u32)" "length instr' = length instr"
proof -
  let ?m = "take len instr"
  have lm: "length ?m = len" using assms(1) by simp
  have n: "length (sha_pad ?m) = n" "n > len" using length_sha_pad [of ?m] dc_blocks_sha_blocks [of len] assms(2) lm
    by (simp_all add: n_def mult.commute)
  define z where "z = (119 - len mod 64) mod 64"
  have p: "sha_pad ?m = ?m @ 0x80 # replicate z 0 @ [0, 0, 0, 0] @ be_bytes 4 (of_nat len * 8 :: u32)"
  proof -
    have "count_hi (8 * len) = 0" "count_lo (8 * len) = of_nat len * 8"
      using assms(3) by (simp_all add: count_hi_def count_lo_def mult.commute)
    moreover have "be_bytes 4 (0 :: u32) = [0, 0, 0, 0]" by (simp add: eval_nat_numeral)
    ultimately show ?thesis unfolding sha_pad_def lm be_bytes_8 z_def by simp
  qed
  then have z: "n = len + z + 9" using n(1) lm by simp
  have "instr' = ?m @ 0x80 # replicate (z + 8) 0 @ drop n instr"
    using z assms(1) by (simp add: instr'_def blit_def min_def add_ac)
  moreover have "replicate (z + 8) (0::byte) = replicate z 0 @ [0, 0, 0, 0] @ replicate 4 0"
  proof -
    have "replicate 8 (0::byte) = [0, 0, 0, 0] @ replicate 4 0" by (simp add: eval_nat_numeral)
    then show ?thesis by (simp only: replicate_add)
  qed
  ultimately have "instr' = (?m @ 0x80 # replicate z 0 @ [0, 0, 0, 0]) @ replicate 4 0 @ drop n instr" by simp
  moreover have "length (?m @ 0x80 # replicate z 0 @ [0, 0, 0, 0]) = n - 4" using lm z by simp
  ultimately have "take (n - 4) instr' = ?m @ 0x80 # replicate z 0 @ [0, 0, 0, 0]"
    by (metis append_eq_conv_conj)
  then show "sha_pad ?m = take (n - 4) instr' @ be_bytes 4 (of_nat len * 8 :: u32)" unfolding p by simp
  show "length instr' = length instr"
    using n(2) assms(4) by (simp add: instr'_def n_def)
qed

lemma dc_block_compress:
  assumes "sha_pad m = take (n - 4) instr @ be_bytes 4 (of_nat len * 8 :: u32)" "n = dc_blocks len * 64" "n \<le> length instr"
    "cur < dc_blocks len" "length v = 8"
  shows "dc_block instr len cur v = sha_compress v (slice (sha_pad m) (64 * cur) 64)"
proof -
  let ?p = "sha_pad m" and ?b = "slice (sha_pad m) (64 * cur) 64"
  have c: "64 * cur + 64 \<le> n" using assms(2,4) by (simp add: mult.commute)
  have lp: "length ?p = n" using assms(1,3) c by simp
  have q: "slice ?p off 4 = slice instr off 4" if "off + 8 \<le> n" for off
  proof -
    have "off + 4 \<le> n - 4" using that by simp
    moreover from this have "slice (take (n - 4) instr) off 4 = slice instr off 4"
      using assms(3) by (simp add: slice_def drop_take)
    ultimately show ?thesis unfolding assms(1) using assms(3) by simp
  qed
  have "dc_schedule instr len cur ! t = sha_schedule ?b t" if "t < 64" for t
  proof (rule dc_schedule_words [OF _ that])
    show "length ?b = 64" "cur * 64 + 64 \<le> length instr" using c lp assms(3) by simp_all
    show "slice ?b (4 * t) 4 = slice instr (cur * 64 + 4 * t) 4" if "t < 15" for t
      using slice_slice [of "4 * t" 4 64 ?p "64 * cur"] q [of "64 * cur + 4 * t"] that c by (simp add: mult.commute)
    have l: "slice ?b 60 4 = slice ?p (64 * cur + 60) 4" by (simp add: slice_slice)
    show "if cur = dc_blocks len - 1 then be_word (slice ?b 60 4) = (of_nat len * 8 :: u32)
      else slice ?b 60 4 = slice instr (cur * 64 + 60) 4"
    proof (cases "cur = dc_blocks len - 1")
      case True
      then have "64 * cur + 60 = n - 4" using assms(2,4) by simp
      then have "slice ?b 60 4 = be_bytes 4 (of_nat len * 8 :: u32)"
        unfolding l assms(1) using assms(3) by (simp add: slice_def)
      then show ?thesis using True by simp
    next
      case False
      then have "64 * cur + 60 + 8 \<le> n" using assms(2,4) by simp
      then show ?thesis using False l q [of "64 * cur + 60"] by (simp add: mult.commute)
    qed
  qed
  then show ?thesis unfolding dc_block_def using assms(5) by (intro fold_dc_round)
qed

lemma dc_sha256_is_sha256:
  assumes "len \<le> length instr" "len mod 64 \<notin> {56, 57, 58}" "8 * len < 2 ^ 32" "dc_blocks len * 64 \<le> length instr"
  shows "dc_sha256 instr len = Some (blit instr len (128 # replicate (dc_blocks len * 64 - (len + 1)) 0),
    hex_digits (sha256_digest (take len instr)))"
proof -
  let ?n = "dc_blocks len * 64" and ?m = "take len instr"
  define instr' where "instr' = blit instr len (128 # replicate (?n - (len + 1)) 0)"
  note p = pad_as_buffer [OF assms, folded instr'_def]
  have "fold (dc_block instr' len) [0..<k] sha_H0 = sha_chain (sha_pad ?m) k" if "k \<le> dc_blocks len" for k
    using that
  proof (induction k)
    case (Suc k)
    then show ?case
      using dc_block_compress [OF p(1) refl _ _ length_sha_chain, of k] p(2) assms(4)
      by (simp add: sha_chain_def [of _ "Suc k"] flip: sha_chain_def)
  qed (simp add: sha_chain_def)
  moreover have "length (sha_pad ?m) div 64 = dc_blocks len"
    using length_sha_pad [of ?m] dc_blocks_sha_blocks(1) [of len] assms(1,2) by simp
  ultimately have "concat (map dc_digits (fold (dc_block instr' len) [0..<dc_blocks len] dc_H)) = hex_digits (sha256_digest ?m)"
    by (simp add: dc_tables sha256_digest_def Let_def hex_digits_concat)
  then show ?thesis
    using assms(4) unfolding dc_sha256_def Let_def instr'_def [symmetric] by simp
qed

section \<open>What the mixing computes\<close>

definition ascii :: "bytes \<Rightarrow> bytes" where
  "ascii ds = map (\<lambda>d. hexmap ! unat d) ds"

type_synonym mix = "bytes \<times> bytes \<times> nat \<times> bytes"

text \<open>
  The digits \<open>h\<close>, the last text \<open>t\<close>, the position \<open>i\<close> and the texts so far: a pass walks on by the digit it stands
  on, replaces the digits by those of their own hash when it passes the end, and appends the hash of the last
  text and the digit it has reached.
\<close>

definition spec_pass :: "mix \<Rightarrow> mix \<times> bool" where
  "spec_pass m =
     (case m of (h, t, i, out) \<Rightarrow>
      let i' = i + unat (h ! i) + 1;
          h' = (if i' \<ge> 64 then hex_digits (sha256_digest (ascii h)) else h);
          v = hexmap ! unat (h' ! (i' mod 64));
          t' = ascii (hex_digits (sha256_digest (t @ [v])))
      in ((h', t', i' mod 64, out @ t'), i' mod 64 = 63 \<and> v = t' ! 63))"

lemma length_hex_digits [simp]: "length (hex_digits bs) = 2 * length bs"
  by (induction bs) (simp_all add: hex_digits_def)

lemma hex_digits_small: "d \<in> set (hex_digits bs) \<Longrightarrow> d < 16"
proof -
  have "drop_bit 4 b < 16" for b :: byte
  proof -
    have "unat (drop_bit 4 b) = unat b div 16" by (subst unat_drop_bit_eq) (simp add: drop_bit_eq_div)
    moreover have "unat b < 2 ^ LENGTH(8)" by (rule unsigned_less)
    ultimately show ?thesis by (simp add: word_less_nat_alt)
  qed
  moreover have "b AND 0xf < 16" for b :: byte
  proof -
    have "b AND 0xf = take_bit 4 b" by (simp add: take_bit_eq_mask mask_eq_exp_minus_1)
    moreover have "unat (take_bit 4 b) = unat b mod 16" by (subst unsigned_take_bit_eq) (simp add: take_bit_eq_mod)
    ultimately show ?thesis by (simp add: word_less_nat_alt)
  qed
  ultimately show "d \<in> set (hex_digits bs) \<Longrightarrow> d < 16" by (auto simp: hex_digits_def)
qed

lemma length_ascii [simp]: "length (ascii ds) = length ds"
  by (simp add: ascii_def)

lemma spec_pass_out: "length (snd (snd (snd (fst (spec_pass (h, t, i, out)))))) = length out + 64"
  by (simp add: spec_pass_def Let_def)

function spec_loop :: "mix \<Rightarrow> bytes option" where
  "spec_loop (h, t, i, out) =
     (case spec_pass (h, t, i, out) of ((h, t, i, out), hashed_end) \<Rightarrow>
      if length out > 1048576 then None else if hashed_end then Some out else spec_loop (h, t, i, out))"
  by pat_completeness auto
termination
proof (relation "measure (\<lambda>(_, _, _, out). 1048577 - length out)")
  fix h t :: bytes and i :: nat and out :: bytes and x y xa ya xb yb xc yc
  assume a: "(x, y) = spec_pass (h, t, i, out)" "(xa, ya) = x" "(xb, yb) = ya" "(xc, yc) = yb" "\<not> 1048576 < length yc"
  have "spec_pass (h, t, i, out) = ((xa, xb, xc, yc), y)" using a(1-4) by (metis prod.inject)
  then have "length yc = length out + 64" using spec_pass_out [of h t i out] by simp
  then show "((xa, xb, xc, yc), h, t, i, out) \<in> measure (\<lambda>(_, _, _, out). 1048577 - length out)" using a(5) by simp
qed simp

declare spec_loop.simps [simp del]

text \<open>The whole function: nothing when the texts grow too long.\<close>

definition dcrypt_spec :: "bytes \<Rightarrow> bytes option" where
  "dcrypt_spec input =
     map_option (\<lambda>out. hex_digits (sha256_digest (out @ input)))
       (spec_loop (hex_digits (sha256_digest input), replicate 64 255, 0, []))"

section \<open>The mixing refines it\<close>

definition mix_rel :: "mix \<Rightarrow> mix_state \<Rightarrow> bool" where
  "mix_rel m s \<longleftrightarrow> (case m of (h, t, i, out) \<Rightarrow>
     128 \<le> length (mx_hashed s) \<and> take 64 (mx_hashed s) = h \<and> (\<forall>d \<in> set h. d < 16)
     \<and> 128 \<le> length (mx_tmp s) \<and> take 64 (mx_tmp s) = t \<and> mx_index s = i \<and> i < 64
     \<and> 1048576 + 64 \<le> length (mx_ret s) \<and> take (mx_len s) (mx_ret s) = out
     \<and> mx_len s = length out \<and> 64 dvd length out)"

lemma hexToAsc_ascii:
  assumes "64 \<le> length x" "\<forall>d \<in> set (take 64 x). d < 16"
  shows "hexToAsc x 64 = Some (blit x 0 (ascii (take 64 x)))"
  using assms by (simp add: hexToAsc_def ascii_def)

lemma take_blit: "length ys = n \<Longrightarrow> take n (blit xs 0 ys) = ys"
  by (simp add: blit_def)

lemma rehash_spec:
  assumes "128 \<le> length x" "\<forall>d \<in> set (take 64 x). d < 16"
  shows "\<exists>x'. rehash x = Some x' \<and> length x' = length x \<and> take 64 x' = hex_digits (sha256_digest (ascii (take 64 x)))"
proof -
  let ?h = "blit x 0 (ascii (take 64 x))"
  have l: "length (ascii (take 64 x)) = 64" using assms(1) by simp
  then have h: "length ?h = length x" "take 64 ?h = ascii (take 64 x)" using assms(1) by (simp_all add: take_blit)
  have b: "dc_blocks 64 = 2" by (simp add: dc_blocks_def Let_def)
  have "dc_sha256 ?h 64 = Some (blit ?h 64 (128 # replicate 63 0), hex_digits (sha256_digest (ascii (take 64 x))))"
    using dc_sha256_is_sha256 [of 64 ?h] h assms(1) b by simp
  then show ?thesis
    using assms hexToAsc_ascii [of x] h by (simp add: rehash_def take_blit)
qed

lemma mix_pass_refines:
  assumes "mix_rel m s" "mx_len s \<le> 1048576"
  shows "\<exists>s'. mix_pass s = Some (s', snd (spec_pass m)) \<and> mix_rel (fst (spec_pass m)) s'"
proof -
  obtain h t i out where m: "m = (h, t, i, out)" by (rule prod_cases4)
  have r: "128 \<le> length (mx_hashed s)" "take 64 (mx_hashed s) = h" "\<forall>d \<in> set h. d < 16"
    "128 \<le> length (mx_tmp s)" "take 64 (mx_tmp s) = t" "mx_index s = i" "i < 64"
    "1048576 + 64 \<le> length (mx_ret s)" "take (mx_len s) (mx_ret s) = out" "mx_len s = length out" "64 dvd length out"
    using assms(1) unfolding mix_rel_def m prod.case by blast+
  have lh: "length h = 64" "length t = 64" using r by auto
  have hi: "mx_hashed s ! i = h ! i" using r(2,7) by (metis nth_take)
  define i' where "i' = i + unat (h ! i) + 1"
  define h' where "h' = (if i' \<ge> 64 then hex_digits (sha256_digest (ascii h)) else h)"
  obtain hashed where H: "(if i' \<ge> 64 then map_option (\<lambda>h. (h, i' mod 64)) (rehash (mx_hashed s)) else Some (mx_hashed s, i'))
      = Some (hashed, i' mod 64)" "128 \<le> length hashed" "take 64 hashed = h'"
    using rehash_spec [OF r(1)] r(1,2,3) by (cases "i' \<ge> 64") (auto simp: h'_def)
  have h': "\<forall>d \<in> set h'. d < 16" "length h' = 64" using r(3) hex_digits_small lh by (auto simp: h'_def)
  have j: "i' mod 64 < 64" by simp
  have hj: "hashed ! (i' mod 64) = h' ! (i' mod 64)" using H(3) j by (metis nth_take)
  have small: "h' ! (i' mod 64) < 16" using h' j by (metis nth_mem)
  define v where "v = hexmap ! unat (h' ! (i' mod 64))"
  define t' where "t' = ascii (hex_digits (sha256_digest (t @ [v])))"
  let ?u = "(mx_tmp s)[64 := v]"
  have u: "take 65 ?u = t @ [v]"
  proof -
    have "take 65 ?u = (take 65 (mx_tmp s))[64 := v]" by (simp add: take_update_swap)
    also have "take 65 (mx_tmp s) = t @ [mx_tmp s ! 64]"
      using r(4,5) take_Suc_conv_app_nth [of 64 "mx_tmp s"] by simp
    finally show ?thesis using lh(2) by (simp add: list_update_append)
  qed
  have b: "dc_blocks 65 = 2" by (simp add: dc_blocks_def Let_def)
  have sha: "dc_sha256 ?u 65 = Some (blit ?u 65 (128 # replicate 62 0), hex_digits (sha256_digest (t @ [v])))"
    using dc_sha256_is_sha256 [of 65 ?u] u r(4) b by simp
  let ?w = "blit (blit ?u 65 (128 # replicate 62 0)) 0 (hex_digits (sha256_digest (t @ [v])))"
  have w: "128 \<le> length ?w" "take 64 ?w = hex_digits (sha256_digest (t @ [v]))" using r(4) by (simp_all add: take_blit)
  then have asc: "hexToAsc ?w 64 = Some (blit ?w 0 t')"
    using hexToAsc_ascii [of ?w] hex_digits_small by (simp add: t'_def)
  let ?tmp = "blit ?w 0 t'"
  have lt: "length t' = 64" by (simp add: t'_def)
  have tmp: "128 \<le> length ?tmp" "take 64 ?tmp = t'" using w(1) lt by (simp_all add: take_blit)
  then have t63: "?tmp ! 63 = t' ! 63" using nth_take [of 63 64 ?tmp] by simp
  let ?s = "\<lparr>mx_hashed = hashed, mx_tmp = ?tmp, mx_index = i' mod 64, mx_ret = blit (mx_ret s) (mx_len s) t', mx_len = mx_len s + 64\<rparr>"
  have pass: "mix_pass s = Some (?s, i' mod 64 = 63 \<and> v = t' ! 63)"
  proof -
    have "\<not> length (mx_hashed s) \<le> i" "\<not> length hashed \<le> i' mod 64" using r(1,7) H(2) j by linarith+
    moreover have "\<not> length (mx_ret s) < mx_len s + 64" using r(8) assms(2) by simp
    ultimately show ?thesis
      using small unfolding mix_pass_def r(6) hi Let_def i'_def [symmetric] H(1)
      by (simp add: hj v_def [symmetric] sha asc tmp(2) t63)
  qed
  have spec: "spec_pass m = ((h', t', i' mod 64, out @ t'), i' mod 64 = 63 \<and> v = t' ! 63)"
    unfolding m spec_pass_def prod.case Let_def i'_def [symmetric] h'_def [symmetric] v_def [symmetric] t'_def [symmetric] ..
  have "mix_rel (h', t', i' mod 64, out @ t') ?s"
    unfolding mix_rel_def prod.case using H(2,3) h'(1) tmp j r(8-11) assms(2) lt by (auto simp: blit_def)
  then show ?thesis unfolding pass spec by auto
qed

lemma mix_loop_refines:
  assumes "mix_rel m s" "mx_len s \<le> 1048576"
  shows "\<exists>b s'. mix_loop s = Some (b, s') \<and> mx_len s' \<le> 1048576 + 64
    \<and> (case spec_loop m of None \<Rightarrow> \<not> b
       | Some out \<Rightarrow> b \<and> take (mx_len s') (mx_ret s') = out \<and> mx_len s' = length out \<and> 64 dvd length out \<and> length out \<le> 1048576)"
  using assms
proof (induction s arbitrary: m rule: mix_loop.induct)
  case (1 s)
  obtain s1 where p: "mix_pass s = Some (s1, snd (spec_pass m))" and r: "mix_rel (fst (spec_pass m)) s1"
    using mix_pass_refines [OF "1.prems"] by blast
  obtain h t i out where m: "m = (h, t, i, out)" by (rule prod_cases4)
  obtain h1 t1 i1 out1 e where sp: "spec_pass m = ((h1, t1, i1, out1), e)" by (metis prod_cases4 surj_pair)
  have len: "mx_len s1 = length out1" "mx_len s1 = mx_len s + 64" "take (mx_len s1) (mx_ret s1) = out1" "64 dvd length out1"
  proof -
    show "mx_len s1 = length out1" "take (mx_len s1) (mx_ret s1) = out1" "64 dvd length out1"
      using r unfolding sp fst_conv mix_rel_def prod.case by blast+
    show "mx_len s1 = mx_len s + 64" using mix_pass_len [OF p] .
  qed
  have l: "mix_loop s = (if mx_len s1 > 1048576 then Some (False, s1) else if e then Some (True, s1) else mix_loop s1)"
    by (subst mix_loop.simps) (simp add: p sp)
  have sl: "spec_loop m = (if length out1 > 1048576 then None else if e then Some out1 else spec_loop (h1, t1, i1, out1))"
    unfolding m by (subst spec_loop.simps) (simp add: sp [unfolded m])
  show ?case
  proof (cases "mx_len s1 > 1048576 \<or> e")
    case True
    then show ?thesis using l sl len "1.prems"(2) by (auto split: if_splits)
  next
    case False
    then show ?thesis
      using "1.IH" [OF p refl _ _, of "(h1, t1, i1, out1)"] r sp l sl len(1) by (simp add: not_less)
  qed
qed

section \<open>Properties\<close>

text \<open>(the hash) On a buffer with room for the padding, the SHA-256 of this file writes the 64 hexadecimal
  digits of the SHA-256 digest of FIPS 180-4 for every message shorter than 512 MB whose length is not 56, 57
  or 58 modulo 64.  For these lengths it takes one block less than the standard, so the end mark and the length
  share the last block.
\<close>

theorem dcrypt_sha256_refines_standard:
  assumes "len \<le> length instr" "dc_blocks len * 64 \<le> length instr" "8 * len < 2 ^ 32"
  shows "if len mod 64 \<in> {56, 57, 58} then dc_blocks len = length (sha_pad (take len instr)) div 64 - 1
    else map_option snd (dc_sha256 instr len) = Some (hex_digits (sha256_digest (take len instr)))
      \<and> dc_blocks len = length (sha_pad (take len instr)) div 64"
proof (cases "len mod 64 \<in> {56, 57, 58}")
  case True
  then show ?thesis using dc_blocks_sha_blocks(1) [of len] assms(1) length_sha_pad [of "take len instr"] by simp
next
  case False
  then show ?thesis
    using dc_sha256_is_sha256 [OF assms(1) False assms(3,2)] dc_blocks_sha_blocks(1) [of len] assms(1)
      length_sha_pad [of "take len instr"] by simp
qed

theorem dcrypt_sha256_refines_standard_witness:
  "map_option snd (dc_sha256 ([0x61, 0x62, 0x63] @ replicate 61 7) 3) = Some (hex_digits (sha256_digest [0x61, 0x62, 0x63]))
    \<and> dc_blocks 56 = length (sha_pad (replicate 56 1)) div 64 - 1"
proof -
  have "dc_blocks 3 = 1" "dc_blocks 56 = 1" by (simp_all add: dc_blocks_def Let_def)
  then show ?thesis
    using dcrypt_sha256_refines_standard [of 3 "[0x61, 0x62, 0x63] @ replicate 61 7"]
      dcrypt_sha256_refines_standard [of 56 "replicate 64 1"] by simp
qed



text \<open>The input buffer is too small: with an allocator that gives exactly what is asked for, every call of
  \<open>dcrypt_hash\<close> writes behind a buffer: the copy of the input has \<open>len\<close> bytes and the hash pads it in place.
\<close>

theorem dcrypt_overruns_input:
  assumes "\<And>n b. malloc n = Some b \<Longrightarrow> length b = n"
  shows "dcrypt_hash malloc input = None"
proof -
  have "dc_sha256 (blit b 0 input) (length input) = None" if "malloc (length input) = Some b" for b
    using assms [OF that] dc_blocks_sha_blocks(2) [of "length input"] by (simp add: dc_sha256_def Let_def mult.commute)
  then show ?thesis by (auto simp: dcrypt_hash_def Let_def split: Option.bind_splits)
qed

theorem dcrypt_overruns_input_witness:
  "dcrypt_hash (\<lambda>n. Some (replicate n 0)) (replicate 80 1) = None"
  by (rule dcrypt_overruns_input) auto

end
