(* ===== verification/Multihash.thy ===== *)
theory Multihash
  imports Prelude "HOL-Library.Multiset"
begin

text \<open>
  The chained proof-of-work functions of \<^verbatim>\<open>libmultihash\<close>: the files \<^verbatim>\<open>x11.c\<close>, \<^verbatim>\<open>x13.c\<close>, \<^verbatim>\<open>x14.c\<close>, \<^verbatim>\<open>x15.c\<close>,
  \<^verbatim>\<open>x17.c\<close>, \<^verbatim>\<open>c11.c\<close>, \<^verbatim>\<open>nist5.c\<close>, \<^verbatim>\<open>qubit.c\<close>, \<^verbatim>\<open>fresh.c\<close>, \<^verbatim>\<open>s3.c\<close>, \<^verbatim>\<open>quark.c\<close>, \<^verbatim>\<open>x16r.c\<close>, \<^verbatim>\<open>x16s.c\<close> and \<^verbatim>\<open>hefty1.c\<close>.

  Each runs a message through a sequence of hash functions.  The functions themselves (the \<^verbatim>\<open>sph_\<close> library
  under \<^verbatim>\<open>libmultihash/sha3\<close>, called as init, update, close) are the argument \<open>sph\<close>; what the chains rely on is
  their digest length (\<open>sph_lengths\<close>).  A fixed chain is the list of its stages with the buffer each reads and
  the buffer each writes, in the order of the file, and is run on two 64-byte buffers whose first content is
  arbitrary.
\<close>

unbundle bit_operations_syntax

section \<open>Stages and buffers\<close>

datatype algo = BLAKE | BMW | GROESTL | JH | KECCAK | SKEIN | LUFFA | CUBEHASH | SHAVITE | SIMD | ECHO
  | HAMSI | FUGUE | SHABAL | WHIRLPOOL | SHA512 | HAVAL

datatype buffer = Input | HashA | HashB

type_synonym sph = "algo \<Rightarrow> bytes \<Rightarrow> bytes"
type_synonym stage = "algo \<times> buffer \<times> buffer"

record buffers =
  hashA :: bytes
  hashB :: bytes

fun read_buffer :: "bytes \<Rightarrow> buffers \<Rightarrow> buffer \<Rightarrow> bytes" where
  "read_buffer input st Input = input"
| "read_buffer input st HashA = take 64 (hashA st)"
| "read_buffer input st HashB = take 64 (hashB st)"

fun write_buffer :: "buffer \<Rightarrow> bytes \<Rightarrow> buffers \<Rightarrow> buffers" where
  "write_buffer Input d st = st"
| "write_buffer HashA d st = st\<lparr>hashA := blit (hashA st) 0 d\<rparr>"
| "write_buffer HashB d st = st\<lparr>hashB := blit (hashB st) 0 d\<rparr>"

text \<open>\<open>init\<close>, update with the whole source buffer, \<open>close\<close> into the target buffer.\<close>

definition run_stage :: "sph \<Rightarrow> bytes \<Rightarrow> stage \<Rightarrow> buffers \<Rightarrow> buffers" where
  "run_stage sph input s st = (case s of (a, src, dst) \<Rightarrow> write_buffer dst (sph a (read_buffer input st src)) st)"

definition run_stages :: "sph \<Rightarrow> stage list \<Rightarrow> buffer \<Rightarrow> buffers \<Rightarrow> bytes \<Rightarrow> bytes" where
  "run_stages sph stages out st input = take 32 (read_buffer input (fold (run_stage sph input) stages st) out)"

section \<open>The fixed chains\<close>

definition x11_stages :: "stage list" where
  "x11_stages =
    [(BLAKE, Input, HashA), (BMW, HashA, HashB), (GROESTL, HashB, HashA), (SKEIN, HashA, HashB), (JH, HashB, HashA),
     (KECCAK, HashA, HashB), (LUFFA, HashB, HashA), (CUBEHASH, HashA, HashB), (SHAVITE, HashB, HashA),
     (SIMD, HashA, HashB), (ECHO, HashB, HashA)]"

definition x11_hash :: "sph \<Rightarrow> buffers \<Rightarrow> bytes \<Rightarrow> bytes" where
  "x11_hash sph st input = run_stages sph x11_stages HashA st input"

definition x13_stages :: "stage list" where
  "x13_stages =
    [(BLAKE, Input, HashA), (BMW, HashA, HashB), (GROESTL, HashB, HashA), (SKEIN, HashA, HashB), (JH, HashB, HashA),
     (KECCAK, HashA, HashB), (LUFFA, HashB, HashA), (CUBEHASH, HashA, HashB), (SHAVITE, HashB, HashA),
     (SIMD, HashA, HashB), (ECHO, HashB, HashA), (HAMSI, HashA, HashB), (FUGUE, HashB, HashA)]"

definition x13_hash :: "sph \<Rightarrow> buffers \<Rightarrow> bytes \<Rightarrow> bytes" where
  "x13_hash sph st input = run_stages sph x13_stages HashA st input"

text \<open>\<open>None\<close>: the code reads 80 bytes of an input that is shorter.\<close>

definition x14_stages :: "stage list" where
  "x14_stages =
    [(BLAKE, Input, HashA), (BMW, HashA, HashB), (GROESTL, HashB, HashA), (SKEIN, HashA, HashB), (JH, HashB, HashA),
     (KECCAK, HashA, HashB), (LUFFA, HashB, HashA), (CUBEHASH, HashA, HashB), (SHAVITE, HashB, HashA),
     (SIMD, HashA, HashB), (ECHO, HashB, HashA), (HAMSI, HashA, HashB), (FUGUE, HashB, HashA), (SHABAL, HashA, HashB)]"

definition x14_hash :: "sph \<Rightarrow> buffers \<Rightarrow> bytes \<Rightarrow> bytes option" where
  "x14_hash sph st input =
     (if length input < 80 then None else Some (run_stages sph x14_stages HashB st (take 80 input)))"

definition x15_stages :: "stage list" where
  "x15_stages =
    [(BLAKE, Input, HashA), (BMW, HashA, HashB), (GROESTL, HashB, HashA), (SKEIN, HashA, HashB), (JH, HashB, HashA),
     (KECCAK, HashA, HashB), (LUFFA, HashB, HashA), (CUBEHASH, HashA, HashB), (SHAVITE, HashB, HashA),
     (SIMD, HashA, HashB), (ECHO, HashB, HashA), (HAMSI, HashA, HashB), (FUGUE, HashB, HashA), (SHABAL, HashA, HashB),
     (WHIRLPOOL, HashB, HashA)]"

definition x15_hash :: "sph \<Rightarrow> buffers \<Rightarrow> bytes \<Rightarrow> bytes" where
  "x15_hash sph st input = run_stages sph x15_stages HashA st input"

text \<open>One buffer, \<open>hash\<close>.\<close>

definition x17_stages :: "stage list" where
  "x17_stages =
    [(BLAKE, Input, HashA), (BMW, HashA, HashA), (GROESTL, HashA, HashA), (SKEIN, HashA, HashA), (JH, HashA, HashA),
     (KECCAK, HashA, HashA), (LUFFA, HashA, HashA), (CUBEHASH, HashA, HashA), (SHAVITE, HashA, HashA),
     (SIMD, HashA, HashA), (ECHO, HashA, HashA), (HAMSI, HashA, HashA), (FUGUE, HashA, HashA), (SHABAL, HashA, HashA),
     (WHIRLPOOL, HashA, HashA), (SHA512, HashA, HashA), (HAVAL, HashA, HashA)]"

definition x17_hash :: "sph \<Rightarrow> buffers \<Rightarrow> bytes \<Rightarrow> bytes" where
  "x17_hash sph st input = run_stages sph x17_stages HashA st input"

definition c11_stages :: "stage list" where
  "c11_stages =
    [(BLAKE, Input, HashA), (BMW, HashA, HashB), (GROESTL, HashB, HashA), (JH, HashA, HashB), (KECCAK, HashB, HashA),
     (SKEIN, HashA, HashB), (LUFFA, HashB, HashA), (CUBEHASH, HashA, HashB), (SHAVITE, HashB, HashA),
     (SIMD, HashA, HashB), (ECHO, HashB, HashA)]"

definition c11_hash :: "sph \<Rightarrow> buffers \<Rightarrow> bytes \<Rightarrow> bytes option" where
  "c11_hash sph st input =
     (if length input < 80 then None else Some (run_stages sph c11_stages HashA st (take 80 input)))"

definition nist5_stages :: "stage list" where
  "nist5_stages =
    [(BLAKE, Input, HashA), (GROESTL, HashA, HashA), (JH, HashA, HashA), (KECCAK, HashA, HashA), (SKEIN, HashA, HashA)]"

definition nist5_hash :: "sph \<Rightarrow> buffers \<Rightarrow> bytes \<Rightarrow> bytes" where
  "nist5_hash sph st input = run_stages sph nist5_stages HashA st input"

definition qubit_stages :: "stage list" where
  "qubit_stages =
    [(LUFFA, Input, HashA), (CUBEHASH, HashA, HashB), (SHAVITE, HashB, HashA), (SIMD, HashA, HashB), (ECHO, HashB, HashA)]"

definition qubit_hash :: "sph \<Rightarrow> buffers \<Rightarrow> bytes \<Rightarrow> bytes" where
  "qubit_hash sph st input = run_stages sph qubit_stages HashA st input"

definition fresh_stages :: "stage list" where
  "fresh_stages =
    [(SHAVITE, Input, HashA), (SIMD, HashA, HashB), (SHAVITE, HashB, HashA), (SIMD, HashA, HashB), (ECHO, HashB, HashA)]"

definition fresh_hash :: "sph \<Rightarrow> buffers \<Rightarrow> bytes \<Rightarrow> bytes" where
  "fresh_hash sph st input = run_stages sph fresh_stages HashA st input"

definition s3_stages :: "stage list" where
  "s3_stages = [(SHAVITE, Input, HashA), (SIMD, HashA, HashB), (SKEIN, HashB, HashA)]"

definition s3_hash :: "sph \<Rightarrow> buffers \<Rightarrow> bytes \<Rightarrow> bytes option" where
  "s3_hash sph st input =
     (if length input < 80 then None else Some (run_stages sph s3_stages HashA st (take 80 input)))"

section \<open>Quark\<close>

text \<open>\<open>(hash[0] & mask) != zero\<close> with \<open>mask = 8\<close> on the first 32-bit word.\<close>

definition quark_bit :: "bytes \<Rightarrow> bool" where
  "quark_bit hash \<longleftrightarrow> (le_word (take 4 hash) AND 8 :: u32) \<noteq> 0"

definition quark_hash :: "sph \<Rightarrow> buffers \<Rightarrow> bytes \<Rightarrow> bytes" where
  "quark_hash sph st input =
     (let st = run_stage sph input (BLAKE, Input, HashA) st;
          st = run_stage sph input (BMW, HashA, HashB) st;
          st = (if quark_bit (hashB st) then run_stage sph input (GROESTL, HashB, HashA) st
                else run_stage sph input (SKEIN, HashB, HashA) st);
          st = run_stage sph input (GROESTL, HashA, HashB) st;
          st = run_stage sph input (JH, HashB, HashA) st;
          st = (if quark_bit (hashA st) then run_stage sph input (BLAKE, HashA, HashB) st
                else run_stage sph input (BMW, HashA, HashB) st);
          st = run_stage sph input (KECCAK, HashB, HashA) st;
          st = run_stage sph input (SKEIN, HashA, HashB) st;
          st = (if quark_bit (hashB st) then run_stage sph input (KECCAK, HashB, HashA) st
                else run_stage sph input (JH, HashB, HashA) st)
      in take 32 (hashA st))"

section \<open>X16R and X16S: the order comes from the block header\<close>

text \<open>The cases of the \<open>switch\<close>, by the value of the enumeration; no case matches from 16 on.\<close>

definition algo_enum :: "algo list" where
  "algo_enum = [BLAKE, BMW, GROESTL, JH, KECCAK, SKEIN, LUFFA, CUBEHASH, SHAVITE, SIMD, ECHO, HAMSI, FUGUE, SHABAL, WHIRLPOOL, SHA512]"

text \<open>Digit \<open>i\<close> of the previous block hash as the code picks it: byte \<open>(15 - i) >> 1\<close>, low half for odd \<open>i\<close>.\<close>

definition algo_digit :: "bytes \<Rightarrow> nat \<Rightarrow> byte" where
  "algo_digit prevblock i =
     (let b = (15 - i) div 2 in if odd i then prevblock ! b AND 0xF else drop_bit 4 (prevblock ! b))"

text \<open>\<^verbatim>\<open>x16r.c\<close>: one character per digit.\<close>

definition char_byte :: "char \<Rightarrow> byte" where
  "char_byte c = of_nat (of_char c)"

definition getAlgoString_r :: "bytes \<Rightarrow> bytes" where
  "getAlgoString_r prevblock =
     map (\<lambda>j. let algoDigit = algo_digit prevblock j
              in if algoDigit \<ge> 10 then char_byte CHR ''A'' + (algoDigit - 10) else char_byte CHR ''0'' + algoDigit) [0..<16]"

text \<open>\<^verbatim>\<open>x16s.c\<close>: the character at the position of the digit moves to the front.\<close>

definition shift_right :: "bytes \<Rightarrow> nat \<Rightarrow> bytes" where
  "shift_right output offset = fold (\<lambda>j out. out[j + 1 := out ! j]) (rev [0..<offset]) output"

definition getAlgoString_s :: "bytes \<Rightarrow> bytes" where
  "getAlgoString_s prevblock =
     fold (\<lambda>i output.
         let offset = unat (algo_digit prevblock i); oldVal = output ! offset
         in (shift_right output offset)[0 := oldVal])
       [0..<16] (map char_byte ''0123456789ABCDEF'')"

definition decode_elem :: "byte \<Rightarrow> byte" where
  "decode_elem elem = (if elem \<ge> char_byte CHR ''A'' then elem - char_byte CHR ''A'' + 10 else elem - char_byte CHR ''0'')"

text \<open>The loop over \<open>hashOrder\<close>: \<open>in\<close> is the input in the first pass and the 64 bytes of \<open>hash\<close> after it.\<close>

definition x16_step :: "sph \<Rightarrow> byte \<Rightarrow> bytes \<times> bytes \<Rightarrow> bytes \<times> bytes" where
  "x16_step sph elem hi =
     (case hi of (hash, inp) \<Rightarrow>
      let algo = unat (decode_elem elem);
          hash = (if algo < 16 then blit hash 0 (sph (algo_enum ! algo) inp) else hash)
      in (hash, take 64 hash))"

definition x16_run :: "sph \<Rightarrow> bytes \<Rightarrow> bytes \<Rightarrow> bytes \<Rightarrow> bytes" where
  "x16_run sph hashOrder hash input = take 32 (fst (fold (x16_step sph) hashOrder (hash, input)))"

definition x16r_hash :: "sph \<Rightarrow> bytes \<Rightarrow> bytes \<Rightarrow> bytes option" where
  "x16r_hash sph hash input =
     (if length input < 12 then None else Some (x16_run sph (getAlgoString_r (drop 4 input)) hash input))"

definition x16s_hash :: "sph \<Rightarrow> bytes \<Rightarrow> bytes \<Rightarrow> bytes option" where
  "x16s_hash sph hash input =
     (if length input < 12 then None else Some (x16_run sph (getAlgoString_s (drop 4 input)) hash input))"

section \<open>Hefty1: four digests interleaved bit by bit\<close>

text \<open>\<open>hash\<close> are the four digests; \<open>output\<close> has been cleared.\<close>

definition hefty_bit :: "bytes list \<Rightarrow> nat \<times> nat \<Rightarrow> bytes \<Rightarrow> bytes" where
  "hefty_bit hash ij output =
     (case ij of (i, j) \<Rightarrow>
      let output_bit = i * 4 + j
      in if (hash ! j) ! (i div 8) AND drop_bit (i mod 8) 0x80 \<noteq> 0
         then output[output_bit div 8 := output ! (output_bit div 8) OR drop_bit (output_bit mod 8) 0x80]
         else output)"

definition hefty_interleave :: "bytes list \<Rightarrow> bytes" where
  "hefty_interleave hash = fold (hefty_bit hash) (List.product [0..<64] [0..<4]) (replicate 32 0)"

text \<open>The hash functions of the file are arguments: \<open>hefty1\<close> and \<open>sha256\<close> with 32 bytes, three of \<open>sph\<close>.\<close>

definition hefty1_hash :: "(bytes \<Rightarrow> bytes) \<Rightarrow> (bytes \<Rightarrow> bytes) \<Rightarrow> sph \<Rightarrow> bytes \<Rightarrow> bytes" where
  "hefty1_hash hefty1 sha256 sph input =
     (let hash32_1 = hefty1 input;
          hash32_2 = sha256 (input @ hash32_1);
          hash64_3 = sph KECCAK (input @ hash32_1);
          hash64_4 = sph GROESTL (input @ hash32_1);
          hash64_5 = sph BLAKE (input @ hash32_1)
      in hefty_interleave [hash32_2, hash64_3, hash64_4, hash64_5])"

section \<open>Chains whose stages fit together\<close>

definition sph_lengths :: "sph \<Rightarrow> bool" where
  "sph_lengths sph \<longleftrightarrow> (\<forall>a m. length (sph a m) = (if a = HAVAL then 32 else 64))"

definition buffers_ok :: "buffers \<Rightarrow> bool" where
  "buffers_ok st \<longleftrightarrow> length (hashA st) = 64 \<and> length (hashB st) = 64"

text \<open>Every stage reads what the stage before it wrote; the short digest comes last.\<close>

fun linked :: "buffer \<Rightarrow> stage list \<Rightarrow> buffer \<Rightarrow> bool" where
  "linked b [] out \<longleftrightarrow> b = out"
| "linked b ((a, src, dst) # ss) out \<longleftrightarrow> src = b \<and> dst \<noteq> Input \<and> (a = HAVAL \<longrightarrow> ss = []) \<and> linked dst ss out"

lemma run_stage_ok:
  assumes "sph_lengths sph" "buffers_ok st"
  shows "buffers_ok (run_stage sph input (a, src, dst) st)"
    "dst \<noteq> Input \<Longrightarrow> take 32 (read_buffer input (run_stage sph input (a, src, dst) st) dst) = take 32 (sph a (read_buffer input st src))"
    "dst \<noteq> Input \<Longrightarrow> a \<noteq> HAVAL \<Longrightarrow> read_buffer input (run_stage sph input (a, src, dst) st) dst = sph a (read_buffer input st src)"
proof -
  have l: "length (sph a m) = (if a = HAVAL then 32 else 64)" for m using assms(1) by (simp add: sph_lengths_def)
  have m: "32 \<le> length (sph a m)" "length (sph a m) \<le> 64" for m using l by simp_all
  show "buffers_ok (run_stage sph input (a, src, dst) st)"
    using assms(2) l by (cases dst) (simp_all add: buffers_ok_def run_stage_def)
  show "dst \<noteq> Input \<Longrightarrow> take 32 (read_buffer input (run_stage sph input (a, src, dst) st) dst) = take 32 (sph a (read_buffer input st src))"
    using m by (cases dst) (simp_all add: run_stage_def blit_def min_def)
  show "dst \<noteq> Input \<Longrightarrow> a \<noteq> HAVAL \<Longrightarrow> read_buffer input (run_stage sph input (a, src, dst) st) dst = sph a (read_buffer input st src)"
    using l by (cases dst) (simp_all add: run_stage_def blit_def)
qed

lemma run_linked:
  assumes "sph_lengths sph" "buffers_ok st" "linked b ss out" "ss \<noteq> []"
  shows "take 32 (read_buffer input (fold (run_stage sph input) ss st) out) = take 32 (fold sph (map fst ss) (read_buffer input st b))"
  using assms(2-)
proof (induction ss arbitrary: b st)
  case (Cons s ss)
  obtain a src dst where s: "s = (a, src, dst)" by (cases s)
  have p: "src = b" "dst \<noteq> Input" "a = HAVAL \<longrightarrow> ss = []" "linked dst ss out" using Cons.prems(2) s by simp_all
  show ?case
  proof (cases "ss = []")
    case True
    then show ?thesis using run_stage_ok(2) [OF assms(1) Cons.prems(1) p(2), of input a src] p(1,4) s by simp
  next
    case False
    then show ?thesis
      using Cons.IH [OF run_stage_ok(1) [OF assms(1) Cons.prems(1)] p(4) False, of input a src]
        run_stage_ok(3) [OF assms(1) Cons.prems(1) p(2), of a input src] p s by simp
  qed
qed simp

lemma run_stages_chain:
  assumes "sph_lengths sph" "buffers_ok st" "linked Input ss out" "ss \<noteq> []"
  shows "run_stages sph ss out st input = take 32 (fold sph (map fst ss) input)"
  using run_linked [OF assms, of input] by (simp add: run_stages_def)

definition x11_order :: "algo list" where
  "x11_order = [BLAKE, BMW, GROESTL, SKEIN, JH, KECCAK, LUFFA, CUBEHASH, SHAVITE, SIMD, ECHO]"

lemmas stage_lists = x11_stages_def x13_stages_def x14_stages_def x15_stages_def x17_stages_def c11_stages_def
  nist5_stages_def qubit_stages_def fresh_stages_def s3_stages_def

lemmas chain_functions = x11_hash_def x13_hash_def x14_hash_def x15_hash_def x17_hash_def c11_hash_def
  nist5_hash_def qubit_hash_def fresh_hash_def s3_hash_def

section \<open>The order of X16R and X16S\<close>

lemma algo_digit_less: "algo_digit p i < 16"
proof -
  have "drop_bit 4 b < 16" for b :: byte
  proof -
    have "unat (drop_bit 4 b) = unat b div 16" by (subst unat_drop_bit_eq) (simp add: drop_bit_eq_div)
    moreover have "unat b < 2 ^ LENGTH(8)" by (rule unsigned_less)
    ultimately show ?thesis by (simp add: word_less_nat_alt)
  qed
  moreover have "b AND 0xf < 16" for b :: byte
  proof -
    have "b AND 0xf = take_bit 4 b" by (simp add: take_bit_eq_mask mask_eq_exp_minus_1)
    moreover have "unat (take_bit 4 b) = unat b mod 16" by (subst unsigned_take_bit_eq) (simp add: take_bit_eq_mod)
    ultimately show ?thesis by (simp add: word_less_nat_alt)
  qed
  ultimately show ?thesis by (simp add: algo_digit_def Let_def)
qed

lemma unat_algo_digit: "unat (algo_digit p i) < 16"
  using algo_digit_less [of p i] by (simp add: word_less_nat_alt)

text \<open>Moving an element to the front.\<close>

definition to_front :: "'a list \<Rightarrow> nat \<Rightarrow> 'a list" where
  "to_front xs k = xs ! k # take k xs @ drop (Suc k) xs"

lemma shift_right_eq:
  "k < length xs \<Longrightarrow> shift_right xs k = take 1 xs @ take k xs @ drop (Suc k) xs"
proof (induction k arbitrary: xs)
  case 0
  then show ?case by (cases xs) (simp_all add: shift_right_def)
next
  case (Suc k)
  have "shift_right xs (Suc k) = shift_right (xs[Suc k := xs ! k]) k"
    by (simp add: shift_right_def)
  also have "\<dots> = take 1 (xs[Suc k := xs ! k]) @ take k (xs[Suc k := xs ! k]) @ drop (Suc k) (xs[Suc k := xs ! k])"
    using Suc.prems by (intro Suc.IH) simp
  also have "drop (Suc k) (xs[Suc k := xs ! k]) = xs ! k # drop (Suc (Suc k)) xs"
    using Suc.prems by (simp add: drop_update_swap Cons_nth_drop_Suc [symmetric])
  also have "take 1 (xs[Suc k := xs ! k]) = take 1 xs" by (cases xs) simp_all
  also have "take k (xs[Suc k := xs ! k]) = take k xs" by simp
  finally show ?case using take_Suc_conv_app_nth [of k xs] Suc.prems by simp
qed

lemma move_to_front:
  "k < length xs \<Longrightarrow> (shift_right xs k)[0 := xs ! k] = to_front xs k"
  by (cases xs) (simp_all add: shift_right_eq to_front_def)

lemma mset_to_front: "k < length xs \<Longrightarrow> mset (to_front xs k) = mset xs"
  by (metis append_take_drop_id id_take_nth_drop mset.simps(2) mset_append to_front_def union_mset_add_mset_right)

lemma length_to_front [simp]: "k < length xs \<Longrightarrow> length (to_front xs k) = length xs"
  by (simp add: to_front_def)

lemma getAlgoString_s_perm:
  "getAlgoString_s p = fold (\<lambda>i out. to_front out (unat (algo_digit p i))) [0..<16] (map char_byte ''0123456789ABCDEF'')"
  "mset (getAlgoString_s p) = mset (map char_byte ''0123456789ABCDEF'')"
proof -
  let ?f = "\<lambda>i output. let offset = unat (algo_digit p i); oldVal = output ! offset in (shift_right output offset)[0 := oldVal]"
  let ?g = "\<lambda>i out. to_front out (unat (algo_digit p i))"
  have "fold ?f is out = fold ?g is out \<and> mset (fold ?g is out) = mset out" if "length out = 16" for "is" and out :: bytes
    using that
  proof (induction "is" arbitrary: out)
    case (Cons i "is")
    have d: "unat (algo_digit p i) < length out" using unat_algo_digit Cons.prems by simp
    then show ?case using Cons by (simp add: Let_def move_to_front mset_to_front)
  qed simp
  from this [of "map char_byte ''0123456789ABCDEF''" "[0..<16]"]
  show "getAlgoString_s p = fold ?g [0..<16] (map char_byte ''0123456789ABCDEF'')"
    "mset (getAlgoString_s p) = mset (map char_byte ''0123456789ABCDEF'')"
    unfolding getAlgoString_s_def by (simp_all del: upt_rec_numeral)
qed

text \<open>What the loop does with a string of algorithm characters.\<close>

definition elem_algo :: "byte \<Rightarrow> algo" where
  "elem_algo elem = algo_enum ! unat (decode_elem elem)"

lemma x16_run_chain:
  assumes "sph_lengths sph" "length hash = 64" "\<forall>e \<in> set order. unat (decode_elem e) < 16" "order \<noteq> []"
  shows "x16_run sph order hash input = take 32 (fold sph (map elem_algo order) input)"
proof -
  have "HAVAL \<notin> set algo_enum" by (simp add: algo_enum_def)
  moreover have "length algo_enum = 16" by (simp add: algo_enum_def)
  ultimately have "elem_algo e \<noteq> HAVAL" if "e \<in> set order" for e
    using that assms(3) unfolding elem_algo_def by (metis nth_mem)
  then have l: "length (sph (elem_algo e) m) = 64" if "e \<in> set order" for e m
    using that assms(1) by (simp add: sph_lengths_def)
  have "fold (x16_step sph) es (h, inp) = (let r = fold sph (map elem_algo es) inp in (r, r))"
    if "es \<noteq> []" "set es \<subseteq> set order" "length h = 64" for es h inp
    using that
  proof (induction es arbitrary: h inp)
    case (Cons e es)
    have "x16_step sph e (h, inp) = (sph (elem_algo e) inp, sph (elem_algo e) inp)"
      using assms(3) Cons.prems l by (simp add: x16_step_def Let_def blit_def elem_algo_def)
    then show ?case using Cons l by (cases "es = []") (simp_all add: Let_def)
  qed simp
  from this [OF assms(4) order_refl assms(2)] show ?thesis by (simp add: x16_run_def Let_def)
qed

lemma elem_algos: "map (\<lambda>c. unat (decode_elem (char_byte c))) ''0123456789ABCDEF'' = [0..<16]"
  "map (\<lambda>c. elem_algo (char_byte c)) ''0123456789ABCDEF'' = algo_enum"
  by (simp_all add: decode_elem_def char_byte_def elem_algo_def algo_enum_def upt_16)

lemma digit_char:
  assumes "(d :: byte) < 16"
  shows "decode_elem (if d \<ge> 10 then char_byte CHR ''A'' + (d - 10) else char_byte CHR ''0'' + d) = d"
proof -
  have "unat d < 16" using assms by (simp add: word_less_nat_alt)
  then have "unat d \<in> set [0..<16]" by (simp only: set_upt) simp
  then have "unat d \<in> set [0, 1, 2, 3, 4, 5, 6, 7, 8, 9, 10, 11, 12, 13, 14, 15]" unfolding upt_16 .
  then have "of_nat (unat d) \<in> (of_nat :: nat \<Rightarrow> byte) ` set [0, 1, 2, 3, 4, 5, 6, 7, 8, 9, 10, 11, 12, 13, 14, 15]"
    by (rule imageI)
  then have "d \<in> set [0, 1, 2, 3, 4, 5, 6, 7, 8, 9, 10, 11, 12, 13, 14, 15]" by simp
  then show ?thesis by (auto simp: decode_elem_def char_byte_def word_le_nat_alt)
qed

lemma getAlgoString_r_digits:
  "map decode_elem (getAlgoString_r p) = map (algo_digit p) [0..<16]"
  by (simp add: getAlgoString_r_def Let_def digit_char algo_digit_less del: upt_rec_numeral)

section \<open>The bits of hefty1\<close>

text \<open>Bit \<open>n\<close> of a byte string, the highest bit of each byte first.\<close>

definition bit_at :: "bytes \<Rightarrow> nat \<Rightarrow> bool" where
  "bit_at bs n \<longleftrightarrow> bit (bs ! (n div 8)) (7 - n mod 8)"

lemma word_nonzero_bit: "(w :: 'a::len word) \<noteq> 0 \<longleftrightarrow> (\<exists>i. bit w i)"
proof
  show "w \<noteq> 0 \<Longrightarrow> \<exists>i. bit w i" using bit_word_eqI [of w 0] by auto
qed auto

lemma drop_0x80:
  assumes "k < 8"
  shows "bit (drop_bit k (0x80 :: byte)) i \<longleftrightarrow> i = 7 - k" "(b AND drop_bit k 0x80 \<noteq> 0) \<longleftrightarrow> bit (b :: byte) (7 - k)"
proof -
  have e: "(0x80 :: byte) = push_bit 7 1" by (simp add: push_bit_eq_mult)
  have d: "bit (drop_bit k (0x80 :: byte)) i \<longleftrightarrow> i = 7 - k" for i
    unfolding e bit_drop_bit_eq comp_apply bit_push_bit_iff using assms by (auto simp: bit_1_iff)
  then show "bit (drop_bit k (0x80 :: byte)) i \<longleftrightarrow> i = 7 - k" .
  show "(b AND drop_bit k 0x80 \<noteq> 0) \<longleftrightarrow> bit b (7 - k)"
    unfolding word_nonzero_bit bit_and_iff d by auto
qed

lemma length_hefty_bit [simp]: "length (hefty_bit hash ij out) = length out"
  by (simp add: hefty_bit_def Let_def split: prod.splits)

lemma bit_at_set:
  assumes "k div 8 < length out"
  shows "bit_at (out[k div 8 := out ! (k div 8) OR drop_bit (k mod 8) 0x80]) n \<longleftrightarrow> bit_at out n \<or> n = k"
proof (cases "n div 8 = k div 8")
  case True
  have "7 - n mod 8 = 7 - k mod 8 \<longleftrightarrow> n mod 8 = k mod 8"
  proof -
    have "n mod 8 < 8" "k mod 8 < 8" by simp_all
    then show ?thesis by linarith
  qed
  moreover have "n = k \<longleftrightarrow> n mod 8 = k mod 8" using True by (metis div_mult_mod_eq)
  ultimately show ?thesis using assms True drop_0x80(1) [of "k mod 8"] by (simp add: bit_at_def bit_or_iff)
qed (use assms in \<open>auto simp: bit_at_def\<close>)

lemma bit_at_hefty_bit:
  assumes "i < 64" "j < 4" "length out = 32"
  shows "bit_at (hefty_bit hash (i, j) out) n \<longleftrightarrow> bit_at out n \<or> n = 4 * i + j \<and> bit_at (hash ! j) i"
proof -
  have k: "(i * 4 + j) div 8 < length out" using assms by simp
  have "hash ! j ! (i div 8) AND drop_bit (i mod 8) 0x80 \<noteq> 0 \<longleftrightarrow> bit_at (hash ! j) i"
    using drop_0x80(2) [of "i mod 8"] by (simp add: bit_at_def)
  then show ?thesis
    using bit_at_set [OF k, of n] unfolding hefty_bit_def prod.case Let_def by (auto simp: mult.commute)
qed

lemma bit_at_interleave:
  assumes "\<forall>(i, j) \<in> set ps. i < 64 \<and> j < 4" "length out = 32"
  shows "bit_at (fold (hefty_bit hash) ps out) n \<longleftrightarrow> bit_at out n \<or> (\<exists>(i, j) \<in> set ps. n = 4 * i + j \<and> bit_at (hash ! j) i)"
  using assms
proof (induction ps arbitrary: out)
  case (Cons p ps)
  then show ?case by (cases p) (auto simp: bit_at_hefty_bit)
qed simp

lemma x16s_is_permuted_chain:
  assumes "sph_lengths sph" "length hash = 64" "12 \<le> length m"
  shows "x16s_hash sph hash m = Some (take 32 (fold sph
      (fold (\<lambda>i algos. to_front algos (unat (algo_digit (drop 4 m) i))) [0..<16] algo_enum) m))
    \<and> mset (fold (\<lambda>i algos. to_front algos (unat (algo_digit (drop 4 m) i))) [0..<16] algo_enum) = mset algo_enum"
proof -
  let ?p = "drop 4 m" and ?cs = "map char_byte ''0123456789ABCDEF''"
  let ?s = "getAlgoString_s ?p"
  have map_front: "map f (to_front xs k) = to_front (map f xs) k" if "k < length xs" for f :: "byte \<Rightarrow> algo" and xs k
    using that by (simp add: to_front_def take_map drop_map)
  have "map elem_algo (fold (\<lambda>i out. to_front out (unat (algo_digit ?p i))) is xs)
      = fold (\<lambda>i out. to_front out (unat (algo_digit ?p i))) is (map elem_algo xs)" if "length xs = 16" for "is" xs
    using that unat_algo_digit [of ?p] by (induction "is" arbitrary: xs) (simp_all add: map_front)
  from this [of ?cs "[0..<16]"] have o: "map elem_algo ?s = fold (\<lambda>i out. to_front out (unat (algo_digit ?p i))) [0..<16] algo_enum"
    using elem_algos(2) unfolding getAlgoString_s_perm(1) by (simp add: comp_def del: upt_rec_numeral)
  have set: "set ?s = set ?cs" using mset_eq_setD [OF getAlgoString_s_perm(2)] .
  have "\<forall>e \<in> set ?s. unat (decode_elem e) < 16"
  proof
    fix e assume "e \<in> set ?s"
    then have "unat (decode_elem e) \<in> set (map (\<lambda>c. unat (decode_elem (char_byte c))) ''0123456789ABCDEF'')"
      unfolding set by auto
    then show "unat (decode_elem e) < 16" unfolding elem_algos(1) by (simp only: set_upt) simp
  qed
  moreover have "?s \<noteq> []" using set by auto
  ultimately have "x16_run sph ?s hash m = take 32 (fold sph (map elem_algo ?s) m)" by (rule x16_run_chain [OF assms(1,2)])
  moreover have "mset (map elem_algo ?s) = mset algo_enum"
  proof -
    have "mset (map elem_algo ?s) = mset (map elem_algo ?cs)" by (simp only: mset_map getAlgoString_s_perm(2))
    then show ?thesis using elem_algos(2) by (simp only: map_map comp_def)
  qed
  ultimately show ?thesis using assms(3) by (simp add: x16s_hash_def o del: upt_rec_numeral)
qed

lemma x16r_follows_digits:
  assumes "sph_lengths sph" "length hash = 64" "12 \<le> length m"
  shows "x16r_hash sph hash m
    = Some (take 32 (fold sph (map (\<lambda>i. algo_enum ! unat (algo_digit (drop 4 m) i)) [0..<16]) m))"
proof -
  let ?s = "getAlgoString_r (drop 4 m)"
  have "\<forall>e \<in> set ?s. unat (decode_elem e) < 16"
  proof
    fix e assume "e \<in> set ?s"
    then have "decode_elem e \<in> set (map (algo_digit (drop 4 m)) [0..<16])" unfolding getAlgoString_r_digits [symmetric] by auto
    then show "unat (decode_elem e) < 16" using unat_algo_digit by auto
  qed
  moreover have "?s \<noteq> []" by (simp add: getAlgoString_r_def)
  ultimately have "x16_run sph ?s hash m = take 32 (fold sph (map elem_algo ?s) m)" by (rule x16_run_chain [OF assms(1,2)])
  also have "map elem_algo ?s = map (\<lambda>d. algo_enum ! unat d) (map decode_elem ?s)" by (simp add: elem_algo_def)
  finally show ?thesis
    using assms(3) unfolding getAlgoString_r_digits by (simp add: x16r_hash_def comp_def del: upt_rec_numeral)
qed

text \<open>Quark chooses between two functions three times, by bit 3 of the first byte of the digest so far.\<close>

lemma quark_bit_iff: "4 \<le> length h \<Longrightarrow> quark_bit h \<longleftrightarrow> bit (h ! 0) 3"
proof -
  assume h: "4 \<le> length h"
  have e: "(8 :: u32) = push_bit 3 1" by (simp add: push_bit_eq_mult)
  have "quark_bit h \<longleftrightarrow> bit (le_word (take 4 h) :: u32) 3"
    unfolding quark_bit_def e word_nonzero_bit bit_and_iff bit_push_bit_iff bit_1_iff
    by (auto dest: bit_imp_le_length)
  then show ?thesis using h by (simp add: bit_le_word)
qed

lemma quark_chain:
  assumes "sph_lengths sph" "buffers_ok st"
  defines "pick \<equiv> \<lambda>x y h. sph (if bit (h ! 0) 3 then x else y) (h :: bytes)"
  shows "quark_hash sph st m = take 32 (pick KECCAK JH (fold sph [KECCAK, SKEIN]
    (pick BLAKE BMW (fold sph [GROESTL, JH] (pick GROESTL SKEIN (fold sph [BLAKE, BMW] m))))))"
proof -
  have l: "length (sph a x) = 64" if "a \<noteq> HAVAL" for a x using assms(1) that by (simp add: sph_lengths_def)
  have q: "quark_bit (sph a x) \<longleftrightarrow> bit (sph a x ! 0) 3" if "a \<noteq> HAVAL" for a x using l [OF that] by (simp add: quark_bit_iff)
  have b: "length (hashA st) = 64" "length (hashB st) = 64" using assms(2) by (simp_all add: buffers_ok_def)
  show ?thesis
    unfolding quark_hash_def Let_def pick_def
    using b by (simp add: run_stage_def blit_def l q)
qed

section \<open>Properties\<close>





text \<open>(hefty1 interleaves) Bit \<open>4 i + j\<close> of the 32-byte output is bit \<open>i\<close> of digest \<open>j\<close>, for the first 64 bits of
  the four digests in the order SHA-256, Keccak, Groestl, BLAKE, each of the input followed by its HEFTY1 digest.
\<close>

theorem hefty1_interleaves:
  assumes "i < 64" "j < 4"
  shows "length (hefty1_hash hefty1 sha256 sph m) = 32
    \<and> bit_at (hefty1_hash hefty1 sha256 sph m) (4 * i + j)
      = bit_at (([sha256, sph KECCAK, sph GROESTL, sph BLAKE] ! j) (m @ hefty1 m)) i"
proof -
  let ?h = "[sha256 (m @ hefty1 m), sph KECCAK (m @ hefty1 m), sph GROESTL (m @ hefty1 m), sph BLAKE (m @ hefty1 m)]"
  let ?ps = "List.product [0..<64] [0..<4]"
  have l: "length (fold (hefty_bit ?h) ps out) = length out" for ps out by (induction ps arbitrary: out) simp_all
  have "\<not> bit_at (replicate 32 0) (4 * i + j)" using assms by (simp add: bit_at_def)
  moreover have "(\<exists>(i', j') \<in> set ?ps. 4 * i + j = 4 * i' + j' \<and> bit_at (?h ! j') i') = bit_at (?h ! j) i"
  proof -
    have "i' = i \<and> j' = j" if "4 * i + j = 4 * i' + j'" "j' < 4" for i' j' using that assms(2) by presburger
    then have "bit_at (?h ! j) i" if "(i', j') \<in> set ?ps" "4 * i + j = 4 * i' + j'" "bit_at (?h ! j') i'" for i' j'
      using that by (auto simp del: upt_rec_numeral)
    moreover have "(i, j) \<in> set ?ps" using assms by (simp del: upt_rec_numeral)
    ultimately show ?thesis by blast
  qed
  ultimately have "bit_at (fold (hefty_bit ?h) ?ps (replicate 32 0)) (4 * i + j) = bit_at (?h ! j) i"
    using bit_at_interleave [of ?ps "replicate 32 0" ?h "4 * i + j"] by (auto simp del: upt_rec_numeral)
  moreover have "?h ! j = ([sha256, sph KECCAK, sph GROESTL, sph BLAKE] ! j) (m @ hefty1 m)"
  proof -
    have "j = 0 \<or> j = 1 \<or> j = 2 \<or> j = 3" using assms(2) by linarith
    then show ?thesis by (elim disjE) simp_all
  qed
  ultimately show ?thesis
    unfolding hefty1_hash_def hefty_interleave_def Let_def by (simp only: l length_replicate)
qed

theorem hefty1_interleaves_witness:
  "bit_at (hefty1_hash (\<lambda>m. replicate 32 1) (\<lambda>m. replicate 32 0) (\<lambda>a m. replicate 64 (if a = KECCAK then 255 else 0)) [1, 2]) (4 * 5 + 1)"
  using hefty1_interleaves [of 5 1 "\<lambda>m. replicate 32 1" "\<lambda>m. replicate 32 0" "\<lambda>a m. replicate 64 (if a = KECCAK then 255 else 0)" "[1, 2]"]
  by (simp add: bit_at_def)

end
