(* ===== verification/Limbs.thy ===== *)
theory Limbs
  imports Prelude "HOL-Library.Monad_Syntax"
begin

text \<open>
  Straight-line code on arrays of signed limbs, as \<^verbatim>\<open>crypto-ops.c\<close> is full of it: carries, folds of a high
  limb into lower ones, resets.  Every arithmetic operation on a signed C integer is checked: it gives
  \<open>None\<close> where the result leaves the type, which is undefined behaviour in C.  A right shift of a
  negative number rounds down and a left shift multiplies, as on every compiler the program supports.

  Two analyses of such code are proved sound here and evaluated in the theories that import this one:
  \<open>bounds\<close> carries an interval per limb through the code and shows that no operation overflows;
  \<open>weigh\<close> carries a weight per limb and shows that the weighted sum of the limbs is unchanged
  modulo a given number (exactly unchanged for the modulus 0).
\<close>

section \<open>Signed integers\<close>

definition fits :: "nat \<Rightarrow> int \<Rightarrow> bool" where
  "fits n x \<longleftrightarrow> - (2 ^ (n - 1)) \<le> x \<and> x < 2 ^ (n - 1)"

definition checked :: "nat \<Rightarrow> int \<Rightarrow> int option" where
  "checked n x = (if fits n x then Some x else None)"

text \<open>The conversion to a narrower signed type keeps the low bits.\<close>

definition narrow :: "nat \<Rightarrow> int \<Rightarrow> int" where
  "narrow n x = (x + 2 ^ (n - 1)) mod 2 ^ n - 2 ^ (n - 1)"

lemma checked_eq_Some_iff [simp]: "checked n x = Some y \<longleftrightarrow> fits n x \<and> y = x"
  by (auto simp: checked_def)

lemma checked_fits: "fits n x \<Longrightarrow> checked n x = Some x"
  by simp

lemma fits_between: "fits n l \<Longrightarrow> fits n h \<Longrightarrow> l \<le> x \<Longrightarrow> x \<le> h \<Longrightarrow> fits n x"
  by (auto simp: fits_def)

lemma narrow_fits: "0 < n \<Longrightarrow> fits n x \<Longrightarrow> narrow n x = x"
  by (cases n) (auto simp: fits_def narrow_def)

section \<open>Operations on an array of limbs\<close>

text \<open>
  \<open>Round i w\<close> is \<^verbatim>\<open>carry = (h_i + (1 << (w - 1))) >> w; h_(i+1) += carry; h_i -= carry << w\<close>,
  \<open>Floor i w\<close> the same without rounding, \<open>Wrap i w k\<close> rounds the top limb and adds
  \<^verbatim>\<open>carry * k\<close> to limb 0, \<open>Drop i w\<close> discards the carry, \<open>MulAdd i j k\<close> is \<^verbatim>\<open>h_j += h_i * k\<close>,
  \<open>MulSub\<close> subtracts, and \<open>Clear i\<close> is \<^verbatim>\<open>h_i = 0\<close>.
\<close>

datatype limb_op =
    Round nat nat
  | Floor nat nat
  | Wrap nat nat int
  | Drop nat nat
  | MulAdd nat nat int
  | MulSub nat nat int
  | Clear nat

fun exec1 :: "nat \<Rightarrow> limb_op \<Rightarrow> int list \<Rightarrow> int list option" where
  "exec1 n (Round i w) h =
     do { t \<leftarrow> checked n (h ! i + 2 ^ (w - 1));
          let carry = t div 2 ^ w;
          u \<leftarrow> checked n (h ! (i + 1) + carry);
          m \<leftarrow> checked n (carry * 2 ^ w);
          d \<leftarrow> checked n (h ! i - m);
          Some (h[i + 1 := u, i := d]) }"
| "exec1 n (Floor i w) h =
     do { let carry = h ! i div 2 ^ w;
          u \<leftarrow> checked n (h ! (i + 1) + carry);
          m \<leftarrow> checked n (carry * 2 ^ w);
          d \<leftarrow> checked n (h ! i - m);
          Some (h[i + 1 := u, i := d]) }"
| "exec1 n (Wrap i w k) h =
     do { t \<leftarrow> checked n (h ! i + 2 ^ (w - 1));
          let carry = t div 2 ^ w;
          p \<leftarrow> checked n (carry * k);
          u \<leftarrow> checked n (h ! 0 + p);
          m \<leftarrow> checked n (carry * 2 ^ w);
          d \<leftarrow> checked n (h ! i - m);
          Some (h[0 := u, i := d]) }"
| "exec1 n (Drop i w) h =
     do { let carry = h ! i div 2 ^ w;
          m \<leftarrow> checked n (carry * 2 ^ w);
          d \<leftarrow> checked n (h ! i - m);
          Some (h[i := d]) }"
| "exec1 n (MulAdd i j k) h =
     do { p \<leftarrow> checked n (h ! i * k); u \<leftarrow> checked n (h ! j + p); Some (h[j := u]) }"
| "exec1 n (MulSub i j k) h =
     do { p \<leftarrow> checked n (h ! i * k); u \<leftarrow> checked n (h ! j - p); Some (h[j := u]) }"
| "exec1 n (Clear i) h = Some (h[i := 0])"

fun exec :: "nat \<Rightarrow> limb_op list \<Rightarrow> int list \<Rightarrow> int list option" where
  "exec n [] h = Some h"
| "exec n (p # ps) h = do { h \<leftarrow> exec1 n p h; exec n ps h }"

lemma exec_append: "exec n (ps @ qs) h = do { h \<leftarrow> exec n ps h; exec n qs h }"
  by (induction ps arbitrary: h) (auto split: bind_split)

lemma length_exec1: "exec1 n p h = Some h' \<Longrightarrow> length h' = length h"
  by (cases p) (auto simp: Let_def bind_eq_Some_conv)

lemma length_exec: "exec n ps h = Some h' \<Longrightarrow> length h' = length h"
  by (induction ps arbitrary: h) (auto simp: bind_eq_Some_conv dest: length_exec1)

section \<open>Interval analysis\<close>

type_synonym ivl = "int \<times> int"

definition inside :: "int list \<Rightarrow> ivl list \<Rightarrow> bool" where
  "inside h B \<longleftrightarrow> length h = length B \<and> (\<forall>i<length B. fst (B ! i) \<le> h ! i \<and> h ! i \<le> snd (B ! i))"

definition check :: "nat \<Rightarrow> ivl \<Rightarrow> ivl option" where
  "check n b = (if fits n (fst b) \<and> fits n (snd b) then Some b else None)"

definition scale :: "int \<Rightarrow> ivl \<Rightarrow> ivl" where
  "scale k b = (min (fst b * k) (snd b * k), max (fst b * k) (snd b * k))"

definition shift :: "nat \<Rightarrow> ivl \<Rightarrow> ivl" where
  "shift w b = (fst b div 2 ^ w, snd b div 2 ^ w)"

definition plus_ivl :: "ivl \<Rightarrow> ivl \<Rightarrow> ivl" where
  "plus_ivl a b = (fst a + fst b, snd a + snd b)"

definition minus_ivl :: "ivl \<Rightarrow> ivl \<Rightarrow> ivl" where
  "minus_ivl a b = (fst a - snd b, snd a - fst b)"

fun bounds1 :: "nat \<Rightarrow> limb_op \<Rightarrow> ivl list \<Rightarrow> ivl list option" where
  "bounds1 n (Round i w) B =
     (if i + 1 < length B \<and> 0 < w \<and> fits n (- (2 ^ (w - 1))) \<and> fits n (2 ^ (w - 1) - 1) then
        do { t \<leftarrow> check n (plus_ivl (B ! i) (2 ^ (w - 1), 2 ^ (w - 1)));
             u \<leftarrow> check n (plus_ivl (B ! (i + 1)) (shift w t));
             m \<leftarrow> check n (scale (2 ^ w) (shift w t));
             Some (B[i + 1 := u, i := (- (2 ^ (w - 1)), 2 ^ (w - 1) - 1)]) }
      else None)"
| "bounds1 n (Floor i w) B =
     (if i + 1 < length B \<and> fits n (2 ^ w - 1) \<and> 0 < n then
        do { u \<leftarrow> check n (plus_ivl (B ! (i + 1)) (shift w (B ! i)));
             m \<leftarrow> check n (scale (2 ^ w) (shift w (B ! i)));
             Some (B[i + 1 := u, i := (0, 2 ^ w - 1)]) }
      else None)"
| "bounds1 n (Wrap i w k) B =
     (if 0 < i \<and> i < length B \<and> 0 < w \<and> fits n (- (2 ^ (w - 1))) \<and> fits n (2 ^ (w - 1) - 1) then
        do { t \<leftarrow> check n (plus_ivl (B ! i) (2 ^ (w - 1), 2 ^ (w - 1)));
             p \<leftarrow> check n (scale k (shift w t));
             u \<leftarrow> check n (plus_ivl (B ! 0) p);
             m \<leftarrow> check n (scale (2 ^ w) (shift w t));
             Some (B[0 := u, i := (- (2 ^ (w - 1)), 2 ^ (w - 1) - 1)]) }
      else None)"
| "bounds1 n (Drop i w) B =
     (if i < length B \<and> fits n (2 ^ w - 1) \<and> 0 < n then
        do { m \<leftarrow> check n (scale (2 ^ w) (shift w (B ! i)));
             Some (B[i := (0, 2 ^ w - 1)]) }
      else None)"
| "bounds1 n (MulAdd i j k) B =
     (if i < length B \<and> j < length B then
        do { p \<leftarrow> check n (scale k (B ! i)); u \<leftarrow> check n (plus_ivl (B ! j) p); Some (B[j := u]) }
      else None)"
| "bounds1 n (MulSub i j k) B =
     (if i < length B \<and> j < length B then
        do { p \<leftarrow> check n (scale k (B ! i)); u \<leftarrow> check n (minus_ivl (B ! j) p); Some (B[j := u]) }
      else None)"
| "bounds1 n (Clear i) B = Some (B[i := (0, 0)])"

fun bounds :: "nat \<Rightarrow> limb_op list \<Rightarrow> ivl list \<Rightarrow> ivl list option" where
  "bounds n [] B = Some B"
| "bounds n (p # ps) B = do { B \<leftarrow> bounds1 n p B; bounds n ps B }"

definition in_ivl :: "int \<Rightarrow> ivl \<Rightarrow> bool" where
  "in_ivl x b \<longleftrightarrow> fst b \<le> x \<and> x \<le> snd b"

lemma check_eq_Some [simp]: "check n b = Some b' \<longleftrightarrow> b' = b \<and> fits n (fst b) \<and> fits n (snd b)"
  by (auto simp: check_def)

lemma checked_in: "check n b = Some b' \<Longrightarrow> in_ivl x b \<Longrightarrow> checked n x = Some x"
  by (auto simp: in_ivl_def intro: fits_between)

lemma in_scale: "in_ivl x b \<Longrightarrow> in_ivl (x * k) (scale k b)"
  by (cases "0 \<le> k") (auto simp: in_ivl_def scale_def min_le_iff_disj le_max_iff_disj mult_right_mono mult_right_mono_neg)

lemma in_shift: "in_ivl x b \<Longrightarrow> in_ivl (x div 2 ^ w) (shift w b)"
  by (simp add: in_ivl_def shift_def zdiv_mono1)

lemma in_plus: "in_ivl x a \<Longrightarrow> in_ivl y b \<Longrightarrow> in_ivl (x + y) (plus_ivl a b)"
  by (simp add: in_ivl_def plus_ivl_def add_mono)

lemma in_minus: "in_ivl x a \<Longrightarrow> in_ivl y b \<Longrightarrow> in_ivl (x - y) (minus_ivl a b)"
  by (simp add: in_ivl_def minus_ivl_def diff_mono)

lemma in_const: "in_ivl x (x, x)"
  by (simp add: in_ivl_def)

lemma inside_nth: "inside h B \<Longrightarrow> i < length B \<Longrightarrow> in_ivl (h ! i) (B ! i)"
  by (simp add: inside_def in_ivl_def)

lemma inside_update: "inside h B \<Longrightarrow> in_ivl x b \<Longrightarrow> inside (h[i := x]) (B[i := b])"
  by (cases "i < length B") (auto simp: inside_def in_ivl_def nth_list_update)

lemmas ivl_intros = in_scale in_shift in_plus in_minus in_const inside_nth inside_update

text \<open>What is left of a limb after its carry was taken away.\<close>

lemma round_remainder:
  assumes "0 < w"
  shows "in_ivl (x - (x + 2 ^ (w - 1)) div 2 ^ w * 2 ^ w) (- (2 ^ (w - 1)), 2 ^ (w - 1) - 1)"
proof -
  have "2 ^ w = (2::int) * 2 ^ (w - 1)" using assms by (simp flip: power_Suc)
  moreover have "x - (x + 2 ^ (w - 1)) div 2 ^ w * 2 ^ w = (x + 2 ^ (w - 1)) mod 2 ^ w - 2 ^ (w - 1)"
    by (simp add: minus_div_mult_eq_mod [symmetric])
  moreover have "0 \<le> (x + 2 ^ (w - 1)) mod 2 ^ w" "(x + 2 ^ (w - 1)) mod 2 ^ w < 2 ^ w" by simp_all
  ultimately show ?thesis by (simp add: in_ivl_def)
qed

lemma floor_remainder: "in_ivl (x - x div 2 ^ w * 2 ^ w) (0, 2 ^ w - 1)"
  by (simp add: minus_div_mult_eq_mod in_ivl_def)

lemma bounds1_sound:
  assumes "bounds1 n p B = Some B'" "inside h B"
  shows "\<exists>h'. exec1 n p h = Some h' \<and> inside h' B'"
proof (cases p)
  case (Round i w)
  then obtain t u m where *: "i + 1 < length B" "0 < w" "check n (- (2 ^ (w - 1)), 2 ^ (w - 1) - 1) = Some (- (2 ^ (w - 1)), 2 ^ (w - 1) - 1)"
    and t: "check n (plus_ivl (B ! i) (2 ^ (w - 1), 2 ^ (w - 1))) = Some t"
    and u: "check n (plus_ivl (B ! (i + 1)) (shift w t)) = Some u" and m: "check n (scale (2 ^ w) (shift w t)) = Some m"
    and B': "B' = B[i + 1 := u, i := (- (2 ^ (w - 1)), 2 ^ (w - 1) - 1)]"
    using assms(1) by (auto simp: bind_eq_Some_conv split: if_splits)
  let ?t = "h ! i + 2 ^ (w - 1)"
  have it: "in_ivl ?t (plus_ivl (B ! i) (2 ^ (w - 1), 2 ^ (w - 1)))"
    using *(1) assms(2) by (intro ivl_intros) simp_all
  have iu: "in_ivl (h ! (i + 1) + ?t div 2 ^ w) (plus_ivl (B ! (i + 1)) (shift w t))"
    and im: "in_ivl (?t div 2 ^ w * 2 ^ w) (scale (2 ^ w) (shift w t))"
    using *(1) assms(2) it t by (auto intro!: ivl_intros)
  from iu u have "inside (h[i + 1 := h ! (i + 1) + ?t div 2 ^ w, i := h ! i - ?t div 2 ^ w * 2 ^ w]) B'"
    unfolding B' using assms(2) round_remainder [OF *(2)] by (intro inside_update) auto
  then show ?thesis
    using Round checked_in [OF t it] checked_in [OF u iu] checked_in [OF m im] checked_in [OF *(3) round_remainder [OF *(2)]]
    by (simp add: Let_def checked_fits)
next
  case (Floor i w)
  then obtain u m where *: "i + 1 < length B" "check n (0, 2 ^ w - 1) = Some (0, 2 ^ w - 1)"
    and u: "check n (plus_ivl (B ! (i + 1)) (shift w (B ! i))) = Some u"
    and m: "check n (scale (2 ^ w) (shift w (B ! i))) = Some m"
    and B': "B' = B[i + 1 := u, i := (0, 2 ^ w - 1)]"
    using assms(1) by (auto simp: bind_eq_Some_conv fits_def split: if_splits)
  have iu: "in_ivl (h ! (i + 1) + h ! i div 2 ^ w) (plus_ivl (B ! (i + 1)) (shift w (B ! i)))"
    and im: "in_ivl (h ! i div 2 ^ w * 2 ^ w) (scale (2 ^ w) (shift w (B ! i)))"
    using *(1) assms(2) by (auto intro!: ivl_intros)
  from iu u have "inside (h[i + 1 := h ! (i + 1) + h ! i div 2 ^ w, i := h ! i - h ! i div 2 ^ w * 2 ^ w]) B'"
    unfolding B' using assms(2) floor_remainder by (intro inside_update) auto
  then show ?thesis
    using Floor checked_in [OF u iu] checked_in [OF m im] checked_in [OF *(2) floor_remainder] by (simp add: Let_def checked_fits)
next
  case (Wrap i w k)
  then obtain t p' u m where *: "0 < i" "i < length B" "0 < w" "check n (- (2 ^ (w - 1)), 2 ^ (w - 1) - 1) = Some (- (2 ^ (w - 1)), 2 ^ (w - 1) - 1)"
    and t: "check n (plus_ivl (B ! i) (2 ^ (w - 1), 2 ^ (w - 1))) = Some t" and p': "check n (scale k (shift w t)) = Some p'"
    and u: "check n (plus_ivl (B ! 0) p') = Some u" and m: "check n (scale (2 ^ w) (shift w t)) = Some m"
    and B': "B' = B[0 := u, i := (- (2 ^ (w - 1)), 2 ^ (w - 1) - 1)]"
    using assms(1) by (auto simp: bind_eq_Some_conv split: if_splits)
  let ?t = "h ! i + 2 ^ (w - 1)"
  have it: "in_ivl ?t (plus_ivl (B ! i) (2 ^ (w - 1), 2 ^ (w - 1)))"
    using *(2) assms(2) by (intro ivl_intros) simp_all
  have ip: "in_ivl (?t div 2 ^ w * k) (scale k (shift w t))"
    and im: "in_ivl (?t div 2 ^ w * 2 ^ w) (scale (2 ^ w) (shift w t))"
    using it t by (auto intro!: ivl_intros)
  have iu: "in_ivl (h ! 0 + ?t div 2 ^ w * k) (plus_ivl (B ! 0) p')"
    using *(1,2) assms(2) ip p' by (auto intro!: in_plus inside_nth)
  from iu u have "inside (h[0 := h ! 0 + ?t div 2 ^ w * k, i := h ! i - ?t div 2 ^ w * 2 ^ w]) B'"
    unfolding B' using assms(2) round_remainder [OF *(3)] by (intro inside_update) auto
  then show ?thesis
    using Wrap checked_in [OF t it] checked_in [OF p' ip] checked_in [OF u iu] checked_in [OF m im] checked_in [OF *(4) round_remainder [OF *(3)]]
    by (simp add: Let_def checked_fits)
next
  case (Drop i w)
  then obtain m where *: "i < length B" "check n (0, 2 ^ w - 1) = Some (0, 2 ^ w - 1)"
    and m: "check n (scale (2 ^ w) (shift w (B ! i))) = Some m" and B': "B' = B[i := (0, 2 ^ w - 1)]"
    using assms(1) by (auto simp: bind_eq_Some_conv fits_def split: if_splits)
  have im: "in_ivl (h ! i div 2 ^ w * 2 ^ w) (scale (2 ^ w) (shift w (B ! i)))"
    using *(1) assms(2) by (auto intro!: ivl_intros)
  have "inside (h[i := h ! i - h ! i div 2 ^ w * 2 ^ w]) B'"
    unfolding B' using assms(2) floor_remainder by (intro inside_update) auto
  then show ?thesis
    using Drop checked_in [OF m im] checked_in [OF *(2) floor_remainder] by (simp add: Let_def checked_fits)
next
  case (MulAdd i j k)
  then obtain p' u where *: "i < length B" "j < length B" and p': "check n (scale k (B ! i)) = Some p'"
    and u: "check n (plus_ivl (B ! j) p') = Some u" and B': "B' = B[j := u]"
    using assms(1) by (auto simp: bind_eq_Some_conv split: if_splits)
  have ip: "in_ivl (h ! i * k) (scale k (B ! i))" using * assms(2) by (intro ivl_intros)
  then have iu: "in_ivl (h ! j + h ! i * k) (plus_ivl (B ! j) p')" using * assms(2) p' by (auto intro!: in_plus inside_nth)
  then have "inside (h[j := h ! j + h ! i * k]) B'" unfolding B' using u assms(2) by (auto intro!: inside_update)
  then show ?thesis using MulAdd checked_in [OF p' ip] checked_in [OF u iu] by (simp add: checked_fits)
next
  case (MulSub i j k)
  then obtain p' u where *: "i < length B" "j < length B" and p': "check n (scale k (B ! i)) = Some p'"
    and u: "check n (minus_ivl (B ! j) p') = Some u" and B': "B' = B[j := u]"
    using assms(1) by (auto simp: bind_eq_Some_conv split: if_splits)
  have ip: "in_ivl (h ! i * k) (scale k (B ! i))" using * assms(2) by (intro ivl_intros)
  then have iu: "in_ivl (h ! j - h ! i * k) (minus_ivl (B ! j) p')" using * assms(2) p' by (auto intro!: in_minus inside_nth)
  then have "inside (h[j := h ! j - h ! i * k]) B'" unfolding B' using u assms(2) by (auto intro!: inside_update)
  then show ?thesis using MulSub checked_in [OF p' ip] checked_in [OF u iu] by (simp add: checked_fits)
next
  case (Clear i)
  then show ?thesis using assms by (auto intro!: inside_update in_const)
qed

theorem bounds_sound:
  "bounds n ps B = Some B' \<Longrightarrow> inside h B \<Longrightarrow> \<exists>h'. exec n ps h = Some h' \<and> inside h' B'"
proof (induction ps arbitrary: h B)
  case (Cons p ps)
  then obtain C where "bounds1 n p B = Some C" "bounds n ps C = Some B'" by (auto simp: bind_eq_Some_conv)
  moreover from this Cons.prems obtain k where "exec1 n p h = Some k" "inside k C" using bounds1_sound by blast
  ultimately show ?case using Cons.IH by auto
qed simp

section \<open>Weights\<close>

definition weighted :: "int list \<Rightarrow> int list \<Rightarrow> int" where
  "weighted W h = sum_list (map2 (*) W h)"

fun weigh1 :: "int \<Rightarrow> limb_op \<Rightarrow> int list \<Rightarrow> int list option" where
  "weigh1 M (Round i w) W =
     (if i + 1 < length W \<and> W ! (i + 1) mod M = (W ! i * 2 ^ w) mod M then Some W else None)"
| "weigh1 M (Floor i w) W =
     (if i + 1 < length W \<and> W ! (i + 1) mod M = (W ! i * 2 ^ w) mod M then Some W else None)"
| "weigh1 M (Wrap i w k) W =
     (if 0 < i \<and> i < length W \<and> (k * W ! 0) mod M = (W ! i * 2 ^ w) mod M then Some W else None)"
| "weigh1 M (Drop i w) W = (if i < length W \<and> (W ! i * 2 ^ w) mod M = 0 then Some W else None)"
| "weigh1 M (MulAdd i j k) W =
     (if i \<noteq> j \<and> i < length W \<and> j < length W then Some (W[i := (W ! i - k * W ! j) mod M]) else None)"
| "weigh1 M (MulSub i j k) W =
     (if i \<noteq> j \<and> i < length W \<and> j < length W then Some (W[i := (W ! i + k * W ! j) mod M]) else None)"
| "weigh1 M (Clear i) W = (if i < length W \<and> W ! i mod M = 0 then Some W else None)"

fun weigh :: "int \<Rightarrow> limb_op list \<Rightarrow> int list \<Rightarrow> int list option" where
  "weigh M [] W = Some W"
| "weigh M (p # ps) W = do { W \<leftarrow> weigh1 M p W; weigh M ps W }"

lemma weighted_sum: "length W = length h \<Longrightarrow> weighted W h = (\<Sum>i<length h. W ! i * h ! i)"
  by (simp add: weighted_def sum_list_sum_nth atLeast0LessThan)

lemma weighted_update:
  assumes "length W = length h" "i < length h"
  shows "weighted W (h[i := x]) = weighted W h + W ! i * (x - h ! i)"
proof -
  have "weighted W (h[i := x]) = (\<Sum>j<length h. W ! j * h ! j + (if j = i then W ! i * (x - h ! i) else 0))"
    using assms by (auto simp: weighted_sum nth_list_update algebra_simps intro!: sum.cong)
  then show ?thesis using assms by (simp add: weighted_sum sum.distrib)
qed

lemma weighted_change:
  assumes "length W = length h" "i < length h"
  shows "weighted (W[i := v]) h = weighted W h + (v - W ! i) * h ! i"
proof -
  have "weighted (W[i := v]) h = (\<Sum>j<length h. W ! j * h ! j + (if j = i then (v - W ! i) * h ! i else 0))"
    using assms by (auto simp: weighted_sum nth_list_update algebra_simps intro!: sum.cong)
  then show ?thesis using assms by (simp add: weighted_sum sum.distrib)
qed

lemma weigh1_sound:
  assumes "weigh1 M p W = Some W'" "exec1 n p h = Some h'" "length W = length h"
  shows "M dvd weighted W' h' - weighted W h"
proof (cases p)
  case (Round i w)
  let ?c = "(h ! i + 2 ^ (w - 1)) div 2 ^ w"
  have "h' = h[i + 1 := h ! (i + 1) + ?c, i := h ! i - ?c * 2 ^ w]" and W: "W' = W" "i + 1 < length W"
    and M: "M dvd W ! (i + 1) - W ! i * 2 ^ w"
    using Round assms by (auto simp: bind_eq_Some_conv Let_def mod_eq_dvd_iff split: if_splits)
  then have "weighted W' h' - weighted W h = (W ! (i + 1) - W ! i * 2 ^ w) * ?c"
    using assms(3) by (simp add: weighted_update algebra_simps)
  then show ?thesis using M by simp
next
  case (Floor i w)
  let ?c = "h ! i div 2 ^ w"
  have "h' = h[i + 1 := h ! (i + 1) + ?c, i := h ! i - ?c * 2 ^ w]" and W: "W' = W" "i + 1 < length W"
    and M: "M dvd W ! (i + 1) - W ! i * 2 ^ w"
    using Floor assms by (auto simp: bind_eq_Some_conv Let_def mod_eq_dvd_iff split: if_splits)
  then have "weighted W' h' - weighted W h = (W ! (i + 1) - W ! i * 2 ^ w) * ?c"
    using assms(3) by (simp add: weighted_update algebra_simps)
  then show ?thesis using M by simp
next
  case (Wrap i w k)
  let ?c = "(h ! i + 2 ^ (w - 1)) div 2 ^ w"
  have "h' = h[0 := h ! 0 + ?c * k, i := h ! i - ?c * 2 ^ w]" and W: "W' = W" "0 < i" "i < length W"
    and M: "M dvd k * W ! 0 - W ! i * 2 ^ w"
    using Wrap assms by (auto simp: bind_eq_Some_conv Let_def mod_eq_dvd_iff split: if_splits)
  then have "weighted W' h' - weighted W h = (k * W ! 0 - W ! i * 2 ^ w) * ?c"
    using assms(3) less_trans [OF W(2,3)] by (simp add: weighted_update algebra_simps)
  then show ?thesis using M by simp
next
  case (Drop i w)
  let ?c = "h ! i div 2 ^ w"
  have "h' = h[i := h ! i - ?c * 2 ^ w]" and W: "W' = W" "i < length W" and M: "M dvd W ! i * 2 ^ w"
    using Drop assms by (auto simp: bind_eq_Some_conv Let_def split: if_splits)
  then have "weighted W' h' - weighted W h = (W ! i * 2 ^ w) * (- ?c)"
    using assms(3) by (simp add: weighted_update algebra_simps)
  then show ?thesis using M by (metis dvd_mult2)
next
  case (MulAdd i j k)
  then have h: "h' = h[j := h ! j + h ! i * k]" and W: "W' = W[i := (W ! i - k * W ! j) mod M]" "i \<noteq> j" "i < length W" "j < length W"
    using assms by (auto simp: bind_eq_Some_conv split: if_splits)
  have "weighted W' h' - weighted W h = ((W ! i - k * W ! j) mod M - (W ! i - k * W ! j)) * h ! i"
    using W assms(3) unfolding h by (simp add: weighted_update weighted_change algebra_simps)
  moreover have "M dvd (W ! i - k * W ! j) mod M - (W ! i - k * W ! j)" by (simp flip: mod_eq_dvd_iff)
  ultimately show ?thesis by simp
next
  case (MulSub i j k)
  then have h: "h' = h[j := h ! j - h ! i * k]" and W: "W' = W[i := (W ! i + k * W ! j) mod M]" "i \<noteq> j" "i < length W" "j < length W"
    using assms by (auto simp: bind_eq_Some_conv split: if_splits)
  have "weighted W' h' - weighted W h = ((W ! i + k * W ! j) mod M - (W ! i + k * W ! j)) * h ! i"
    using W assms(3) unfolding h by (simp add: weighted_update weighted_change algebra_simps)
  moreover have "M dvd (W ! i + k * W ! j) mod M - (W ! i + k * W ! j)" by (simp flip: mod_eq_dvd_iff)
  ultimately show ?thesis by simp
next
  case (Clear i)
  then have "h' = h[i := 0]" "W' = W" "i < length W" "M dvd W ! i"
    using assms by (auto split: if_splits)
  then show ?thesis using assms(3) by (simp add: weighted_update)
qed

lemma length_weigh1: "weigh1 M p W = Some W' \<Longrightarrow> length W' = length W"
  by (cases p) (auto split: if_splits)

theorem weigh_sound:
  "weigh M ps W = Some W' \<Longrightarrow> exec n ps h = Some h' \<Longrightarrow> length W = length h \<Longrightarrow>
   weighted W' h' mod M = weighted W h mod M"
proof (induction ps arbitrary: W h)
  case (Cons p ps)
  then obtain V k where "weigh1 M p W = Some V" "exec1 n p h = Some k" and rest: "weigh M ps V = Some W'" "exec n ps k = Some h'"
    by (auto simp: bind_eq_Some_conv)
  moreover from this have "length V = length k" using Cons.prems(3) by (simp add: length_weigh1 length_exec1)
  ultimately show ?case
    using Cons.IH [OF rest] weigh1_sound [OF _ _ Cons.prems(3)] by (metis mod_eq_dvd_iff)
qed simp

section \<open>Checked sums of products\<close>

fun dot_from :: "nat \<Rightarrow> int \<Rightarrow> (int \<times> int) list \<Rightarrow> int option" where
  "dot_from n s [] = Some s"
| "dot_from n s ((a, b) # ps) =
     do { p \<leftarrow> checked n (a * b); t \<leftarrow> checked n (s + p); dot_from n t ps }"

definition dot :: "nat \<Rightarrow> (int \<times> int) list \<Rightarrow> int option" where
  "dot n ps = dot_from n 0 ps"

definition sum_products :: "(int \<times> int) list \<Rightarrow> int" where
  "sum_products ps = sum_list (map (\<lambda>(a, b). a * b) ps)"

lemma sum_products_simps [simp]:
  "sum_products [] = 0" "sum_products ((a, b) # ps) = a * b + sum_products ps"
  by (simp_all add: sum_products_def)

text \<open>Bounds of the factors in absolute value.\<close>

definition factors_within :: "(int \<times> int) list \<Rightarrow> (int \<times> int) list \<Rightarrow> bool" where
  "factors_within ps bs \<longleftrightarrow> list_all2 (\<lambda>p b. \<bar>fst p\<bar> \<le> fst b \<and> \<bar>snd p\<bar> \<le> snd b) ps bs"

lemma dot_from_within:
  assumes "factors_within ps bs" "\<bar>s\<bar> + sum_products bs < 2 ^ (n - 1)"
  shows "dot_from n s ps = Some (s + sum_products ps) \<and> \<bar>sum_products ps\<bar> \<le> sum_products bs"
  using assms unfolding factors_within_def
proof (induction arbitrary: s rule: list_all2_induct)
  case (Cons p ps b bs)
  obtain x y X Y where [simp]: "p = (x, y)" "b = (X, Y)" by fastforce
  have xy: "\<bar>x * y\<bar> \<le> X * Y" using Cons.hyps(1) by (auto simp: abs_mult intro!: mult_mono)
  have nonneg: "0 \<le> sum_products cs" if "list_all2 (\<lambda>p b. \<bar>fst p\<bar> \<le> fst b \<and> \<bar>snd p\<bar> \<le> snd b) qs cs" for qs cs
    using that by (induction rule: list_all2_induct) (auto intro!: add_nonneg_nonneg mult_nonneg_nonneg)
  have "fits n (x * y)" "fits n (s + x * y)"
    using xy nonneg [OF Cons.hyps(2)] Cons.prems by (auto simp: fits_def abs_le_iff)
  moreover have "\<bar>s + x * y\<bar> + sum_products bs < 2 ^ (n - 1)" using xy Cons.prems by simp
  ultimately show ?case
    using Cons.IH [of "s + x * y"] xy abs_triangle_ineq [of "x * y" "sum_products ps"] by (simp add: checked_fits)
qed simp

lemma dot_within:
  "factors_within ps bs \<Longrightarrow> sum_products bs < 2 ^ (n - 1) \<Longrightarrow>
   dot n ps = Some (sum_products ps) \<and> \<bar>sum_products ps\<bar> \<le> sum_products bs"
  using dot_from_within [of ps bs 0 n] by (simp add: dot_def)

section \<open>Byte strings as numbers and their limbs\<close>

primrec le_val :: "bytes \<Rightarrow> int" where
  "le_val [] = 0"
| "le_val (b # bs) = uint b + 256 * le_val bs"

lemma le_val_nonneg [simp]: "0 \<le> le_val bs"
  by (induction bs) simp_all

lemma le_val_less: "le_val bs < 256 ^ length bs"
proof (induction bs)
  case (Cons b bs)
  have "uint b < 256" using uint_lt2p [of b] by simp
  with Cons show ?case by simp
qed simp

lemma le_val_append: "le_val (xs @ ys) = le_val xs + 256 ^ length xs * le_val ys"
  by (induction xs) (simp_all add: algebra_simps)

lemma le_val_div_mod:
  assumes "k \<le> length bs"
  shows "le_val (take k bs) = le_val bs mod 256 ^ k" "le_val (drop k bs) = le_val bs div 256 ^ k"
proof -
  have *: "le_val bs = le_val (take k bs) + 256 ^ k * le_val (drop k bs)"
    using assms le_val_append [of "take k bs" "drop k bs"] by simp
  have "le_val (take k bs) < 256 ^ k" using assms le_val_less [of "take k bs"] by simp
  then show "le_val (take k bs) = le_val bs mod 256 ^ k" "le_val (drop k bs) = le_val bs div 256 ^ k"
    unfolding * by simp_all
qed

lemma le_val_bits:
  assumes "k \<le> length bs"
  shows "le_val (take k bs) = take_bit (8 * k) (le_val bs)" "le_val (drop k bs) = drop_bit (8 * k) (le_val bs)"
  using le_val_div_mod [OF assms] by (simp_all add: take_bit_eq_mod drop_bit_eq_div power_mult)

lemma le_val_of_bytes:
  assumes "0 \<le> V"
  shows "le_val (map (\<lambda>k. word_of_int (drop_bit (8 * k) V)) [0..<n]) = take_bit (8 * n) V"
proof (induction n)
  case (Suc n)
  have "uint (word_of_int (drop_bit (8 * n) V) :: byte) = take_bit 8 (drop_bit (8 * n) V)"
    by (simp add: uint_word_of_int_eq)
  moreover have "take_bit (8 * Suc n) V = take_bit (8 * n) V + 256 ^ n * take_bit 8 (drop_bit (8 * n) V)"
    using zmod_zmult2_eq [of 256 V "256 ^ n"]
    by (simp add: take_bit_eq_mod drop_bit_eq_div power_add power_mult mult.commute [of _ "256 :: int"])
  ultimately show ?case using Suc by (simp add: le_val_append)
qed simp

lemma le_val_inject: "length xs = length ys \<Longrightarrow> le_val xs = le_val ys \<Longrightarrow> xs = ys"
proof (induction xs ys rule: list_induct2)
  case (Cons x xs y ys)
  have "uint x < 256" "uint y < 256" "0 \<le> uint x" "0 \<le> uint y" using uint_lt2p [of x] uint_lt2p [of y] by simp_all
  moreover have e: "uint x + 256 * le_val xs = uint y + 256 * le_val ys" using Cons.prems by simp
  ultimately have "uint x = uint y"
    using mod_mult_self2 [of "uint x" 256 "le_val xs"] mod_mult_self2 [of "uint y" 256 "le_val ys"] by simp
  with e have "uint x = uint y" "le_val xs = le_val ys" by simp_all
  then show ?case using Cons.IH by (simp add: word_uint_eq_iff)
qed simp

text \<open>The limbs of a number in a mixed radix: limb \<open>i\<close> has \<open>ws ! i\<close> bits.\<close>

primrec limbs :: "nat list \<Rightarrow> int \<Rightarrow> int list" where
  "limbs [] V = []"
| "limbs (w # ws) V = take_bit w V # limbs ws (drop_bit w V)"

primrec powers :: "nat list \<Rightarrow> int list" where
  "powers [] = []"
| "powers (w # ws) = 1 # map ((*) (2 ^ w)) (powers ws)"

lemma length_limbs [simp]: "length (limbs ws V) = length ws"
  by (induction ws arbitrary: V) simp_all

lemma length_powers [simp]: "length (powers ws) = length ws"
  by (induction ws) simp_all

lemma weighted_Cons [simp]: "weighted (w # W) (x # h) = w * x + weighted W h"
  by (simp add: weighted_def)

lemma weighted_Nil [simp]: "weighted [] h = 0" "weighted W [] = 0"
  by (simp_all add: weighted_def)

lemma weighted_scale: "weighted (map ((*) k) W) h = k * weighted W h"
  by (induction W h rule: list_induct2') (simp_all add: algebra_simps)

lemma weighted_append: "length W = length h \<Longrightarrow> weighted (W @ W') (h @ h') = weighted W h + weighted W' h'"
  by (simp add: weighted_def)

lemma weighted_zeros: "weighted (replicate n 0) h = 0"
  by (induction n arbitrary: h) (simp, case_tac h, simp_all)

lemma weighted_limbs: "weighted (powers ws) (limbs ws V) = take_bit (sum_list ws) V"
  by (induction ws arbitrary: V)
    (simp_all add: weighted_scale take_bit_eq_mod drop_bit_eq_div power_add zmod_zmult2_eq)

lemma limbs_unique:
  "length h = length ws \<Longrightarrow> (\<And>i. i < length ws \<Longrightarrow> 0 \<le> h ! i \<and> h ! i < 2 ^ (ws ! i)) \<Longrightarrow>
   limbs ws (weighted (powers ws) h) = h"
proof (induction h ws rule: list_induct2)
  case (Cons x h w ws)
  have x: "0 \<le> x" "x < 2 ^ w" using Cons.prems [of 0] by simp_all
  have "0 \<le> h ! i \<and> h ! i < 2 ^ (ws ! i)" if "i < length ws" for i using Cons.prems [of "Suc i"] that by simp
  with Cons.IH have "limbs ws (weighted (powers ws) h) = h" by simp
  with x show ?case by (simp add: weighted_scale take_bit_eq_mod drop_bit_eq_div)
qed simp

lemma byte_inside:
  "a + 8 \<le> w \<Longrightarrow> (word_of_int (drop_bit a (take_bit w V)) :: byte) = word_of_int (drop_bit a V)"
  by (rule bit_word_eqI) (auto simp: bit_simps)

lemma byte_across:
  "w = a + b \<Longrightarrow> 8 \<le> v + b \<Longrightarrow>
   (word_of_int (drop_bit a (take_bit w V) OR push_bit b (take_bit v (drop_bit w V))) :: byte) = word_of_int (drop_bit a V)"
  by (rule bit_word_eqI) (auto simp: bit_simps)

section \<open>Running the analyses\<close>

definition bounded :: "nat \<Rightarrow> limb_op list \<Rightarrow> ivl list \<Rightarrow> ivl list \<Rightarrow> bool" where
  "bounded n ps B C =
     (case bounds n ps B of None \<Rightarrow> False
      | Some B' \<Rightarrow> list_all2 (\<lambda>b c. fst c \<le> fst b \<and> snd b \<le> snd c) B' C)"

lemma bounded_sound:
  assumes "bounded n ps B C" "inside h B"
  shows "\<exists>h'. exec n ps h = Some h' \<and> inside h' C"
proof -
  from assms(1) obtain B' where "bounds n ps B = Some B'" and *: "list_all2 (\<lambda>b c. fst c \<le> fst b \<and> snd b \<le> snd c) B' C"
    by (auto simp: bounded_def split: option.splits)
  with assms(2) bounds_sound obtain h' where "exec n ps h = Some h'" "inside h' B'" by blast
  moreover from this(2) * have "inside h' C" by (force simp: inside_def list_all2_conv_all_nth)
  ultimately show ?thesis by blast
qed

text \<open>Code that only uses the limbs of a prefix leaves the rest alone.\<close>

fun uses :: "nat \<Rightarrow> limb_op \<Rightarrow> bool" where
  "uses n (Round i w) = (i + 1 < n)"
| "uses n (Floor i w) = (i + 1 < n)"
| "uses n (Wrap i w k) = (i < n)"
| "uses n (Drop i w) = (i < n)"
| "uses n (MulAdd i j k) = (i < n \<and> j < n)"
| "uses n (MulSub i j k) = (i < n \<and> j < n)"
| "uses n (Clear i) = (i < n)"

lemma exec1_frame:
  "uses (length h) p \<Longrightarrow> exec1 n p (h @ r) = map_option (\<lambda>h. h @ r) (exec1 n p h)"
proof (cases p)
  case (Wrap i w k)
  moreover assume "uses (length h) p"
  ultimately have "0 < length h" "i < length h" by auto
  with Wrap show ?thesis by (auto simp: Let_def nth_append list_update_append checked_def)
qed (auto simp: Let_def nth_append list_update_append checked_def)

lemma exec_frame:
  "list_all (uses (length h)) ps \<Longrightarrow> exec n ps (h @ r) = map_option (\<lambda>h. h @ r) (exec n ps h)"
proof (induction ps arbitrary: h)
  case (Cons p ps)
  then show ?case by (cases "exec1 n p h") (auto simp: exec1_frame dest: length_exec1)
qed simp

section \<open>Arrays of limbs and their intervals\<close>

lemma inside_append:
  "length h = length B \<Longrightarrow> inside (h @ r) (B @ C) \<longleftrightarrow> inside h B \<and> inside r C"
  by (auto simp: inside_def nth_append) (metis add_diff_cancel_left' add_less_cancel_left not_add_less1)+

lemma inside_Cons [simp]: "inside (x # h) (b # B) \<longleftrightarrow> in_ivl x b \<and> inside h B"
  by (auto simp: inside_def in_ivl_def nth_Cons split: nat.splits)

lemma inside_Nil [simp]: "inside [] []" "\<not> inside [] (b # B)" "\<not> inside (x # h) []"
  by (simp_all add: inside_def)

lemma inside_replicate: "inside h (replicate n b) \<longleftrightarrow> length h = n \<and> (\<forall>x\<in>set h. in_ivl x b)"
  by (force simp: inside_def in_ivl_def in_set_conv_nth)

lemma inside_snoc: "inside h (B @ [b]) \<longleftrightarrow> (\<exists>k x. h = k @ [x] \<and> inside k B \<and> in_ivl x b)"
proof
  assume h: "inside h (B @ [b])"
  then have "length h = Suc (length B)" by (simp add: inside_def)
  then obtain k x where "h = k @ [x]" "length k = length B" by (metis append_butlast_last_id length_butlast diff_Suc_1 list.size(3) nat.distinct(1))
  with h show "\<exists>k x. h = k @ [x] \<and> inside k B \<and> in_ivl x b" by (auto simp: inside_append)
qed (auto simp: inside_append inside_def [of _ B])

lemma inside_split:
  assumes "inside h (B @ C)"
  obtains k r where "h = k @ r" "inside k B" "inside r C"
proof
  show "h = take (length B) h @ drop (length B) h" by simp
  then show "inside (take (length B) h) B" "inside (drop (length B) h) C"
    using assms inside_append [of "take (length B) h" B "drop (length B) h" C] by (simp_all add: inside_def [of h])
qed

lemma weighted_powers_bounds:
  assumes "inside k (map (\<lambda>w. (0, 2 ^ w - 1)) ws)"
  shows "0 \<le> weighted (powers ws) k \<and> weighted (powers ws) k < 2 ^ sum_list ws"
  using assms
proof (induction ws arbitrary: k)
  case (Cons w ws)
  then obtain x k' where k: "k = x # k'" "0 \<le> x" "x < 2 ^ w" "inside k' (map (\<lambda>w. (0, 2 ^ w - 1)) ws)"
    by (cases k) (auto simp: in_ivl_def)
  from Cons.IH [OF k(4)] have "0 \<le> weighted (powers ws) k'" and le: "weighted (powers ws) k' + 1 \<le> 2 ^ sum_list ws" by simp_all
  have "2 ^ w * (weighted (powers ws) k' + 1) \<le> 2 ^ w * 2 ^ sum_list ws" using le by (rule mult_left_mono) simp
  with k \<open>0 \<le> weighted (powers ws) k'\<close> show ?case by (simp add: weighted_scale power_add algebra_simps)
qed (simp add: inside_def)

lemma inside_mono:
  "inside h B \<Longrightarrow> list_all2 (\<lambda>b c. fst c \<le> fst b \<and> snd b \<le> snd c) B C \<Longrightarrow> inside h C"
  by (force simp: inside_def list_all2_conv_all_nth)

lemma inside_limbs: "inside (limbs ws V) (map (\<lambda>w. (0, 2 ^ w - 1)) ws)"
  proof (induction ws arbitrary: V)
  case (Cons w ws)
  have "take_bit w V < 2 ^ w" by (rule take_bit_int_less_exp)
  with Cons show ?case by (simp add: in_ivl_def)
qed simp

lemma those_map: "(\<And>x. x \<in> set xs \<Longrightarrow> f x = Some (g x)) \<Longrightarrow> those (map f xs) = Some (map g xs)"
  by (induction xs) auto

lemma weighted_map2:
  assumes "length a = length b" "length W = length a"
  shows "weighted W (map2 (+) a b) = weighted W a + weighted W b" "weighted W (map2 (-) a b) = weighted W a - weighted W b"
  using assms by (simp_all add: weighted_sum sum.distrib sum_subtractf algebra_simps)

lemma in_map2: "x \<in> set (map2 f a b) \<Longrightarrow> \<exists>u v. u \<in> set a \<and> v \<in> set b \<and> x = f u v"
  by (auto dest: set_zip_leftD set_zip_rightD)

lemma those_map2:
  "(\<And>x y. x \<in> set a \<Longrightarrow> y \<in> set b \<Longrightarrow> fits n (f x y)) \<Longrightarrow>
   those (map2 (\<lambda>x y. checked n (f x y)) a b) = Some (map2 f a b)"
  by (rule those_map) (auto intro!: checked_fits dest: set_zip_leftD set_zip_rightD simp del: checked_eq_Some_iff)

lemma nth_limbs: "i < n \<Longrightarrow> limbs (replicate n w) V ! i = take_bit w (drop_bit (w * i) V)"
  by (induction n arbitrary: i V) (auto simp: nth_Cons drop_bit_drop_bit algebra_simps split: nat.splits)

end
