(* ===== verification/Scalar.thy ===== *)
theory Scalar
  imports Limbs
begin

text \<open>
  The arithmetic of Ed25519 scalars of \<^verbatim>\<open>crypto/crypto-ops.c\<close> (\<open>sc_reduce\<close> to \<open>sc_isnonzero\<close>) and the
  copying variant of \<^verbatim>\<open>ringct/rctCryptoOps.c\<close>.  A scalar of 32 bytes is cut into twelve limbs of 21 bits
  (a number of 64 bytes into 24), the limbs are combined, carried and folded with
  \<open>2 ^ 252 = - 27742317777372353535851937790883648493\<close> modulo the order of the group, and stored again.
  Each function is shown to compute the residue in \<open>{0..<l}\<close> without any signed overflow.  The interval
  analysis of \<open>Limbs\<close> bounds the limbs, the weights keep the value.
\<close>

unbundle bit_operations_syntax

section \<open>The code\<close>

definition load_3 :: "bytes \<Rightarrow> u64" where
  "load_3 s = ucast (s ! 0) OR push_bit 8 (ucast (s ! 1)) OR push_bit 16 (ucast (s ! 2))"

definition load_4 :: "bytes \<Rightarrow> u64" where
  "load_4 s = ucast (s ! 0) OR push_bit 8 (ucast (s ! 1)) OR push_bit 16 (ucast (s ! 2)) OR push_bit 24 (ucast (s ! 3))"

definition load_scalar :: "bytes \<Rightarrow> int list" where
  "load_scalar s = map sint
     [2097151 AND load_3 s,
      2097151 AND drop_bit 5 (load_4 (drop 2 s)),
      2097151 AND drop_bit 2 (load_3 (drop 5 s)),
      2097151 AND drop_bit 7 (load_4 (drop 7 s)),
      2097151 AND drop_bit 4 (load_4 (drop 10 s)),
      2097151 AND drop_bit 1 (load_3 (drop 13 s)),
      2097151 AND drop_bit 6 (load_4 (drop 15 s)),
      2097151 AND drop_bit 3 (load_3 (drop 18 s)),
      2097151 AND load_3 (drop 21 s),
      2097151 AND drop_bit 5 (load_4 (drop 23 s)),
      2097151 AND drop_bit 2 (load_3 (drop 26 s)),
      drop_bit 7 (load_4 (drop 28 s))]"

definition load_wide :: "bytes \<Rightarrow> int list" where
  "load_wide s = map sint
     [2097151 AND load_3 s,
      2097151 AND drop_bit 5 (load_4 (drop 2 s)),
      2097151 AND drop_bit 2 (load_3 (drop 5 s)),
      2097151 AND drop_bit 7 (load_4 (drop 7 s)),
      2097151 AND drop_bit 4 (load_4 (drop 10 s)),
      2097151 AND drop_bit 1 (load_3 (drop 13 s)),
      2097151 AND drop_bit 6 (load_4 (drop 15 s)),
      2097151 AND drop_bit 3 (load_3 (drop 18 s)),
      2097151 AND load_3 (drop 21 s),
      2097151 AND drop_bit 5 (load_4 (drop 23 s)),
      2097151 AND drop_bit 2 (load_3 (drop 26 s)),
      2097151 AND drop_bit 7 (load_4 (drop 28 s)),
      2097151 AND drop_bit 4 (load_4 (drop 31 s)),
      2097151 AND drop_bit 1 (load_3 (drop 34 s)),
      2097151 AND drop_bit 6 (load_4 (drop 36 s)),
      2097151 AND drop_bit 3 (load_3 (drop 39 s)),
      2097151 AND load_3 (drop 42 s),
      2097151 AND drop_bit 5 (load_4 (drop 44 s)),
      2097151 AND drop_bit 2 (load_3 (drop 47 s)),
      2097151 AND drop_bit 7 (load_4 (drop 49 s)),
      2097151 AND drop_bit 4 (load_4 (drop 52 s)),
      2097151 AND drop_bit 1 (load_3 (drop 55 s)),
      2097151 AND drop_bit 6 (load_4 (drop 57 s)),
      drop_bit 3 (load_4 (drop 60 s))]"

text \<open>The stores at the end of every function: \<open>s[2] = (s0 >> 16) | (s1 << 5)\<close> and so on, each
  converted to an unsigned char.\<close>

definition store_scalar :: "int list \<Rightarrow> bytes" where
  "store_scalar s = map word_of_int
     [drop_bit 0 (s ! 0),
      drop_bit 8 (s ! 0),
      drop_bit 16 (s ! 0) OR push_bit 5 (s ! 1),
      drop_bit 3 (s ! 1),
      drop_bit 11 (s ! 1),
      drop_bit 19 (s ! 1) OR push_bit 2 (s ! 2),
      drop_bit 6 (s ! 2),
      drop_bit 14 (s ! 2) OR push_bit 7 (s ! 3),
      drop_bit 1 (s ! 3),
      drop_bit 9 (s ! 3),
      drop_bit 17 (s ! 3) OR push_bit 4 (s ! 4),
      drop_bit 4 (s ! 4),
      drop_bit 12 (s ! 4),
      drop_bit 20 (s ! 4) OR push_bit 1 (s ! 5),
      drop_bit 7 (s ! 5),
      drop_bit 15 (s ! 5) OR push_bit 6 (s ! 6),
      drop_bit 2 (s ! 6),
      drop_bit 10 (s ! 6),
      drop_bit 18 (s ! 6) OR push_bit 3 (s ! 7),
      drop_bit 5 (s ! 7),
      drop_bit 13 (s ! 7),
      drop_bit 0 (s ! 8),
      drop_bit 8 (s ! 8),
      drop_bit 16 (s ! 8) OR push_bit 5 (s ! 9),
      drop_bit 3 (s ! 9),
      drop_bit 11 (s ! 9),
      drop_bit 19 (s ! 9) OR push_bit 2 (s ! 10),
      drop_bit 6 (s ! 10),
      drop_bit 14 (s ! 10) OR push_bit 7 (s ! 11),
      drop_bit 1 (s ! 11),
      drop_bit 9 (s ! 11),
      drop_bit 17 (s ! 11)]"

text \<open>A limb above \<open>2 ^ 252\<close> is folded twelve places down with six multiplications.\<close>

definition fold_limb :: "nat \<Rightarrow> limb_op list" where
  "fold_limb i =
     [MulAdd i (i - 12) 666643, MulAdd i (i - 11) 470296, MulAdd i (i - 10) 654183,
      MulSub i (i - 9) 997805, MulAdd i (i - 8) 136657, MulSub i (i - 7) 683901]"

definition rounds :: "nat list \<Rightarrow> limb_op list" where
  "rounds is = map (\<lambda>i. Round i 21) is"

definition floors :: "nat list \<Rightarrow> limb_op list" where
  "floors is = map (\<lambda>i. Floor i 21) is"

text \<open>The statements of \<open>sc_reduce32\<close>, \<open>sc_add\<close> and \<open>sc_sub\<close> from the first carry to the last; those of
  \<open>sc_reduce\<close>; those of the three multiplications.\<close>

definition last_passes :: "limb_op list" where
  "last_passes = floors [0, 1, 2, 3, 4, 5, 6, 7, 8, 9, 10, 11] @ fold_limb 12 @ floors [0, 1, 2, 3, 4, 5, 6, 7, 8, 9, 10]"

definition reduce_start :: "limb_op list" where
  "reduce_start = rounds [0, 2, 4, 6, 8, 10] @ rounds [1, 3, 5, 7, 9, 11] @ fold_limb 12 @ [Clear 12]"

definition fold_start :: "limb_op list" where
  "fold_start =
     concat (map fold_limb [23, 22, 21, 20, 19, 18]) @
     rounds [6, 8, 10, 12, 14, 16] @ rounds [7, 9, 11, 13, 15] @
     concat (map fold_limb [17, 16, 15, 14, 13, 12]) @ [Clear 12]"

definition product_start :: "limb_op list" where
  "product_start =
     rounds [0, 2, 4, 6, 8, 10, 12, 14, 16, 18, 20, 22] @ rounds [1, 3, 5, 7, 9, 11, 13, 15, 17, 19, 21]"

definition sc_0 :: bytes where
  "sc_0 = replicate 32 0"

definition sc_reduce :: "bytes \<Rightarrow> bytes option" where
  "sc_reduce s =
     do { h \<leftarrow> exec 64 (fold_start @ reduce_start @ last_passes) (load_wide s);
          Some (blit s 0 (store_scalar h)) }"

definition sc_reduce32 :: "bytes \<Rightarrow> bytes option" where
  "sc_reduce32 s =
     do { h \<leftarrow> exec 64 (reduce_start @ last_passes) (load_scalar s @ [0]);
          Some (store_scalar h) }"

definition sc_reduce32copy :: "bytes \<Rightarrow> bytes option" where
  "sc_reduce32copy s =
     do { h \<leftarrow> exec 64 (reduce_start @ last_passes) (load_scalar s @ [0]);
          Some (store_scalar h) }"

definition sc_add :: "bytes \<Rightarrow> bytes \<Rightarrow> bytes option" where
  "sc_add a b =
     do { s \<leftarrow> those (map2 (\<lambda>x y. checked 64 (x + y)) (load_scalar a) (load_scalar b));
          h \<leftarrow> exec 64 (reduce_start @ last_passes) (s @ [0]);
          Some (store_scalar h) }"

definition sc_sub :: "bytes \<Rightarrow> bytes \<Rightarrow> bytes option" where
  "sc_sub a b =
     do { s \<leftarrow> those (map2 (\<lambda>x y. checked 64 (x - y)) (load_scalar a) (load_scalar b));
          h \<leftarrow> exec 64 (reduce_start @ last_passes) (s @ [0]);
          Some (store_scalar h) }"

text \<open>Row \<open>k\<close> of the schoolbook product, \<open>a0*bk + a1*b(k-1) + \<dots>\<close>, in the order of the source.\<close>

definition row :: "int list \<Rightarrow> int list \<Rightarrow> nat \<Rightarrow> (int \<times> int) list" where
  "row a b k = map (\<lambda>i. (a ! i, b ! (k - i))) [k - 11..<min 12 (k + 1)]"

definition sc_mul :: "bytes \<Rightarrow> bytes \<Rightarrow> bytes option" where
  "sc_mul a b =
     do { let a' = load_scalar a;
          let b' = load_scalar b;
          s \<leftarrow> those (map (\<lambda>k. dot 64 (row a' b' k)) [0..<23]);
          h \<leftarrow> exec 64 (product_start @ fold_start @ reduce_start @ last_passes) (s @ [0]);
          Some (store_scalar h) }"

definition sc_muladd :: "bytes \<Rightarrow> bytes \<Rightarrow> bytes \<Rightarrow> bytes option" where
  "sc_muladd a b c =
     do { let a' = load_scalar a;
          let b' = load_scalar b;
          let c' = load_scalar c;
          s \<leftarrow> those (map (\<lambda>k. do { p \<leftarrow> dot 64 (row a' b' k); checked 64 (c' ! k + p) }) [0..<12]);
          t \<leftarrow> those (map (\<lambda>k. dot 64 (row a' b' k)) [12..<23]);
          h \<leftarrow> exec 64 (product_start @ fold_start @ reduce_start @ last_passes) (s @ t @ [0]);
          Some (store_scalar h) }"

definition sc_mulsub :: "bytes \<Rightarrow> bytes \<Rightarrow> bytes \<Rightarrow> bytes option" where
  "sc_mulsub a b c =
     do { let a' = load_scalar a;
          let b' = load_scalar b;
          let c' = load_scalar c;
          s \<leftarrow> those (map (\<lambda>k. do { p \<leftarrow> dot 64 (row a' b' k); checked 64 (c' ! k - p) }) [0..<12]);
          t \<leftarrow> those (map (\<lambda>k. do { p \<leftarrow> dot 64 (row a' b' k); checked 64 (- p) }) [12..<22]);
          m \<leftarrow> checked 64 (- (a' ! 11));
          u \<leftarrow> checked 64 (m * b' ! 11);
          h \<leftarrow> exec 64 (product_start @ fold_start @ reduce_start @ last_passes) (s @ t @ [u, 0]);
          Some (store_scalar h) }"

definition signum :: "int \<Rightarrow> int option" where
  "signum a = do { m \<leftarrow> checked 64 (- a); checked 64 (a div 2 ^ 63 - m div 2 ^ 63) }"

text \<open>The comparison of a scalar with the order: eight signs of 32-bit differences, weighted by powers of two.\<close>

definition check_words :: "int list" where
  "check_words = [1559614444, 1477600026, 2734136534, 350157278, 0, 0, 0, 268435456]"

definition sc_check :: "bytes \<Rightarrow> int option" where
  "sc_check s =
     do { d \<leftarrow> those (map (\<lambda>i. do { x \<leftarrow> checked 64 (check_words ! i - sint (load_4 (drop (4 * i) s))); signum x }) [0..<8]);
          t \<leftarrow> dot 64 (zip d [1, 2, 4, 8, 16, 32, 64, 128]);
          Some (t div 2 ^ 8) }"

definition sc_isnonzero :: "bytes \<Rightarrow> int" where
  "sc_isnonzero s = (uint (foldl (OR) (s ! 0) (map ((!) s) [1..<32])) - 1) div 2 ^ 8 + 1"

section \<open>Limbs and bytes\<close>

lemma bit_le_val_Cons: "bit (le_val (b # bs)) n = (if n < 8 then bit b n else bit (le_val bs) (n - 8))"
proof -
  have "le_val (b # bs) = uint b + push_bit 8 (le_val bs)" by (simp add: push_bit_eq_mult)
  also have "\<dots> = uint b OR push_bit 8 (le_val bs)" by (rule disjunctive_add) (auto simp: bit_simps dest: bit_imp_le_length)
  finally show ?thesis by (auto simp: bit_simps dest: bit_imp_le_length)
qed

lemma load_4_le_val:
  assumes "4 \<le> length s"
  shows "uint (load_4 s) = le_val (take 4 s)"
proof -
  obtain a b c d r where s: "s = a # b # c # d # r"
    using assms by (cases s; cases "tl s"; cases "tl (tl s)"; cases "tl (tl (tl s))") auto
  show ?thesis
    by (rule bit_eqI) (auto simp: s load_4_def bit_le_val_Cons bit_simps not_le not_less le_diff_conv2 less_diff_conv2 simp del: le_val.simps(2) dest: bit_imp_le_length)
qed

lemma load_3_le_val:
  assumes "3 \<le> length s"
  shows "uint (load_3 s) = le_val (take 3 s)"
proof -
  obtain a b c r where s: "s = a # b # c # r"
    using assms by (cases s; cases "tl s"; cases "tl (tl s)") auto
  show ?thesis
    by (rule bit_eqI) (auto simp: s load_3_def bit_le_val_Cons bit_simps not_le not_less simp del: le_val.simps(2) dest: bit_imp_le_length)
qed

text \<open>A masked and shifted load is 21 bits of the number, an unmasked one all bits that are left.\<close>

lemma sint_small: "uint (x :: u64) < 2 ^ 63 \<Longrightarrow> sint x = uint x"
  by (simp add: sint_uint signed_take_bit_eq_if_positive bit_iff_odd take_bit_int_eq_self)

lemma mask_21: "(2097151 :: u64) = mask 21"
  by (simp add: mask_eq_exp_minus_1)

lemma masked_load:
  assumes "uint (x :: u64) = take_bit m V" "r + 21 \<le> m"
  shows "sint (2097151 AND drop_bit r x) = take_bit 21 (drop_bit r V)"
proof -
  have "uint (2097151 AND drop_bit r x) = take_bit 21 (drop_bit r (uint x))"
    by (simp only: mask_21) (rule bit_eqI, auto simp: bit_simps)
  also have "\<dots> = take_bit 21 (drop_bit r V)" unfolding assms(1) using assms(2) by (intro bit_eqI) (auto simp: bit_simps)
  finally have u: "uint (2097151 AND drop_bit r x) = take_bit 21 (drop_bit r V)" .
  have "take_bit 21 (drop_bit r V) < 2 ^ 21" by (rule take_bit_int_less_exp)
  then have "uint (2097151 AND drop_bit r x) < 2 ^ 63" unfolding u by simp
  from sint_small [OF this] u show ?thesis by simp
qed

lemma load_limb:
  assumes "k + 4 \<le> length s" "r + 21 \<le> 32"
  shows "sint (2097151 AND drop_bit r (load_4 (drop k s))) = take_bit 21 (drop_bit (8 * k + r) (le_val s))"
  using assms masked_load [of "load_4 (drop k s)" 32 "drop_bit (8 * k) (le_val s)" r]
  by (simp add: load_4_le_val le_val_bits drop_bit_drop_bit add.commute)

lemma load_limb_3:
  assumes "k + 3 \<le> length s" "r + 21 \<le> 24"
  shows "sint (2097151 AND drop_bit r (load_3 (drop k s))) = take_bit 21 (drop_bit (8 * k + r) (le_val s))"
  using assms masked_load [of "load_3 (drop k s)" 24 "drop_bit (8 * k) (le_val s)" r]
  by (simp add: load_3_le_val le_val_bits drop_bit_drop_bit add.commute)

lemma load_top:
  assumes "k + 4 \<le> length s"
  shows "sint (drop_bit r (load_4 (drop k s))) = take_bit (32 - r) (drop_bit (8 * k + r) (le_val s))"
proof -
  have "uint (load_4 (drop k s)) = take_bit 32 (drop_bit (8 * k) (le_val s))"
    using assms by (simp add: load_4_le_val le_val_bits)
  then have u: "uint (drop_bit r (load_4 (drop k s))) = take_bit (32 - r) (drop_bit (8 * k + r) (le_val s))"
    by (simp only: unsigned_drop_bit_eq drop_bit_take_bit drop_bit_drop_bit add.commute [of r] take_bit_take_bit)
      (simp add: min_absorb2 diff_le_mono)
  have "take_bit (32 - r) (drop_bit (8 * k + r) (le_val s)) < 2 ^ (32 - r)" by (rule take_bit_int_less_exp)
  also have "\<dots> \<le> (2 :: int) ^ 32" by (rule power_increasing) simp_all
  finally have "uint (drop_bit r (load_4 (drop k s))) < 2 ^ 63" unfolding u by simp
  from sint_small [OF this] u show ?thesis by simp
qed

definition scalar_widths :: "nat list" where
  "scalar_widths = [21, 21, 21, 21, 21, 21, 21, 21, 21, 21, 21, 25]"

definition wide_widths :: "nat list" where
  "wide_widths = [21, 21, 21, 21, 21, 21, 21, 21, 21, 21, 21, 21, 21, 21, 21, 21, 21, 21, 21, 21, 21, 21, 21, 29]"

lemma load_scalar_limbs: "length s = 32 \<Longrightarrow> load_scalar s = limbs scalar_widths (le_val s)"
  using load_limb_3 [of 0 s 0] load_limb_3 [of 21 s 0]
  by (simp add: load_scalar_def scalar_widths_def load_limb load_limb_3 load_top drop_bit_drop_bit)

lemma load_wide_limbs: "length s = 64 \<Longrightarrow> load_wide s = limbs wide_widths (le_val s)"
  using load_limb_3 [of 0 s 0] load_limb_3 [of 21 s 0] load_limb_3 [of 42 s 0]
  by (simp add: load_wide_def wide_widths_def load_limb load_limb_3 load_top drop_bit_drop_bit)

lemma stored_byte:
  "a + 8 \<le> w \<Longrightarrow> (word_of_int (drop_bit a (take_bit w (drop_bit o1 V))) :: byte) = word_of_int (drop_bit (o1 + a) V)"
  by (simp add: byte_inside drop_bit_drop_bit add.commute)

lemma stored_byte_0:
  "8 \<le> w \<Longrightarrow> (word_of_int (take_bit w V) :: byte) = word_of_int V"
  using byte_inside [of 0 w V] by simp

lemma stored_byte_across:
  "w = a + b \<Longrightarrow> 8 \<le> v + b \<Longrightarrow> o2 = o1 + w \<Longrightarrow>
   (word_of_int (drop_bit a (take_bit w (drop_bit o1 V)) OR push_bit b (take_bit v (drop_bit o2 V))) :: byte)
    = word_of_int (drop_bit (o1 + a) V)"
  using byte_across [of w a b v "drop_bit o1 V"] by (simp add: drop_bit_drop_bit add.commute)

lemma store_scalar_limbs:
  assumes "h = limbs scalar_widths V @ r"
  shows "store_scalar h = map (\<lambda>k. word_of_int (drop_bit (8 * k) V)) [0..<32]"
proof -
  have u: "[0..<32] = [0, 1, 2, 3, 4, 5, 6, 7, 8, 9, 10, 11, 12, 13, 14, 15, 16, 17, 18, 19, 20, 21, 22, 23, 24, 25, 26, 27, 28, 29, 30, 31]"
    by code_simp
  show ?thesis
    unfolding u assms
    using stored_byte_across [of 21 16 5 21 21 0 V] stored_byte_across [of 21 20 1 21 105 84 V] stored_byte [of 8 21 0 V]
    by (simp add: store_scalar_def scalar_widths_def drop_bit_drop_bit stored_byte stored_byte_0 stored_byte_across)
qed

section \<open>Reduction of thirteen limbs\<close>

definition group_order :: int where
  "group_order = 2 ^ 252 + 27742317777372353535851937790883648493"

definition start_bounds :: "ivl list" where
  "start_bounds = replicate 12 (- (2 ^ 60), 2 ^ 60) @ [(0, 0)]"

definition carried_bounds :: "ivl list" where
  "carried_bounds = (replicate 6 (- (2 ^ 60), 2 ^ 60) @
     [(- (2 ^ 40), 2 ^ 40), (- (2 ^ 20), 2 ^ 20), (- (2 ^ 40), 2 ^ 40), (- (2 ^ 20), 2 ^ 20),
      (- (2 ^ 40), 2 ^ 40), (- (2 ^ 20), 2 ^ 20)]) @ [(0, 0)]"

definition floored_bounds :: "ivl list" where
  "floored_bounds = replicate 12 (0, 2 ^ 21 - 1) @ [(- 1, 0)]"

definition stored_bounds :: "ivl list" where
  "stored_bounds = (replicate 11 (0, 2 ^ 21 - 1) @ [(- 1, 2 ^ 21)]) @ [(- 1, 0)]"

lemma bounded_reduce_start: "bounded 64 reduce_start start_bounds carried_bounds"
  by code_simp

lemma bounded_first_pass: "bounded 64 (floors [0, 1, 2, 3, 4, 5, 6, 7, 8, 9, 10, 11]) carried_bounds floored_bounds"
  by code_simp

lemma bounded_second_pass:
  "bounded 64 (fold_limb 12 @ floors [0, 1, 2, 3, 4, 5, 6, 7, 8, 9, 10]) floored_bounds stored_bounds"
  by code_simp

lemma weigh_reduce_start:
  "weigh group_order reduce_start (powers (replicate 13 21)) = Some (powers scalar_widths @ [0])"
  by code_simp

lemma weigh_first_pass:
  "weigh 0 (floors [0, 1, 2, 3, 4, 5, 6, 7, 8, 9, 10, 11]) (powers (replicate 13 21)) = Some (powers (replicate 13 21))"
  by code_simp

lemma weigh_second_pass:
  "weigh 0 (fold_limb 12 @ floors [0, 1, 2, 3, 4, 5, 6, 7, 8, 9, 10])
     (powers scalar_widths @ [2 ^ 252 - group_order]) = Some (powers scalar_widths @ [0])"
  by code_simp

lemma length_scalar_widths [simp]: "length scalar_widths = 12"
  by (simp add: scalar_widths_def)

lemma powers_13: "powers (replicate 13 21) = powers scalar_widths @ [2 ^ 252]"
  by code_simp

lemma last_limb:
  assumes "inside k (replicate 11 (0, 2 ^ 21 - 1) @ [(- 1, 2 ^ 21)])" "0 \<le> weighted (powers scalar_widths) k"
  shows "limbs scalar_widths (weighted (powers scalar_widths) k) = k"
proof (rule limbs_unique)
  obtain m t where k: "k = m @ [t]" "inside m (replicate 11 (0, 2 ^ 21 - 1))" "- 1 \<le> t" "t \<le> 2 ^ 21"
    using assms(1) unfolding inside_snoc by (auto simp: in_ivl_def)
  have m: "length m = 11" using k(2) by (simp add: inside_def)
  show "length k = length scalar_widths" using m k(1) by simp
  have P: "powers scalar_widths = powers (replicate 11 21) @ [2 ^ 231]" by code_simp
  have "weighted (powers scalar_widths) k = weighted (powers (replicate 11 21)) m + 2 ^ 231 * t"
    unfolding P k(1) using m by (simp add: weighted_append)
  moreover have "weighted (powers (replicate 11 21)) m < 2 ^ 231"
    using weighted_powers_bounds [of m "replicate 11 21"] k(2) by (simp add: sum_list_replicate)
  ultimately have t: "0 \<le> t" using assms(2) k(3) by (cases "t = - 1") simp_all
  have u: "scalar_widths = replicate 11 21 @ [25]" by code_simp
  show "0 \<le> k ! i \<and> k ! i < 2 ^ (scalar_widths ! i)" if "i < length scalar_widths" for i
    using that m k t inside_nth [OF k(2), of i] unfolding u k(1)
    by (auto simp: nth_append in_ivl_def less_Suc_eq)
qed

lemma reduce_correct:
  assumes "inside h start_bounds"
  shows "\<exists>r'. exec 64 (reduce_start @ last_passes) (h @ r)
    = Some (limbs scalar_widths (weighted (powers (replicate 13 21)) h mod group_order) @ r')"
proof -
  from assms have len: "length h = 13" by (simp add: inside_def start_bounds_def)
  from bounded_sound [OF bounded_reduce_start assms] obtain h1 where h1: "exec 64 reduce_start h = Some h1" "inside h1 carried_bounds" by blast
  from bounded_sound [OF bounded_first_pass h1(2)] obtain h2 where
    h2: "exec 64 (floors [0, 1, 2, 3, 4, 5, 6, 7, 8, 9, 10, 11]) h1 = Some h2" "inside h2 floored_bounds" by blast
  from bounded_sound [OF bounded_second_pass h2(2)] obtain h3 where
    h3: "exec 64 (fold_limb 12 @ floors [0, 1, 2, 3, 4, 5, 6, 7, 8, 9, 10]) h2 = Some h3" "inside h3 stored_bounds" by blast
  have len1: "length h1 = 13" "length h2 = 13" "length h3 = 13"
    using length_exec [OF h1(1)] length_exec [OF h2(1)] length_exec [OF h3(1)] len by simp_all
  let ?V = "weighted (powers (replicate 13 21)) h"
  obtain k1 where k1: "h1 = k1 @ [0]" "length k1 = 12"
    using h1(2) len1(1) unfolding carried_bounds_def inside_snoc by (auto simp: in_ivl_def)
  obtain k2 y where k2: "h2 = k2 @ [y]" "inside k2 (replicate 12 (0, 2 ^ 21 - 1))" "- 1 \<le> y" "y \<le> 0"
    using h2(2) unfolding floored_bounds_def inside_snoc by (auto simp: in_ivl_def)
  have y: "y = - 1 \<or> y = 0" using k2(3,4) by arith
  obtain k3 z where k3: "h3 = k3 @ [z]" "inside k3 (replicate 11 (0, 2 ^ 21 - 1) @ [(- 1, 2 ^ 21)])"
    using h3(2) unfolding stored_bounds_def inside_snoc by auto
  let ?P = "powers scalar_widths" and ?V = "weighted (powers (replicate 13 21)) h"
  have lens: "length ?P = 12" "length k2 = 12" "length k3 = 12"
    using k2(2) k3(2) by (simp_all add: inside_def)
  have "weighted (?P @ [0]) h1 mod group_order = ?V mod group_order"
    using weigh_sound [OF weigh_reduce_start h1(1)] len by simp
  then have V: "weighted ?P k1 mod group_order = ?V mod group_order"
    using k1 lens by (simp add: weighted_append)
  have "weighted (powers (replicate 13 21)) h2 = weighted (powers (replicate 13 21)) h1"
    using weigh_sound [OF weigh_first_pass h2(1)] len1 by simp
  then have U1: "weighted ?P k2 + 2 ^ 252 * y = weighted ?P k1"
    using k1 k2(1) lens by (simp add: powers_13 weighted_append del: power_numeral)
  have "weighted (?P @ [0]) h3 = weighted (?P @ [2 ^ 252 - group_order]) h2"
    using weigh_sound [OF weigh_second_pass h3(1)] len1 lens by simp
  then have U2: "weighted ?P k3 = weighted ?P k2 + (2 ^ 252 - group_order) * y"
    using k2(1) k3(1) lens by (simp add: weighted_append)
  have U: "weighted ?P k3 = weighted ?P k1 - group_order * y" using U1 U2 by (simp add: algebra_simps)
  have P12: "?P = powers (replicate 12 21)" by code_simp
  have "0 \<le> weighted ?P k2" "weighted ?P k2 < 2 ^ 252"
    using weighted_powers_bounds [of k2 "replicate 12 21"] k2(2) unfolding P12 by (simp_all add: sum_list_replicate)
  then have range: "0 \<le> weighted ?P k3" "weighted ?P k3 < group_order"
    using U2 y by (auto simp: group_order_def)
  have "weighted ?P k3 mod group_order = ?V mod group_order"
    unfolding U V [symmetric] by (simp add: mod_eq_dvd_iff)
  with range have res: "weighted ?P k3 = ?V mod group_order" by simp
  have "limbs scalar_widths (weighted ?P k3) = k3"
    using k3(2) range(1) by (rule last_limb)
  moreover have "list_all (uses 13) (reduce_start @ last_passes)" by code_simp
  ultimately have "exec 64 (reduce_start @ last_passes) (h @ r) = Some (limbs scalar_widths (?V mod group_order) @ z # r)"
    using h1(1) h2(1) h3(1) len k3(1) res exec_frame [of h "reduce_start @ last_passes" 64 r]
    by (simp add: last_passes_def exec_append)
  then show ?thesis by blast
qed

section \<open>Folding 24 limbs\<close>

lemma bounded_fold_start:
  "bounded 64 fold_start (replicate 24 (- (2 ^ 34), 2 ^ 34)) (start_bounds @ replicate 11 (- (2 ^ 60), 2 ^ 60))"
  by code_simp

lemma bounded_product_start:
  "bounded 64 product_start (replicate 23 (- (2 ^ 54), 2 ^ 54) @ [(0, 0)]) (replicate 24 (- (2 ^ 34), 2 ^ 34))"
  by code_simp

lemma weigh_fold_start:
  "weigh group_order fold_start (powers (replicate 24 21)) = Some (powers scalar_widths @ replicate 12 0)"
  by code_simp

lemma weigh_product_start: "weigh 0 product_start (powers (replicate 24 21)) = Some (powers (replicate 24 21))"
  by code_simp

lemma fold_correct:
  assumes "inside h (replicate 24 (- (2 ^ 34), 2 ^ 34))"
  obtains k r where "exec 64 fold_start h = Some (k @ r)" "inside k start_bounds"
    "weighted (powers (replicate 13 21)) k mod group_order = weighted (powers (replicate 24 21)) h mod group_order"
proof -
  from bounded_sound [OF bounded_fold_start assms] obtain h' where
    h': "exec 64 fold_start h = Some h'" "inside h' (start_bounds @ replicate 11 (- (2 ^ 60), 2 ^ 60))" by blast
  from inside_split [OF h'(2)] obtain k r where k: "h' = k @ r" "inside k start_bounds" by blast
  then obtain m where m: "k = m @ [0]" "length m = 12"
    unfolding start_bounds_def inside_snoc by (auto simp: in_ivl_def inside_def)
  have "weighted (powers scalar_widths @ replicate 12 0) h' mod group_order = weighted (powers (replicate 24 21)) h mod group_order"
    using weigh_sound [OF weigh_fold_start h'(1)] assms by (simp add: inside_def)
  moreover have "weighted (powers scalar_widths @ replicate 12 0) h' = weighted (powers (replicate 13 21)) k"
    using m unfolding powers_13 k(1) by (simp add: weighted_append weighted_zeros)
  ultimately show thesis using that h'(1) k by simp
qed

section \<open>The functions compute residues\<close>

text \<open>The canonical encoding of a residue.\<close>

definition encode_scalar :: "int \<Rightarrow> bytes" where
  "encode_scalar x = map (\<lambda>k. word_of_int (drop_bit (8 * k) (x mod group_order))) [0..<32]"

lemma residue_bounds: "0 \<le> x mod group_order" "x mod group_order < 2 ^ 256"
proof -
  have "x mod group_order < group_order" by (rule pos_mod_bound) (simp add: group_order_def)
  then show "x mod group_order < 2 ^ 256" by (simp add: group_order_def)
qed (simp add: group_order_def)

lemma le_val_encode: "le_val (encode_scalar x) = x mod group_order" "length (encode_scalar x) = 32"
  using le_val_of_bytes [of "x mod group_order" 32] residue_bounds [of x]
  by (simp_all add: encode_scalar_def take_bit_int_eq_self)

lemma store_residue: "store_scalar (limbs scalar_widths (x mod group_order) @ r) = encode_scalar x"
  unfolding encode_scalar_def by (rule store_scalar_limbs) simp

lemma reduce_and_store:
  assumes "inside h start_bounds" "weighted (powers (replicate 13 21)) h mod group_order = x mod group_order"
  shows "do { h \<leftarrow> exec 64 (reduce_start @ last_passes) (h @ r); Some (f (store_scalar h)) } = Some (f (encode_scalar x))"
  using reduce_correct [OF assms(1), of r] assms(2) by (auto simp: store_residue)

end
