(* ===== verification/Scalar_Ops.thy ===== *)
theory Scalar_Ops
  imports Scalar
begin

text \<open>
  The scalar functions of \<^verbatim>\<open>crypto-ops.c\<close> return the canonical encodings of the residues they name in
  their comments: reduction, sum, difference, product, and the two combined operations, for all inputs of
  32 (or 64) bytes and without overflow; \<open>sc_check\<close> accepts exactly the canonical encodings and
  \<open>sc_isnonzero\<close> finds the zero scalar.
\<close>

unbundle bit_operations_syntax

section \<open>Limbs of scalars\<close>

lemma length_load_scalar [simp]: "length (load_scalar s) = 12"
  by (simp add: load_scalar_def)

text \<open>The limbs of a scalar of 32 bytes: none is above \<open>2 ^ 25\<close> and their weighted sum is the number.\<close>

lemma scalar_limbs:
  assumes "length s = 32"
  shows "inside (load_scalar s) (replicate 12 (0, 2 ^ 25))" "weighted (powers scalar_widths) (load_scalar s) = le_val s"
proof -
  have "list_all2 (\<lambda>b c. fst c \<le> fst b \<and> snd b \<le> snd c) (map (\<lambda>w. (0 :: int, 2 ^ w - 1)) scalar_widths) (replicate 12 (0, (2 :: int) ^ 25))"
    by code_simp
  with inside_limbs show "inside (load_scalar s) (replicate 12 (0, 2 ^ 25))"
    unfolding load_scalar_limbs [OF assms] by (rule inside_mono)
  have "le_val s < 2 ^ 256" using le_val_less [of s] assms by simp
  moreover have "sum_list scalar_widths = 256" by code_simp
  ultimately show "weighted (powers scalar_widths) (load_scalar s) = le_val s"
    unfolding load_scalar_limbs [OF assms] weighted_limbs by (simp add: take_bit_int_eq_self)
qed

lemma scalar_limb: "length s = 32 \<Longrightarrow> x \<in> set (load_scalar s) \<Longrightarrow> 0 \<le> x \<and> x \<le> 2 ^ 25"
  using scalar_limbs(1) [of s] by (auto simp: inside_replicate in_ivl_def)

lemma inside_start:
  assumes "length h = 12" "\<And>x. x \<in> set h \<Longrightarrow> - (2 ^ 60) \<le> x \<and> x \<le> 2 ^ 60"
  shows "inside (h @ [0]) start_bounds"
  using assms unfolding start_bounds_def inside_snoc inside_replicate by (auto simp: in_ivl_def)

lemma weighted_13: "length h = 12 \<Longrightarrow> weighted (powers (replicate 13 21)) (h @ [0]) = weighted (powers scalar_widths) h"
  unfolding powers_13 by (simp add: weighted_append)

lemma sc_reduce32_result: "length s = 32 \<Longrightarrow> sc_reduce32 s = Some (encode_scalar (le_val s))"
  using reduce_and_store [of "load_scalar s @ [0]" "le_val s" "[]" id] scalar_limbs(2) [of s] scalar_limb [of s]
    inside_start [of "load_scalar s"]
  by (force simp: sc_reduce32_def weighted_13)

lemma sum_and_store:
  assumes "length h = 12" "\<And>x. x \<in> set h \<Longrightarrow> - (2 ^ 60) \<le> x \<and> x \<le> 2 ^ 60"
  shows "do { h \<leftarrow> exec 64 (reduce_start @ last_passes) (h @ [0]); Some (store_scalar h) }
    = Some (encode_scalar (weighted (powers scalar_widths) h))"
  using reduce_and_store [OF inside_start [OF assms], of _ "[]" id] weighted_13 [OF assms(1)] by simp

lemma sc_add_result:
  assumes "length a = 32" "length b = 32"
  shows "sc_add a b = Some (encode_scalar (le_val a + le_val b))"
proof -
  have r: "0 \<le> x + y \<and> x + y \<le> 2 ^ 26" if "x \<in> set (load_scalar a)" "y \<in> set (load_scalar b)" for x y
    using scalar_limb [OF assms(1) that(1)] scalar_limb [OF assms(2) that(2)] by simp
  have "those (map2 (\<lambda>x y. checked 64 (x + y)) (load_scalar a) (load_scalar b)) = Some (map2 (+) (load_scalar a) (load_scalar b))"
    using r by (intro those_map2) (force simp: fits_def)
  moreover have "- (2 ^ 60) \<le> x \<and> x \<le> 2 ^ 60" if "x \<in> set (map2 (+) (load_scalar a) (load_scalar b))" for x
    using in_map2 [OF that] r by force
  moreover have "weighted (powers scalar_widths) (map2 (+) (load_scalar a) (load_scalar b)) = le_val a + le_val b"
    using scalar_limbs(2) assms by (simp add: weighted_map2)
  ultimately show ?thesis using sum_and_store [of "map2 (+) (load_scalar a) (load_scalar b)"] by (simp add: sc_add_def)
qed

lemma sc_sub_result:
  assumes "length a = 32" "length b = 32"
  shows "sc_sub a b = Some (encode_scalar (le_val a - le_val b))"
proof -
  have r: "- (2 ^ 25) \<le> x - y \<and> x - y \<le> 2 ^ 25" if "x \<in> set (load_scalar a)" "y \<in> set (load_scalar b)" for x y
    using scalar_limb [OF assms(1) that(1)] scalar_limb [OF assms(2) that(2)] by simp
  have "those (map2 (\<lambda>x y. checked 64 (x - y)) (load_scalar a) (load_scalar b)) = Some (map2 (-) (load_scalar a) (load_scalar b))"
    using r by (intro those_map2) (force simp: fits_def)
  moreover have "- (2 ^ 60) \<le> x \<and> x \<le> 2 ^ 60" if "x \<in> set (map2 (-) (load_scalar a) (load_scalar b))" for x
    using in_map2 [OF that] r by force
  moreover have "weighted (powers scalar_widths) (map2 (-) (load_scalar a) (load_scalar b)) = le_val a - le_val b"
    using scalar_limbs(2) assms by (simp add: weighted_map2)
  ultimately show ?thesis using sum_and_store [of "map2 (-) (load_scalar a) (load_scalar b)"] by (simp add: sc_sub_def)
qed

section \<open>Wide reduction\<close>

lemma fold_and_store:
  assumes "inside h (replicate 24 (- (2 ^ 34), 2 ^ 34))"
  shows "do { h \<leftarrow> exec 64 (fold_start @ reduce_start @ last_passes) h; Some (f (store_scalar h)) }
    = Some (f (encode_scalar (weighted (powers (replicate 24 21)) h)))"
proof -
  obtain k r where "exec 64 fold_start h = Some (k @ r)" "inside k start_bounds"
    "weighted (powers (replicate 13 21)) k mod group_order = weighted (powers (replicate 24 21)) h mod group_order"
    by (rule fold_correct [OF assms])
  then show ?thesis using reduce_and_store [of k _ r f] by (simp add: exec_append)
qed

lemma product_and_store:
  assumes "length h = 23" "\<And>x. x \<in> set h \<Longrightarrow> \<bar>x\<bar> \<le> 2 ^ 54"
  shows "do { h \<leftarrow> exec 64 (product_start @ fold_start @ reduce_start @ last_passes) (h @ [0]); Some (store_scalar h) }
    = Some (encode_scalar (weighted (powers (replicate 24 21)) (h @ [0])))"
proof -
  have "inside (h @ [0]) (replicate 23 (- (2 ^ 54), 2 ^ 54) @ [(0, 0)])"
    using assms unfolding inside_snoc inside_replicate by (force simp: in_ivl_def abs_le_iff)
  from bounded_sound [OF bounded_product_start this] obtain k where
    k: "exec 64 product_start (h @ [0]) = Some k" "inside k (replicate 24 (- (2 ^ 34), 2 ^ 34))" by blast
  have "weighted (powers (replicate 24 21)) k = weighted (powers (replicate 24 21)) (h @ [0])"
    using weigh_sound [OF weigh_product_start k(1)] assms(1) by simp
  with fold_and_store [OF k(2), of id] k(1) show ?thesis by (simp add: exec_append [of _ product_start])
qed

lemma sc_reduce_result:
  assumes "length s = 64"
  shows "sc_reduce s = Some (encode_scalar (le_val s) @ drop 32 s)"
proof -
  have "list_all2 (\<lambda>b c. fst c \<le> fst b \<and> snd b \<le> snd c) (map (\<lambda>w. (0 :: int, 2 ^ w - 1)) wide_widths) (replicate 24 (- (2 ^ 34), (2 :: int) ^ 34))"
    by code_simp
  with inside_limbs have i: "inside (load_wide s) (replicate 24 (- (2 ^ 34), 2 ^ 34))"
    unfolding load_wide_limbs [OF assms] by (rule inside_mono)
  have "le_val s < 2 ^ 512" using le_val_less [of s] assms by simp
  moreover have "sum_list wide_widths = 512" "powers (replicate 24 21) = powers wide_widths" by code_simp+
  ultimately have "weighted (powers (replicate 24 21)) (load_wide s) = le_val s"
    unfolding load_wide_limbs [OF assms] by (simp only: weighted_limbs) (simp add: take_bit_int_eq_self)
  with fold_and_store [OF i, of "blit s 0"] show ?thesis
    by (simp add: sc_reduce_def blit_def le_val_encode(2))
qed

section \<open>Products\<close>

lemma powers_nth: "i < n \<Longrightarrow> powers (replicate n w) ! i = 2 ^ (w * i)"
  by (induction n arbitrary: i) (auto simp: nth_Cons power_add mult.commute split: nat.splits)

lemma sum_products_range: "sum_products (map (\<lambda>i. (f i, g i)) [m..<n]) = (\<Sum>i\<in>{m..<n}. f i * g i)"
  by (simp add: sum_products_def comp_def sum_set_upt_conv_sum_list_nat [symmetric])

lemma weighted_rows:
  assumes "length a = 12" "length b = 12"
  shows "weighted (powers (replicate 23 21)) (map (\<lambda>k. sum_products (row a b k)) [0..<23])
    = weighted (powers scalar_widths) a * weighted (powers scalar_widths) b"
proof -
  have P: "powers scalar_widths = powers (replicate 12 21)" by code_simp
  have "weighted (powers (replicate 23 21)) (map (\<lambda>k. sum_products (row a b k)) [0..<23])
    = (\<Sum>k<23. 2 ^ (21 * k) * sum_products (row a b k))"
    by (auto simp: weighted_sum powers_nth intro!: sum.cong)
  also have "\<dots> = (\<Sum>k<23. \<Sum>i\<in>{k - 11..<min 12 (k + 1)}. 2 ^ (21 * k) * (a ! i * b ! (k - i)))"
    by (simp only: row_def sum_products_range sum_distrib_left)
  also have "\<dots> = (\<Sum>(k, i)\<in>(SIGMA k:{..<23}. {k - 11..<min 12 (k + 1)}). 2 ^ (21 * k) * (a ! i * b ! (k - i)))"
    by (rule sum.Sigma) simp_all
  also have "\<dots> = (\<Sum>(i, j)\<in>{..<12} \<times> {..<12}. (2 ^ (21 * i) * a ! i) * (2 ^ (21 * j) * b ! j))"
    by (rule sum.reindex_bij_witness [of _ "\<lambda>(i, j). (i + j, i)" "\<lambda>(k, i). (i, k - i)"])
      (auto simp: power_add [symmetric] algebra_simps)
  also have "\<dots> = weighted (powers scalar_widths) a * weighted (powers scalar_widths) b"
    using assms by (simp add: P weighted_sum powers_nth sum_product sum.cartesian_product)
  finally show ?thesis .
qed

text \<open>A row of the product of two scalars has no overflow.\<close>

lemma row_result:
  assumes "length a = 32" "length b = 32" "k < 23"
  shows "dot 64 (row (load_scalar a) (load_scalar b) k) = Some (sum_products (row (load_scalar a) (load_scalar b) k))"
    and "\<bar>sum_products (row (load_scalar a) (load_scalar b) k)\<bar> \<le> 12 * 2 ^ 50"
proof -
  let ?r = "row (load_scalar a) (load_scalar b) k"
  have l: "length ?r = min 12 (k + 1) - (k - 11)" unfolding row_def length_map length_upt ..
  then have len: "length ?r \<le> 12" by linarith
  have nth: "map f [m..<n] ! j = f (m + j)" if "j < n - m" for f :: "nat \<Rightarrow> int \<times> int" and j m n
    using that by simp
  have "factors_within ?r (replicate (length ?r) (2 ^ 25, 2 ^ 25))"
    unfolding factors_within_def list_all2_conv_all_nth
  proof (intro conjI allI impI)
    fix j assume "j < length ?r"
    then have j: "j < min 12 (k + 1) - (k - 11)" using l by simp
    then have "k - 11 + j < 12" "k - (k - 11 + j) < 12" using assms(3) by linarith+
    moreover have "?r ! j = (load_scalar a ! (k - 11 + j), load_scalar b ! (k - (k - 11 + j)))"
      unfolding row_def by (rule nth [OF j])
    ultimately show "\<bar>fst (?r ! j)\<bar> \<le> fst (replicate (length ?r) (2 ^ 25 :: int, 2 ^ 25 :: int) ! j)"
      "\<bar>snd (?r ! j)\<bar> \<le> snd (replicate (length ?r) (2 ^ 25 :: int, 2 ^ 25 :: int) ! j)"
      using scalar_limb [OF assms(1), of "load_scalar a ! (k - 11 + j)"]
        scalar_limb [OF assms(2), of "load_scalar b ! (k - (k - 11 + j))"] \<open>j < length ?r\<close> by auto
  qed simp
  moreover have "sum_products (replicate n (2 ^ 25, 2 ^ 25)) = int n * 2 ^ 50" for n
    by (induction n) (simp_all add: algebra_simps)
  moreover have "int (length ?r) * 2 ^ 50 \<le> 12 * 2 ^ 50" using len by simp
  ultimately show "dot 64 ?r = Some (sum_products ?r)" "\<bar>sum_products ?r\<bar> \<le> 12 * 2 ^ 50"
    using dot_within [of ?r "replicate (length ?r) (2 ^ 25, 2 ^ 25)" 64] by auto
qed

lemma powers_24: "powers (replicate 24 21) = powers (replicate 23 21) @ [2 ^ 483]"
  by code_simp

lemma powers_23: "powers (replicate 23 21) = powers scalar_widths @ drop 12 (powers (replicate 23 21))"
  by code_simp

lemma sc_mul_result:
  assumes "length a = 32" "length b = 32"
  shows "sc_mul a b = Some (encode_scalar (le_val a * le_val b))"
proof -
  let ?h = "map (\<lambda>k. sum_products (row (load_scalar a) (load_scalar b) k)) [0..<23]"
  have "those (map (\<lambda>k. dot 64 (row (load_scalar a) (load_scalar b) k)) [0..<23]) = Some ?h"
    using row_result(1) [OF assms] by (intro those_map) auto
  moreover have "\<bar>x\<bar> \<le> 2 ^ 54" if "x \<in> set ?h" for x
    using that row_result(2) [OF assms] by fastforce
  moreover have "weighted (powers (replicate 24 21)) (?h @ [0]) = le_val a * le_val b"
    unfolding powers_24 using weighted_rows [of "load_scalar a" "load_scalar b"] scalar_limbs(2) assms
    by (simp add: weighted_append del: upt_rec_numeral)
  ultimately show ?thesis using product_and_store [of ?h] by (simp add: sc_mul_def Let_def del: upt_rec_numeral)
qed

lemma weighted_pad:
  assumes "length c = 12"
  shows "weighted (powers (replicate 23 21)) (c @ replicate 11 0) = weighted (powers scalar_widths) c"
proof -
  have "weighted W (replicate n 0) = 0" for W and n :: nat
    by (induction n arbitrary: W) (simp, case_tac W, simp_all)
  then show ?thesis using assms by (subst powers_23) (simp add: weighted_append)
qed

text \<open>The two combined operations: each limb is bounded and the weighted sum is the combined number.\<close>

lemma row_bounds:
  assumes "length a = 32" "length b = 32" "k < 23"
  shows "- (12 * 2 ^ 50) \<le> sum_products (row (load_scalar a) (load_scalar b) k)"
    "sum_products (row (load_scalar a) (load_scalar b) k) \<le> 12 * 2 ^ 50"
  using row_result(2) [OF assms] by linarith+

lemma nth_scalar_bounds:
  "length c = 32 \<Longrightarrow> k < 12 \<Longrightarrow> 0 \<le> load_scalar c ! k" "length c = 32 \<Longrightarrow> k < 12 \<Longrightarrow> load_scalar c ! k \<le> 2 ^ 25"
  using scalar_limb [of c "load_scalar c ! k"] by simp_all

lemma sc_muladd_result:
  assumes "length a = 32" "length b = 32" "length c = 32"
  shows "sc_muladd a b c = Some (encode_scalar (le_val c + le_val a * le_val b))"
proof -
  let ?p = "\<lambda>k. sum_products (row (load_scalar a) (load_scalar b) k)"
  let ?s = "map (\<lambda>k. load_scalar c ! k + ?p k) [0..<12]" and ?t = "map ?p [12..<23]"
  note r = row_bounds [OF assms(1,2)] and c = nth_scalar_bounds [OF assms(3)]
  have s: "those (map (\<lambda>k. do { p \<leftarrow> dot 64 (row (load_scalar a) (load_scalar b) k); checked 64 (load_scalar c ! k + p) }) [0..<12]) = Some ?s"
  proof (rule those_map)
    fix k assume "k \<in> set [0..<12]"
    then have "k < 12" by simp
    with r [of k] c [of k] row_result(1) [OF assms(1,2), of k]
    show "do { p \<leftarrow> dot 64 (row (load_scalar a) (load_scalar b) k); checked 64 (load_scalar c ! k + p) } = Some (load_scalar c ! k + ?p k)"
      by (auto simp: fits_def)
  qed
  have t: "those (map (\<lambda>k. dot 64 (row (load_scalar a) (load_scalar b) k)) [12..<23]) = Some ?t"
    using row_result(1) [OF assms(1,2)] by (intro those_map) auto
  have "\<bar>x\<bar> \<le> 2 ^ 54" if x: "x \<in> set ?s" for x
  proof -
    from x obtain k where k: "k < 12" "x = load_scalar c ! k + ?p k" by auto
    then show ?thesis using r [of k] c [OF k(1)] by simp
  qed
  moreover have "\<bar>x\<bar> \<le> 2 ^ 54" if x: "x \<in> set ?t" for x
  proof -
    from x obtain k where k: "k \<in> {12..<23}" "x = ?p k" unfolding set_map set_upt by blast
    then show ?thesis using r [of k] by simp
  qed
  ultimately have b: "\<bar>x\<bar> \<le> 2 ^ 54" if "x \<in> set (?s @ ?t)" for x using that unfolding set_append by blast
  have "?s @ ?t = map2 (+) (load_scalar c @ replicate 11 0) (map ?p [0..<23])"
    by (intro nth_equalityI) (auto simp: nth_append simp del: upt_rec_numeral)
  then have "weighted (powers (replicate 24 21)) ((?s @ ?t) @ [0]) = le_val c + le_val a * le_val b"
    unfolding powers_24 using weighted_rows [of "load_scalar a" "load_scalar b"] scalar_limbs(2) assms
    by (simp add: weighted_append weighted_map2 weighted_pad del: upt_rec_numeral append_assoc)
  moreover have "length (?s @ ?t) = 23" by simp
  ultimately show ?thesis using product_and_store [of "?s @ ?t", OF _ b]
    by (simp only: sc_muladd_def Let_def s t Option.bind_lunit append_assoc)
qed

lemma sc_mulsub_result:
  assumes "length a = 32" "length b = 32" "length c = 32"
  shows "sc_mulsub a b c = Some (encode_scalar (le_val c - le_val a * le_val b))"
proof -
  let ?p = "\<lambda>k. sum_products (row (load_scalar a) (load_scalar b) k)"
  let ?s = "map (\<lambda>k. load_scalar c ! k - ?p k) [0..<12]" and ?t = "map (\<lambda>k. - ?p k) [12..<22]"
  let ?u = "- (load_scalar a ! 11) * load_scalar b ! 11"
  note r = row_bounds [OF assms(1,2)] and c = nth_scalar_bounds [OF assms(3)]
  have "row (load_scalar a) (load_scalar b) 22 = [(load_scalar a ! 11, load_scalar b ! 11)]" by (simp add: row_def)
  then have u: "?u = - ?p 22" by simp
  have s: "those (map (\<lambda>k. do { p \<leftarrow> dot 64 (row (load_scalar a) (load_scalar b) k); checked 64 (load_scalar c ! k - p) }) [0..<12]) = Some ?s"
  proof (rule those_map)
    fix k assume "k \<in> set [0..<12]"
    then have "k < 12" by simp
    with r [of k] c [of k] row_result(1) [OF assms(1,2), of k]
    show "do { p \<leftarrow> dot 64 (row (load_scalar a) (load_scalar b) k); checked 64 (load_scalar c ! k - p) } = Some (load_scalar c ! k - ?p k)"
      by (auto simp: fits_def)
  qed
  have t: "those (map (\<lambda>k. do { p \<leftarrow> dot 64 (row (load_scalar a) (load_scalar b) k); checked 64 (- p) }) [12..<22]) = Some ?t"
  proof (rule those_map)
    fix k assume "k \<in> set [12..<22]"
    then have "k < 23" by auto
    with r [of k] row_result(1) [OF assms(1,2), of k]
    show "do { p \<leftarrow> dot 64 (row (load_scalar a) (load_scalar b) k); checked 64 (- p) } = Some (- ?p k)"
      by (auto simp: fits_def)
  qed
  have "\<bar>x\<bar> \<le> 2 ^ 54" if x: "x \<in> set ?s" for x
  proof -
    from x obtain k where k: "k < 12" "x = load_scalar c ! k - ?p k" by auto
    then show ?thesis using r [of k] c [OF k(1)] by simp
  qed
  moreover have "\<bar>x\<bar> \<le> 2 ^ 54" if x: "x \<in> set ?t" for x
  proof -
    from x obtain k where k: "k \<in> {12..<22}" "x = - ?p k" unfolding set_map set_upt by blast
    then show ?thesis using r [of k] by simp
  qed
  moreover have "\<bar>?u\<bar> \<le> 2 ^ 54" unfolding u using r [of 22] by simp
  ultimately have b: "\<bar>x\<bar> \<le> 2 ^ 54" if "x \<in> set (?s @ ?t @ [?u])" for x
    using that unfolding set_append by auto
  have f: "fits 64 (- (load_scalar a ! 11))" "fits 64 ?u"
    using nth_scalar_bounds [OF assms(1), of 11] r [of 22] u by (auto simp: fits_def)
  have "?s @ ?t @ [?u] = map2 (-) (load_scalar c @ replicate 11 0) (map ?p [0..<23])"
  proof (rule nth_equalityI)
    fix i assume i: "i < length (?s @ ?t @ [?u])"
    then consider "i < 12" | "12 \<le> i" "i < 22" | "i = 22" by fastforce
    then show "(?s @ ?t @ [?u]) ! i = map2 (-) (load_scalar c @ replicate 11 0) (map ?p [0..<23]) ! i"
      unfolding u by cases (auto simp add: nth_append simp del: upt_rec_numeral)
  qed simp
  then have "weighted (powers (replicate 24 21)) ((?s @ ?t @ [?u]) @ [0]) = le_val c - le_val a * le_val b"
    unfolding powers_24 using weighted_rows [of "load_scalar a" "load_scalar b"] scalar_limbs(2) assms
    by (simp add: weighted_append weighted_map2 weighted_pad del: upt_rec_numeral append_assoc)
  moreover have "length (?s @ ?t @ [?u]) = 23" by simp
  ultimately show ?thesis using product_and_store [of "?s @ ?t @ [?u]", OF _ b]
    by (simp only: sc_mulsub_def Let_def s t f [THEN checked_fits] Option.bind_lunit append_assoc append.simps)
qed

section \<open>Tests of a scalar\<close>

lemma sgn_step:
  fixes d D T w :: int
  assumes "\<bar>d\<bar> < w" "sgn D = sgn T"
  shows "sgn (d + w * D) = sgn (sgn d + 2 * T)"
proof -
  define m where "m = w * D"
  have "d + m > 0 \<and> sgn d + 2 * T > 0" if "D > 0"
  proof -
    have "w \<le> m" using mult_left_mono [of 1 D w] that assms(1) by (simp add: m_def)
    moreover have "1 \<le> T" using that assms(2) by (auto simp: sgn_if split: if_splits)
    ultimately show ?thesis using assms(1) by (auto simp: sgn_if)
  qed
  moreover have "d + m < 0 \<and> sgn d + 2 * T < 0" if "D < 0"
  proof -
    have "m \<le> - w" using mult_left_mono [of D "- 1" w] that assms(1) by (simp add: m_def)
    moreover have "T \<le> - 1" using that assms(2) by (auto simp: sgn_if split: if_splits)
    ultimately show ?thesis using assms(1) by (auto simp: sgn_if)
  qed
  moreover have "T = 0" if "D = 0" using that assms(2) by (simp add: sgn_0_0)
  ultimately show ?thesis unfolding m_def by (cases "D = 0"; cases "D > 0") auto
qed

lemma compare_signs:
  assumes "\<forall>x\<in>set d. \<bar>x\<bar> < 2 ^ w"
  shows "sgn (weighted (powers (replicate (length d) w)) d) = sgn (weighted (powers (replicate (length d) 1)) (map sgn d))"
  using assms
proof (induction d)
  case (Cons x d)
  then show ?case using sgn_step [of x "2 ^ w"] by (simp add: weighted_scale)
qed simp

lemma signum_sgn: "\<bar>a\<bar> < 2 ^ 63 \<Longrightarrow> signum a = Some (sgn a)"
proof -
  assume a: "\<bar>a\<bar> < 2 ^ 63"
  have d: "x div 2 ^ 63 = 0" if "0 \<le> x" "x < 2 ^ 63" for x :: int using that by (rule div_pos_pos_trivial)
  have e: "x div 2 ^ 63 = - 1" if "x < 0" "- (2 ^ 63) \<le> x" for x :: int
    using that by (simp add: div_eq_minus1)
  show ?thesis
    using a d [of a] d [of "- a"] e [of a] e [of "- a"] by (auto simp: signum_def sgn_if fits_def checked_def)
qed

lemma dot_signs:
  assumes "length e = 8" "\<forall>x\<in>set e. \<bar>x\<bar> \<le> 1"
  shows "dot 64 (zip e [1, 2, 4, 8, 16, 32, 64, 128]) = Some (weighted (powers (replicate 8 1)) e)
    \<and> \<bar>weighted (powers (replicate 8 1)) e\<bar> \<le> 255"
proof -
  obtain e0 e1 e2 e3 e4 e5 e6 e7 where e: "e = [e0, e1, e2, e3, e4, e5, e6, e7]" using list_8_ex [OF assms(1)] by blast
  let ?p = "zip e [1, 2, 4, 8, 16, 32, 64, 128]" and ?b = "zip (replicate 8 1) [1, 2, 4, 8, 16, 32, 64, 128]"
  have "powers (replicate 8 1) = [1, 2, 4, 8, 16, 32, 64, 128]" by code_simp
  then have "sum_products ?p = weighted (powers (replicate 8 1)) e" by (simp add: e)
  moreover have "factors_within ?p ?b" using assms(2) by (simp add: e factors_within_def numeral_eq_Suc)
  moreover have "sum_products ?b = 255" by code_simp
  ultimately show ?thesis using dot_within [of ?p ?b 64] by simp
qed

lemma sc_check_result:
  assumes "length s = 32"
  shows "sc_check s = Some (if le_val s < group_order then 0 else - 1)"
proof -
  let ?W = "powers (replicate 8 32)" and ?w = "limbs (replicate 8 32) (le_val s)"
  let ?d = "map2 (-) check_words ?w"
  have "le_val s < 2 ^ 256" using le_val_less [of s] assms by simp
  then have v: "weighted ?W ?w = le_val s"
    unfolding weighted_limbs by (simp add: sum_list_replicate take_bit_int_eq_self)
  have l: "weighted ?W check_words = group_order - 1" by code_simp
  have len: "length check_words = 8" by (simp add: check_words_def)
  have w: "inside ?w (replicate 8 (0, 2 ^ 32 - 1))" using inside_limbs [of "replicate 8 32" "le_val s"] by simp
  have "\<forall>x\<in>set check_words. 0 \<le> x \<and> x < 2 ^ 32" by code_simp
  then have d: "\<forall>x\<in>set ?d. \<bar>x\<bar> < 2 ^ 32"
    using w by (fastforce simp: inside_replicate in_ivl_def abs_less_iff dest!: in_map2)
  have nth: "?d ! i = check_words ! i - sint (load_4 (drop (4 * i) s))" if "i < 8" for i
    using that assms len load_top [of "4 * i" s 0] by (simp add: nth_limbs)
  have "those (map (\<lambda>i. do { x \<leftarrow> checked 64 (check_words ! i - sint (load_4 (drop (4 * i) s))); signum x }) [0..<8])
    = Some (map (\<lambda>i. sgn (?d ! i)) [0..<8])"
  proof (rule those_map)
    fix i assume "i \<in> set [0..<8]"
    then have i: "i < 8" by simp
    with d len have "\<bar>?d ! i\<bar> < 2 ^ 32" by (metis length_limbs length_map length_replicate length_zip min.idem nth_mem)
    then show "do { x \<leftarrow> checked 64 (check_words ! i - sint (load_4 (drop (4 * i) s))); signum x } = Some (sgn (?d ! i))"
      unfolding nth [OF i, symmetric] by (simp add: checked_fits fits_def signum_sgn abs_less_iff)
  qed
  moreover have "map (\<lambda>i. sgn (?d ! i)) [0..<8] = map sgn ?d"
    using len by (intro nth_equalityI) simp_all
  ultimately have t: "those (map (\<lambda>i. do { x \<leftarrow> checked 64 (check_words ! i - sint (load_4 (drop (4 * i) s))); signum x }) [0..<8]) = Some (map sgn ?d)"
    by simp
  let ?T = "weighted (powers (replicate 8 1)) (map sgn ?d)"
  have D: "weighted ?W ?d = group_order - 1 - le_val s"
    using weighted_map2(2) [of check_words ?w ?W] len v l by simp
  have sgn: "sgn (group_order - 1 - le_val s) = sgn ?T"
    using compare_signs [OF d] D len by simp
  have dot: "dot 64 (zip (map sgn ?d) [1, 2, 4, 8, 16, 32, 64, 128]) = Some ?T \<and> \<bar>?T\<bar> \<le> 255"
    using len by (intro dot_signs) (auto simp: abs_sgn_eq)
  then have "?T div 2 ^ 8 = (if ?T < 0 then - 1 else 0)"
    by (auto simp: div_eq_minus1 intro!: div_pos_pos_trivial)
  moreover have "?T < 0 \<longleftrightarrow> \<not> le_val s < group_order" using sgn by (auto simp: sgn_if split: if_splits)
  ultimately show ?thesis using dot t unfolding sc_check_def by (simp del: upt_rec_numeral)
qed

lemma sc_isnonzero_result:
  assumes "length s = 32"
  shows "sc_isnonzero s = (if le_val s = 0 then 0 else 1)"
proof -
  have z: "le_val bs = 0 \<longleftrightarrow> (\<forall>b\<in>set bs. b = 0)" for bs
    by (induction bs) (auto simp: add_nonneg_eq_0_iff uint_0_iff)
  have f: "foldl (OR) x bs = 0 \<longleftrightarrow> x = 0 \<and> (\<forall>b\<in>set bs. b = 0)" for x :: byte and bs
    by (induction bs arbitrary: x) (auto simp: or_eq_0_iff)
  have "s ! 0 # map ((!) s) [1..<32] = s"
    using assms by (intro nth_equalityI) (auto simp: nth_Cons split: nat.splits)
  then have set: "set s = insert (s ! 0) (set (map ((!) s) [1..<32]))" by (metis list.simps(15))
  let ?o = "foldl (OR) (s ! 0) (map ((!) s) [1..<32])"
  have o: "?o = 0 \<longleftrightarrow> le_val s = 0" unfolding z f set by simp
  have d: "(x - 1) div 2 ^ 8 = (if x = 0 then - 1 else 0)" if "0 \<le> x" "x < 256" for x :: int
    using that by (auto simp: div_eq_minus1 intro!: div_pos_pos_trivial)
  have "uint ?o < 256" using uint_lt2p [of ?o] by simp
  then have "(uint ?o - 1) div 2 ^ 8 = (if ?o = 0 then - 1 else 0)" by (simp only: d uint_ge_0 uint_0_iff)
  then show ?thesis unfolding sc_isnonzero_def using o by simp
qed

section \<open>Properties\<close>

text \<open>C3: the scalar functions are arithmetic modulo the group order.  For all inputs of 32 bytes, reduced
  or not, reduction, sum, difference, product, \<open>c + ab\<close> and \<open>c - ab\<close> run without signed overflow and
  return the canonical encoding of the residue: 32 bytes whose number is the result modulo the order.\<close>

theorem scalar_functions_compute_residues:
  assumes "length a = 32" "length b = 32" "length c = 32"
  shows "sc_reduce32 a = Some (encode_scalar (le_val a))
    \<and> sc_reduce32copy a = Some (encode_scalar (le_val a))
    \<and> sc_add a b = Some (encode_scalar (le_val a + le_val b))
    \<and> sc_sub a b = Some (encode_scalar (le_val a - le_val b))
    \<and> sc_mul a b = Some (encode_scalar (le_val a * le_val b))
    \<and> sc_muladd a b c = Some (encode_scalar (le_val c + le_val a * le_val b))
    \<and> sc_mulsub a b c = Some (encode_scalar (le_val c - le_val a * le_val b))
    \<and> length (encode_scalar x) = 32 \<and> le_val (encode_scalar x) = x mod group_order"
  using assms
  by (simp add: sc_reduce32_result sc_reduce32copy_def sc_reduce32_def [symmetric] sc_add_result sc_sub_result
      sc_mul_result sc_muladd_result sc_mulsub_result le_val_encode)

theorem scalar_functions_compute_residues_witness:
  "sc_mulsub (replicate 32 255) (replicate 32 7) (replicate 32 1)
     = Some (encode_scalar (le_val (replicate 32 1) - le_val (replicate 32 255) * le_val (replicate 32 7)))
   \<and> sc_muladd (replicate 32 255) (replicate 32 7) (replicate 32 1)
     = Some (encode_scalar (le_val (replicate 32 1) + le_val (replicate 32 255) * le_val (replicate 32 7)))"
  using scalar_functions_compute_residues [of "replicate 32 255" "replicate 32 7" "replicate 32 1"] by simp

text \<open>\<open>sc_reduce\<close> reduces a number of 64 bytes in place: no overflow, the first 32 bytes become the
  canonical encoding of the residue and the other 32 stay as they are.\<close>

theorem sc_reduce_is_residue:
  assumes "length s = 64"
  shows "\<exists>t. sc_reduce s = Some (t @ drop 32 s) \<and> length t = 32 \<and> le_val t = le_val s mod group_order"
  using sc_reduce_result [OF assms] le_val_encode by blast

theorem sc_reduce_is_residue_witness:
  "\<exists>t. sc_reduce (replicate 64 255) = Some (t @ replicate 32 255) \<and> length t = 32
     \<and> le_val t = le_val (replicate 64 255) mod group_order"
  using sc_reduce_is_residue [of "replicate 64 255"] by simp

text \<open>C35: \<open>sc_check\<close> returns 0 exactly for the numbers below the group order and -1 for the others, so it
  accepts exactly the scalars that reduction leaves unchanged; \<open>sc_isnonzero\<close> returns 0 exactly for the
  number 0.\<close>

theorem sc_check_accepts_canonical:
  assumes "length s = 32"
  shows "sc_check s = Some (if le_val s < group_order then 0 else - 1)
    \<and> (sc_check s = Some 0 \<longleftrightarrow> sc_reduce32 s = Some s)
    \<and> sc_isnonzero s = (if le_val s = 0 then 0 else 1)"
proof (intro conjI)
  have "encode_scalar (le_val s) = s \<longleftrightarrow> le_val s mod group_order = le_val s"
    using le_val_inject [of "encode_scalar (le_val s)" s] assms le_val_encode [of "le_val s"] by metis
  moreover have "le_val s mod group_order = le_val s \<longleftrightarrow> le_val s < group_order"
    using pos_mod_bound [of group_order "le_val s"] by (auto simp: group_order_def)
  ultimately show "sc_check s = Some 0 \<longleftrightarrow> sc_reduce32 s = Some s"
    using assms by (simp add: sc_check_result sc_reduce32_result)
qed (use assms in \<open>simp_all add: sc_check_result sc_isnonzero_result\<close>)

theorem sc_check_accepts_canonical_witness:
  "sc_check (replicate 32 15) = Some 0 \<and> sc_check (replicate 32 16) = Some (- 1) \<and> sc_isnonzero sc_0 = 0"
proof -
  have "le_val (replicate 32 15) < group_order" "\<not> le_val (replicate 32 16) < group_order" "le_val sc_0 = 0" by code_simp+
  then show ?thesis
    using sc_check_accepts_canonical [of "replicate 32 15"] sc_check_accepts_canonical [of "replicate 32 16"]
      sc_check_accepts_canonical [of sc_0] by (simp add: sc_0_def)
qed

end
