(* ===== verification/Field.thy ===== *)
theory Field
  imports Scalar
begin

text \<open>
  The arithmetic modulo \<open>p = 2 ^ 255 - 19\<close> of \<^verbatim>\<open>crypto/crypto-ops.c\<close>: a field element is an array of ten
  signed limbs of alternately 26 and 25 bits, not reduced and not unique.  Every operation of the source is
  checked for overflow of \<^verbatim>\<open>int32_t\<close> and \<^verbatim>\<open>int64_t\<close>.  The theorems give for each function the bounds
  that the comments of the source promise and the value modulo \<open>p\<close>; inversion and the square root
  helper are powers, and the conversion to bytes is canonical.
\<close>

unbundle bit_operations_syntax

section \<open>The code\<close>

type_synonym fe = "int list"

definition fe_0 :: fe where
  "fe_0 = [0, 0, 0, 0, 0, 0, 0, 0, 0, 0]"

definition fe_1 :: fe where
  "fe_1 = [1, 0, 0, 0, 0, 0, 0, 0, 0, 0]"

definition fe_add :: "fe \<Rightarrow> fe \<Rightarrow> fe option" where
  "fe_add f g = those (map (\<lambda>i. checked 32 (f ! i + g ! i)) [0..<10])"

definition fe_sub :: "fe \<Rightarrow> fe \<Rightarrow> fe option" where
  "fe_sub f g = those (map (\<lambda>i. checked 32 (f ! i - g ! i)) [0..<10])"

definition fe_neg :: "fe \<Rightarrow> fe option" where
  "fe_neg f = those (map (\<lambda>i. checked 32 (- (f ! i))) [0..<10])"

definition fe_copy :: "fe \<Rightarrow> fe" where
  "fe_copy f = map ((!) f) [0..<10]"

text \<open>The assertion of \<open>fe_cmov\<close> holds for the conditions 0 and 1; a failed assertion is \<open>None\<close>.\<close>

definition fe_cmov :: "fe \<Rightarrow> fe \<Rightarrow> u32 \<Rightarrow> fe option" where
  "fe_cmov f g b =
     (if ((b - 1) AND NOT b) OR ((b - 2) AND NOT (b - 1)) = - 1 then
        Some (map (\<lambda>i. let x = (word_of_int (f ! i) :: u32) XOR word_of_int (g ! i)
                       in sint (word_of_int (f ! i) XOR (x AND - b))) [0..<10])
      else None)"

text \<open>The products of \<open>fe_mul\<close> and their ten sums.\<close>

definition fe_mul_limbs :: "fe \<Rightarrow> fe \<Rightarrow> int list option" where
  "fe_mul_limbs f g =
     do { let f0 = f ! 0; let f1 = f ! 1; let f2 = f ! 2; let f3 = f ! 3; let f4 = f ! 4; let f5 = f ! 5; let f6 = f ! 6; let f7 = f ! 7; let f8 = f ! 8; let f9 = f ! 9;
          let g0 = g ! 0; let g1 = g ! 1; let g2 = g ! 2; let g3 = g ! 3; let g4 = g ! 4; let g5 = g ! 5; let g6 = g ! 6; let g7 = g ! 7; let g8 = g ! 8; let g9 = g ! 9;
          g1_19 \<leftarrow> checked 32 (19 * g1);
          g2_19 \<leftarrow> checked 32 (19 * g2);
          g3_19 \<leftarrow> checked 32 (19 * g3);
          g4_19 \<leftarrow> checked 32 (19 * g4);
          g5_19 \<leftarrow> checked 32 (19 * g5);
          g6_19 \<leftarrow> checked 32 (19 * g6);
          g7_19 \<leftarrow> checked 32 (19 * g7);
          g8_19 \<leftarrow> checked 32 (19 * g8);
          g9_19 \<leftarrow> checked 32 (19 * g9);
          f1_2 \<leftarrow> checked 32 (2 * f1);
          f3_2 \<leftarrow> checked 32 (2 * f3);
          f5_2 \<leftarrow> checked 32 (2 * f5);
          f7_2 \<leftarrow> checked 32 (2 * f7);
          f9_2 \<leftarrow> checked 32 (2 * f9);
          h0 \<leftarrow> dot 64 [(f0, g0), (f1_2, g9_19), (f2, g8_19), (f3_2, g7_19), (f4, g6_19), (f5_2, g5_19), (f6, g4_19), (f7_2, g3_19), (f8, g2_19), (f9_2, g1_19)];
          h1 \<leftarrow> dot 64 [(f0, g1), (f1, g0), (f2, g9_19), (f3, g8_19), (f4, g7_19), (f5, g6_19), (f6, g5_19), (f7, g4_19), (f8, g3_19), (f9, g2_19)];
          h2 \<leftarrow> dot 64 [(f0, g2), (f1_2, g1), (f2, g0), (f3_2, g9_19), (f4, g8_19), (f5_2, g7_19), (f6, g6_19), (f7_2, g5_19), (f8, g4_19), (f9_2, g3_19)];
          h3 \<leftarrow> dot 64 [(f0, g3), (f1, g2), (f2, g1), (f3, g0), (f4, g9_19), (f5, g8_19), (f6, g7_19), (f7, g6_19), (f8, g5_19), (f9, g4_19)];
          h4 \<leftarrow> dot 64 [(f0, g4), (f1_2, g3), (f2, g2), (f3_2, g1), (f4, g0), (f5_2, g9_19), (f6, g8_19), (f7_2, g7_19), (f8, g6_19), (f9_2, g5_19)];
          h5 \<leftarrow> dot 64 [(f0, g5), (f1, g4), (f2, g3), (f3, g2), (f4, g1), (f5, g0), (f6, g9_19), (f7, g8_19), (f8, g7_19), (f9, g6_19)];
          h6 \<leftarrow> dot 64 [(f0, g6), (f1_2, g5), (f2, g4), (f3_2, g3), (f4, g2), (f5_2, g1), (f6, g0), (f7_2, g9_19), (f8, g8_19), (f9_2, g7_19)];
          h7 \<leftarrow> dot 64 [(f0, g7), (f1, g6), (f2, g5), (f3, g4), (f4, g3), (f5, g2), (f6, g1), (f7, g0), (f8, g9_19), (f9, g8_19)];
          h8 \<leftarrow> dot 64 [(f0, g8), (f1_2, g7), (f2, g6), (f3_2, g5), (f4, g4), (f5_2, g3), (f6, g2), (f7_2, g1), (f8, g0), (f9_2, g9_19)];
          h9 \<leftarrow> dot 64 [(f0, g9), (f1, g8), (f2, g7), (f3, g6), (f4, g5), (f5, g4), (f6, g3), (f7, g2), (f8, g1), (f9, g0)];
          Some [h0, h1, h2, h3, h4, h5, h6, h7, h8, h9] }"

text \<open>Those of \<open>fe_sq\<close>, which \<open>fe_sq2\<close> repeats.\<close>

definition fe_sq_limbs :: "fe \<Rightarrow> int list option" where
  "fe_sq_limbs f =
     do { let f0 = f ! 0; let f1 = f ! 1; let f2 = f ! 2; let f3 = f ! 3; let f4 = f ! 4; let f5 = f ! 5; let f6 = f ! 6; let f7 = f ! 7; let f8 = f ! 8; let f9 = f ! 9;
          f0_2 \<leftarrow> checked 32 (2 * f0);
          f1_2 \<leftarrow> checked 32 (2 * f1);
          f2_2 \<leftarrow> checked 32 (2 * f2);
          f3_2 \<leftarrow> checked 32 (2 * f3);
          f4_2 \<leftarrow> checked 32 (2 * f4);
          f5_2 \<leftarrow> checked 32 (2 * f5);
          f6_2 \<leftarrow> checked 32 (2 * f6);
          f7_2 \<leftarrow> checked 32 (2 * f7);
          f5_38 \<leftarrow> checked 32 (38 * f5);
          f6_19 \<leftarrow> checked 32 (19 * f6);
          f7_38 \<leftarrow> checked 32 (38 * f7);
          f8_19 \<leftarrow> checked 32 (19 * f8);
          f9_38 \<leftarrow> checked 32 (38 * f9);
          h0 \<leftarrow> dot 64 [(f0, f0), (f1_2, f9_38), (f2_2, f8_19), (f3_2, f7_38), (f4_2, f6_19), (f5, f5_38)];
          h1 \<leftarrow> dot 64 [(f0_2, f1), (f2, f9_38), (f3_2, f8_19), (f4, f7_38), (f5_2, f6_19)];
          h2 \<leftarrow> dot 64 [(f0_2, f2), (f1_2, f1), (f3_2, f9_38), (f4_2, f8_19), (f5_2, f7_38), (f6, f6_19)];
          h3 \<leftarrow> dot 64 [(f0_2, f3), (f1_2, f2), (f4, f9_38), (f5_2, f8_19), (f6, f7_38)];
          h4 \<leftarrow> dot 64 [(f0_2, f4), (f1_2, f3_2), (f2, f2), (f5_2, f9_38), (f6_2, f8_19), (f7, f7_38)];
          h5 \<leftarrow> dot 64 [(f0_2, f5), (f1_2, f4), (f2_2, f3), (f6, f9_38), (f7_2, f8_19)];
          h6 \<leftarrow> dot 64 [(f0_2, f6), (f1_2, f5_2), (f2_2, f4), (f3_2, f3), (f7_2, f9_38), (f8, f8_19)];
          h7 \<leftarrow> dot 64 [(f0_2, f7), (f1_2, f6), (f2_2, f5), (f3_2, f4), (f8, f9_38)];
          h8 \<leftarrow> dot 64 [(f0_2, f8), (f1_2, f7_2), (f2_2, f6), (f3_2, f5_2), (f4, f4), (f9, f9_38)];
          h9 \<leftarrow> dot 64 [(f0_2, f9), (f1_2, f8), (f2_2, f7), (f3_2, f6), (f4_2, f5)];
          Some [h0, h1, h2, h3, h4, h5, h6, h7, h8, h9] }"

definition fe_carries :: "limb_op list" where
  "fe_carries =
     [Round 0 26, Round 4 26, Round 1 25, Round 5 25, Round 2 26, Round 6 26,
      Round 3 25, Round 7 25, Round 4 26, Round 8 26, Wrap 9 25 19, Round 0 26]"

definition fe_mul :: "fe \<Rightarrow> fe \<Rightarrow> fe option" where
  "fe_mul f g =
     do { h \<leftarrow> fe_mul_limbs f g; h \<leftarrow> exec 64 fe_carries h; Some (map (narrow 32) h) }"

definition fe_sq :: "fe \<Rightarrow> fe option" where
  "fe_sq f =
     do { h \<leftarrow> fe_sq_limbs f; h \<leftarrow> exec 64 fe_carries h; Some (map (narrow 32) h) }"

definition fe_sq2 :: "fe \<Rightarrow> fe option" where
  "fe_sq2 f =
     do { h \<leftarrow> fe_sq_limbs f;
          h \<leftarrow> those (map (\<lambda>x. checked 64 (x + x)) h);
          h \<leftarrow> exec 64 fe_carries h;
          Some (map (narrow 32) h) }"

section \<open>Bounds and values\<close>

definition p25519 :: int where
  "p25519 = 2 ^ 255 - 19"

definition fe_widths :: "nat list" where
  "fe_widths = [26, 25, 26, 25, 26, 25, 26, 25, 26, 25]"

definition fe_val :: "fe \<Rightarrow> int" where
  "fe_val f = weighted (powers fe_widths) f"

text \<open>The bounds of the comments in the source: \<open>fe_within 1\<close> is \<open>1.1 * 2 ^ 25, 1.1 * 2 ^ 24, \<dots>\<close>,
  and \<open>fe_within 3\<close> is \<open>1.65 * 2 ^ 26, 1.65 * 2 ^ 25, \<dots>\<close>.\<close>

definition fe_within :: "int \<Rightarrow> fe \<Rightarrow> bool" where
  "fe_within k f \<longleftrightarrow> inside f (map (\<lambda>w. if w = 26 then (- (k * 36909875), k * 36909875)
     else (- (k * 18454937), k * 18454937)) fe_widths)"

definition product_bounds :: "ivl list" where
  "product_bounds = replicate 10 (- (2 ^ 62 + 2 ^ 61), 2 ^ 62 + 2 ^ 61)"

definition snug_bounds :: "ivl list" where
  "snug_bounds = map (\<lambda>w. if w = 26 then (- 33889976, 33889976) else (- 16944988, 16944988)) fe_widths"

lemma bounded_fe_carries: "bounded 64 fe_carries product_bounds snug_bounds"
  by code_simp

lemma weigh_fe_carries: "weigh p25519 fe_carries (powers fe_widths) = Some (powers fe_widths)"
  by code_simp

lemma dot_uniform:
  assumes "\<forall>x\<in>set ps. \<bar>fst x\<bar> \<le> A \<and> \<bar>snd x\<bar> \<le> B" "int (length ps) * (A * B) < 2 ^ (n - 1)"
  shows "dot n ps = Some (sum_products ps) \<and> \<bar>sum_products ps\<bar> \<le> int (length ps) * (A * B)"
proof -
  have "sum_products (replicate k (A, B)) = int k * (A * B)" for k
    by (induction k) (simp_all add: algebra_simps)
  moreover have "factors_within ps (replicate (length ps) (A, B))"
    using assms(1) by (auto simp: factors_within_def list_all2_conv_all_nth)
  ultimately show ?thesis using dot_within [of ps "replicate (length ps) (A, B)" n] assms(2) by simp
qed

lemma list_10_ex: "length f = 10 \<Longrightarrow> \<exists>f0 f1 f2 f3 f4 f5 f6 f7 f8 f9. f = [f0, f1, f2, f3, f4, f5, f6, f7, f8, f9]"
  by (auto simp: length_Suc_conv eval_nat_numeral)

lemma length_within: "fe_within k f \<Longrightarrow> length f = 10"
  by (simp add: fe_within_def inside_def fe_widths_def)

lemma fe_within_10:
  "fe_within k [f0, f1, f2, f3, f4, f5, f6, f7, f8, f9] \<longleftrightarrow>
   \<bar>f0\<bar> \<le> k * 36909875 \<and> \<bar>f1\<bar> \<le> k * 18454937 \<and> \<bar>f2\<bar> \<le> k * 36909875 \<and> \<bar>f3\<bar> \<le> k * 18454937 \<and>
   \<bar>f4\<bar> \<le> k * 36909875 \<and> \<bar>f5\<bar> \<le> k * 18454937 \<and> \<bar>f6\<bar> \<le> k * 36909875 \<and> \<bar>f7\<bar> \<le> k * 18454937 \<and>
   \<bar>f8\<bar> \<le> k * 36909875 \<and> \<bar>f9\<bar> \<le> k * 18454937"
  by (auto simp: fe_within_def fe_widths_def in_ivl_def abs_le_iff)

lemma fe_val_10:
  "fe_val [f0, f1, f2, f3, f4, f5, f6, f7, f8, f9] =
   f0 + 2 ^ 26 * f1 + 2 ^ 51 * f2 + 2 ^ 77 * f3 + 2 ^ 102 * f4 + 2 ^ 128 * f5 + 2 ^ 153 * f6 + 2 ^ 179 * f7
   + 2 ^ 204 * f8 + 2 ^ 230 * f9"
  by (simp add: fe_val_def fe_widths_def)

text \<open>The schoolbook products modulo \<open>p\<close>, as identities of polynomials in the limbs: the second factor of
  the subtracted term collects the products above \<open>2 ^ 255\<close>.\<close>

lemma cong_subtract: "h = x - p * q \<Longrightarrow> h mod p = x mod (p :: int)"
  by (simp add: mod_eq_dvd_iff)

lemma fe_mul_identity:
  fixes f0 f1 f2 f3 f4 f5 f6 f7 f8 f9 g0 g1 g2 g3 g4 g5 g6 g7 g8 g9 :: int
  shows "(f0 * g0 + (2 * f1 * (19 * g9) + (f2 * (19 * g8) + (2 * f3 * (19 * g7) + (f4 * (19 * g6) + (2 * f5 * (19 * g5) + (f6 * (19 * g4) + (2 * f7 * (19 * g3) + (f8 * (19 * g2) + (2 * f9 * (19 * g1) + 0))))))))))
    + 2 ^ 26 * (f0 * g1 + (f1 * g0 + (f2 * (19 * g9) + (f3 * (19 * g8) + (f4 * (19 * g7) + (f5 * (19 * g6) + (f6 * (19 * g5) + (f7 * (19 * g4) + (f8 * (19 * g3) + (f9 * (19 * g2) + 0))))))))))
    + 2 ^ 51 * (f0 * g2 + (2 * f1 * g1 + (f2 * g0 + (2 * f3 * (19 * g9) + (f4 * (19 * g8) + (2 * f5 * (19 * g7) + (f6 * (19 * g6) + (2 * f7 * (19 * g5) + (f8 * (19 * g4) + (2 * f9 * (19 * g3) + 0))))))))))
    + 2 ^ 77 * (f0 * g3 + (f1 * g2 + (f2 * g1 + (f3 * g0 + (f4 * (19 * g9) + (f5 * (19 * g8) + (f6 * (19 * g7) + (f7 * (19 * g6) + (f8 * (19 * g5) + (f9 * (19 * g4) + 0))))))))))
    + 2 ^ 102 * (f0 * g4 + (2 * f1 * g3 + (f2 * g2 + (2 * f3 * g1 + (f4 * g0 + (2 * f5 * (19 * g9) + (f6 * (19 * g8) + (2 * f7 * (19 * g7) + (f8 * (19 * g6) + (2 * f9 * (19 * g5) + 0))))))))))
    + 2 ^ 128 * (f0 * g5 + (f1 * g4 + (f2 * g3 + (f3 * g2 + (f4 * g1 + (f5 * g0 + (f6 * (19 * g9) + (f7 * (19 * g8) + (f8 * (19 * g7) + (f9 * (19 * g6) + 0))))))))))
    + 2 ^ 153 * (f0 * g6 + (2 * f1 * g5 + (f2 * g4 + (2 * f3 * g3 + (f4 * g2 + (2 * f5 * g1 + (f6 * g0 + (2 * f7 * (19 * g9) + (f8 * (19 * g8) + (2 * f9 * (19 * g7) + 0))))))))))
    + 2 ^ 179 * (f0 * g7 + (f1 * g6 + (f2 * g5 + (f3 * g4 + (f4 * g3 + (f5 * g2 + (f6 * g1 + (f7 * g0 + (f8 * (19 * g9) + (f9 * (19 * g8) + 0))))))))))
    + 2 ^ 204 * (f0 * g8 + (2 * f1 * g7 + (f2 * g6 + (2 * f3 * g5 + (f4 * g4 + (2 * f5 * g3 + (f6 * g2 + (2 * f7 * g1 + (f8 * g0 + (2 * f9 * (19 * g9) + 0))))))))))
    + 2 ^ 230 * (f0 * g9 + (f1 * g8 + (f2 * g7 + (f3 * g6 + (f4 * g5 + (f5 * g4 + (f6 * g3 + (f7 * g2 + (f8 * g1 + (f9 * g0 + 0))))))))))
    = (f0 + 2 ^ 26 * f1 + 2 ^ 51 * f2 + 2 ^ 77 * f3 + 2 ^ 102 * f4 + 2 ^ 128 * f5 + 2 ^ 153 * f6 + 2 ^ 179 * f7 + 2 ^ 204 * f8 + 2 ^ 230 * f9)
      * (g0 + 2 ^ 26 * g1 + 2 ^ 51 * g2 + 2 ^ 77 * g3 + 2 ^ 102 * g4 + 2 ^ 128 * g5 + 2 ^ 153 * g6 + 2 ^ 179 * g7 + 2 ^ 204 * g8 + 2 ^ 230 * g9)
      - (2 ^ 255 - 19) *
        (2 ^ 1 * f1 * g9 + f2 * g8 + 2 ^ 1 * f3 * g7 + f4 * g6 + 2 ^ 1 * f5 * g5 + f6 * g4
        + 2 ^ 1 * f7 * g3 + f8 * g2 + 2 ^ 1 * f9 * g1 + 2 ^ 26 * f2 * g9 + 2 ^ 26 * f3 * g8 + 2 ^ 26 * f4 * g7
        + 2 ^ 26 * f5 * g6 + 2 ^ 26 * f6 * g5 + 2 ^ 26 * f7 * g4 + 2 ^ 26 * f8 * g3 + 2 ^ 26 * f9 * g2 + 2 ^ 52 * f3 * g9
        + 2 ^ 51 * f4 * g8 + 2 ^ 52 * f5 * g7 + 2 ^ 51 * f6 * g6 + 2 ^ 52 * f7 * g5 + 2 ^ 51 * f8 * g4 + 2 ^ 52 * f9 * g3
        + 2 ^ 77 * f4 * g9 + 2 ^ 77 * f5 * g8 + 2 ^ 77 * f6 * g7 + 2 ^ 77 * f7 * g6 + 2 ^ 77 * f8 * g5 + 2 ^ 77 * f9 * g4
        + 2 ^ 103 * f5 * g9 + 2 ^ 102 * f6 * g8 + 2 ^ 103 * f7 * g7 + 2 ^ 102 * f8 * g6 + 2 ^ 103 * f9 * g5 + 2 ^ 128 * f6 * g9
        + 2 ^ 128 * f7 * g8 + 2 ^ 128 * f8 * g7 + 2 ^ 128 * f9 * g6 + 2 ^ 154 * f7 * g9 + 2 ^ 153 * f8 * g8 + 2 ^ 154 * f9 * g7
        + 2 ^ 179 * f8 * g9 + 2 ^ 179 * f9 * g8 + 2 ^ 205 * f9 * g9)"
  by algebra

lemma fe_sq_identity:
  fixes f0 f1 f2 f3 f4 f5 f6 f7 f8 f9 :: int
  shows "(f0 * f0 + (2 * f1 * (38 * f9) + (2 * f2 * (19 * f8) + (2 * f3 * (38 * f7) + (2 * f4 * (19 * f6) + (f5 * (38 * f5) + 0))))))
    + 2 ^ 26 * (2 * f0 * f1 + (f2 * (38 * f9) + (2 * f3 * (19 * f8) + (f4 * (38 * f7) + (2 * f5 * (19 * f6) + 0)))))
    + 2 ^ 51 * (2 * f0 * f2 + (2 * f1 * f1 + (2 * f3 * (38 * f9) + (2 * f4 * (19 * f8) + (2 * f5 * (38 * f7) + (f6 * (19 * f6) + 0))))))
    + 2 ^ 77 * (2 * f0 * f3 + (2 * f1 * f2 + (f4 * (38 * f9) + (2 * f5 * (19 * f8) + (f6 * (38 * f7) + 0)))))
    + 2 ^ 102 * (2 * f0 * f4 + (2 * f1 * (2 * f3) + (f2 * f2 + (2 * f5 * (38 * f9) + (2 * f6 * (19 * f8) + (f7 * (38 * f7) + 0))))))
    + 2 ^ 128 * (2 * f0 * f5 + (2 * f1 * f4 + (2 * f2 * f3 + (f6 * (38 * f9) + (2 * f7 * (19 * f8) + 0)))))
    + 2 ^ 153 * (2 * f0 * f6 + (2 * f1 * (2 * f5) + (2 * f2 * f4 + (2 * f3 * f3 + (2 * f7 * (38 * f9) + (f8 * (19 * f8) + 0))))))
    + 2 ^ 179 * (2 * f0 * f7 + (2 * f1 * f6 + (2 * f2 * f5 + (2 * f3 * f4 + (f8 * (38 * f9) + 0)))))
    + 2 ^ 204 * (2 * f0 * f8 + (2 * f1 * (2 * f7) + (2 * f2 * f6 + (2 * f3 * (2 * f5) + (f4 * f4 + (f9 * (38 * f9) + 0))))))
    + 2 ^ 230 * (2 * f0 * f9 + (2 * f1 * f8 + (2 * f2 * f7 + (2 * f3 * f6 + (2 * f4 * f5 + 0)))))
    = (f0 + 2 ^ 26 * f1 + 2 ^ 51 * f2 + 2 ^ 77 * f3 + 2 ^ 102 * f4 + 2 ^ 128 * f5 + 2 ^ 153 * f6 + 2 ^ 179 * f7 + 2 ^ 204 * f8 + 2 ^ 230 * f9)
      * (f0 + 2 ^ 26 * f1 + 2 ^ 51 * f2 + 2 ^ 77 * f3 + 2 ^ 102 * f4 + 2 ^ 128 * f5 + 2 ^ 153 * f6 + 2 ^ 179 * f7 + 2 ^ 204 * f8 + 2 ^ 230 * f9)
      - (2 ^ 255 - 19) *
        (2 ^ 2 * f1 * f9 + 2 ^ 1 * f2 * f8 + 2 ^ 2 * f3 * f7 + 2 ^ 1 * f4 * f6 + 2 ^ 1 * f5 * f5 + 2 ^ 27 * f2 * f9
        + 2 ^ 27 * f3 * f8 + 2 ^ 27 * f4 * f7 + 2 ^ 27 * f5 * f6 + 2 ^ 53 * f3 * f9 + 2 ^ 52 * f4 * f8 + 2 ^ 53 * f5 * f7
        + 2 ^ 51 * f6 * f6 + 2 ^ 78 * f4 * f9 + 2 ^ 78 * f5 * f8 + 2 ^ 78 * f6 * f7 + 2 ^ 104 * f5 * f9 + 2 ^ 103 * f6 * f8
        + 2 ^ 103 * f7 * f7 + 2 ^ 129 * f6 * f9 + 2 ^ 129 * f7 * f8 + 2 ^ 155 * f7 * f9 + 2 ^ 153 * f8 * f8 + 2 ^ 180 * f8 * f9
        + 2 ^ 205 * f9 * f9)"
  by algebra

section \<open>Multiplication\<close>

lemma fits_scaled:
  "0 \<le> k \<Longrightarrow> \<bar>x\<bar> \<le> b \<Longrightarrow> k * b < 2 ^ 31 \<Longrightarrow> checked 32 (k * x) = Some (k * x)"
proof -
  assume "0 \<le> k" "\<bar>x\<bar> \<le> b" and b: "k * b < 2 ^ 31"
  then have "\<bar>k * x\<bar> \<le> k * b" by (simp add: abs_mult mult_left_mono)
  with b have "\<bar>k * x\<bar> < 2 ^ 31" by simp
  then show ?thesis by (simp add: fits_def abs_less_iff)
qed

lemma abs_scaled: "0 \<le> k \<Longrightarrow> \<bar>x\<bar> \<le> b \<Longrightarrow> k * b \<le> c \<Longrightarrow> \<bar>k * x\<bar> \<le> (c :: int)"
  by (rule order_trans [of _ "k * b"]) (simp_all add: abs_mult mult_left_mono)

lemma mul_row:
  assumes "\<forall>x\<in>set ps. \<bar>fst x\<bar> \<le> 110729625 \<and> \<bar>snd x\<bar> \<le> 2103862875" "length ps = 10"
  shows "dot 64 ps = Some (sum_products ps)" "in_ivl (sum_products ps) (- (2 ^ 62 + 2 ^ 61), 2 ^ 62 + 2 ^ 61)"
  using dot_uniform [OF assms(1), of 64] assms(2) by (simp_all add: in_ivl_def abs_le_iff)

lemma sq_row:
  assumes "\<forall>x\<in>set ps. \<bar>fst x\<bar> \<le> 221459250 \<and> \<bar>snd x\<bar> \<le> 2103862875" "length ps \<le> 6"
  shows "dot 64 ps = Some (sum_products ps)" "in_ivl (sum_products ps) (- (2 ^ 61 + 2 ^ 60), 2 ^ 61 + 2 ^ 60)"
proof -
  have "int (length ps) * (221459250 * 2103862875) \<le> 6 * (221459250 * 2103862875)" using assms(2) by simp
  then show "dot 64 ps = Some (sum_products ps)" "in_ivl (sum_products ps) (- (2 ^ 61 + 2 ^ 60), 2 ^ 61 + 2 ^ 60)"
    using dot_uniform [OF assms(1), of 64] by (simp_all add: in_ivl_def abs_le_iff)
qed

lemma nth_10:
  "[x0, x1, x2, x3, x4, x5, x6, x7, x8, x9] ! 0 = x0" "[x0, x1, x2, x3, x4, x5, x6, x7, x8, x9] ! 1 = x1"
  "[x0, x1, x2, x3, x4, x5, x6, x7, x8, x9] ! 2 = x2" "[x0, x1, x2, x3, x4, x5, x6, x7, x8, x9] ! 3 = x3"
  "[x0, x1, x2, x3, x4, x5, x6, x7, x8, x9] ! 4 = x4" "[x0, x1, x2, x3, x4, x5, x6, x7, x8, x9] ! 5 = x5"
  "[x0, x1, x2, x3, x4, x5, x6, x7, x8, x9] ! 6 = x6" "[x0, x1, x2, x3, x4, x5, x6, x7, x8, x9] ! 7 = x7"
  "[x0, x1, x2, x3, x4, x5, x6, x7, x8, x9] ! 8 = x8" "[x0, x1, x2, x3, x4, x5, x6, x7, x8, x9] ! 9 = x9"
  by simp_all

lemma replicate_10: "replicate 10 x = [x, x, x, x, x, x, x, x, x, x]"
  by (simp add: numeral_eq_Suc)

definition square_bounds :: "ivl list" where
  "square_bounds = replicate 10 (- (2 ^ 61 + 2 ^ 60), 2 ^ 61 + 2 ^ 60)"

lemma fe_mul_limbs_correct:
  assumes "fe_within 3 f" "fe_within 3 g"
  shows "\<exists>h. fe_mul_limbs f g = Some h \<and> inside h product_bounds \<and> fe_val h mod p25519 = (fe_val f * fe_val g) mod p25519"
proof -
  obtain f0 f1 f2 f3 f4 f5 f6 f7 f8 f9 where f: "f = [f0, f1, f2, f3, f4, f5, f6, f7, f8, f9]"
    using list_10_ex [OF length_within [OF assms(1)]] by blast
  obtain g0 g1 g2 g3 g4 g5 g6 g7 g8 g9 where g: "g = [g0, g1, g2, g3, g4, g5, g6, g7, g8, g9]"
    using list_10_ex [OF length_within [OF assms(2)]] by blast
  have b:
    "\<bar>f0\<bar> \<le> 110729625" "\<bar>f1\<bar> \<le> 55364811" "\<bar>f2\<bar> \<le> 110729625"
    "\<bar>f3\<bar> \<le> 55364811" "\<bar>f4\<bar> \<le> 110729625" "\<bar>f5\<bar> \<le> 55364811"
    "\<bar>f6\<bar> \<le> 110729625" "\<bar>f7\<bar> \<le> 55364811" "\<bar>f8\<bar> \<le> 110729625"
    "\<bar>f9\<bar> \<le> 55364811" "\<bar>g0\<bar> \<le> 110729625" "\<bar>g1\<bar> \<le> 55364811"
    "\<bar>g2\<bar> \<le> 110729625" "\<bar>g3\<bar> \<le> 55364811" "\<bar>g4\<bar> \<le> 110729625"
    "\<bar>g5\<bar> \<le> 55364811" "\<bar>g6\<bar> \<le> 110729625" "\<bar>g7\<bar> \<le> 55364811"
    "\<bar>g8\<bar> \<le> 110729625" "\<bar>g9\<bar> \<le> 55364811"
    using assms unfolding f g fe_within_10 by simp_all
  have c:
    "checked 32 (19 * g1) = Some (19 * g1)" "checked 32 (19 * g2) = Some (19 * g2)"
    "checked 32 (19 * g3) = Some (19 * g3)" "checked 32 (19 * g4) = Some (19 * g4)"
    "checked 32 (19 * g5) = Some (19 * g5)" "checked 32 (19 * g6) = Some (19 * g6)"
    "checked 32 (19 * g7) = Some (19 * g7)" "checked 32 (19 * g8) = Some (19 * g8)"
    "checked 32 (19 * g9) = Some (19 * g9)" "checked 32 (2 * f1) = Some (2 * f1)"
    "checked 32 (2 * f3) = Some (2 * f3)" "checked 32 (2 * f5) = Some (2 * f5)" "checked 32 (2 * f7) = Some (2 * f7)"
    "checked 32 (2 * f9) = Some (2 * f9)"
    by (rule fits_scaled, simp, rule b, simp)+
  have a1:
    "\<bar>2 * f1\<bar> \<le> 110729625" "\<bar>2 * f3\<bar> \<le> 110729625" "\<bar>2 * f5\<bar> \<le> 110729625"
    "\<bar>2 * f7\<bar> \<le> 110729625" "\<bar>2 * f9\<bar> \<le> 110729625"
    by (rule abs_scaled, simp, rule b, simp)+
  have a2:
    "\<bar>f0\<bar> \<le> 110729625" "\<bar>f1\<bar> \<le> 110729625" "\<bar>f2\<bar> \<le> 110729625"
    "\<bar>f3\<bar> \<le> 110729625" "\<bar>f4\<bar> \<le> 110729625" "\<bar>f5\<bar> \<le> 110729625"
    "\<bar>f6\<bar> \<le> 110729625" "\<bar>f7\<bar> \<le> 110729625" "\<bar>f8\<bar> \<le> 110729625"
    "\<bar>f9\<bar> \<le> 110729625"
    by (rule order_trans, rule b, simp)+
  have m1:
    "\<bar>19 * g1\<bar> \<le> 2103862875" "\<bar>19 * g2\<bar> \<le> 2103862875"
    "\<bar>19 * g3\<bar> \<le> 2103862875" "\<bar>19 * g4\<bar> \<le> 2103862875"
    "\<bar>19 * g5\<bar> \<le> 2103862875" "\<bar>19 * g6\<bar> \<le> 2103862875"
    "\<bar>19 * g7\<bar> \<le> 2103862875" "\<bar>19 * g8\<bar> \<le> 2103862875"
    "\<bar>19 * g9\<bar> \<le> 2103862875"
    by (rule abs_scaled, simp, rule b, simp)+
  have m2:
    "\<bar>g0\<bar> \<le> 2103862875" "\<bar>g1\<bar> \<le> 2103862875" "\<bar>g2\<bar> \<le> 2103862875"
    "\<bar>g3\<bar> \<le> 2103862875" "\<bar>g4\<bar> \<le> 2103862875" "\<bar>g5\<bar> \<le> 2103862875"
    "\<bar>g6\<bar> \<le> 2103862875" "\<bar>g7\<bar> \<le> 2103862875" "\<bar>g8\<bar> \<le> 2103862875"
    "\<bar>g9\<bar> \<le> 2103862875"
    by (rule order_trans, rule b, simp)+
  let ?r0 = "[(f0, g0), (2 * f1, 19 * g9), (f2, 19 * g8), (2 * f3, 19 * g7), (f4, 19 * g6), (2 * f5, 19 * g5), (f6, 19 * g4), (2 * f7, 19 * g3), (f8, 19 * g2), (2 * f9, 19 * g1)]"
  let ?r1 = "[(f0, g1), (f1, g0), (f2, 19 * g9), (f3, 19 * g8), (f4, 19 * g7), (f5, 19 * g6), (f6, 19 * g5), (f7, 19 * g4), (f8, 19 * g3), (f9, 19 * g2)]"
  let ?r2 = "[(f0, g2), (2 * f1, g1), (f2, g0), (2 * f3, 19 * g9), (f4, 19 * g8), (2 * f5, 19 * g7), (f6, 19 * g6), (2 * f7, 19 * g5), (f8, 19 * g4), (2 * f9, 19 * g3)]"
  let ?r3 = "[(f0, g3), (f1, g2), (f2, g1), (f3, g0), (f4, 19 * g9), (f5, 19 * g8), (f6, 19 * g7), (f7, 19 * g6), (f8, 19 * g5), (f9, 19 * g4)]"
  let ?r4 = "[(f0, g4), (2 * f1, g3), (f2, g2), (2 * f3, g1), (f4, g0), (2 * f5, 19 * g9), (f6, 19 * g8), (2 * f7, 19 * g7), (f8, 19 * g6), (2 * f9, 19 * g5)]"
  let ?r5 = "[(f0, g5), (f1, g4), (f2, g3), (f3, g2), (f4, g1), (f5, g0), (f6, 19 * g9), (f7, 19 * g8), (f8, 19 * g7), (f9, 19 * g6)]"
  let ?r6 = "[(f0, g6), (2 * f1, g5), (f2, g4), (2 * f3, g3), (f4, g2), (2 * f5, g1), (f6, g0), (2 * f7, 19 * g9), (f8, 19 * g8), (2 * f9, 19 * g7)]"
  let ?r7 = "[(f0, g7), (f1, g6), (f2, g5), (f3, g4), (f4, g3), (f5, g2), (f6, g1), (f7, g0), (f8, 19 * g9), (f9, 19 * g8)]"
  let ?r8 = "[(f0, g8), (2 * f1, g7), (f2, g6), (2 * f3, g5), (f4, g4), (2 * f5, g3), (f6, g2), (2 * f7, g1), (f8, g0), (2 * f9, 19 * g9)]"
  let ?r9 = "[(f0, g9), (f1, g8), (f2, g7), (f3, g6), (f4, g5), (f5, g4), (f6, g3), (f7, g2), (f8, g1), (f9, g0)]"
  have r:
    "\<forall>x\<in>set ?r0. \<bar>fst x\<bar> \<le> 110729625 \<and> \<bar>snd x\<bar> \<le> 2103862875"
    "\<forall>x\<in>set ?r1. \<bar>fst x\<bar> \<le> 110729625 \<and> \<bar>snd x\<bar> \<le> 2103862875"
    "\<forall>x\<in>set ?r2. \<bar>fst x\<bar> \<le> 110729625 \<and> \<bar>snd x\<bar> \<le> 2103862875"
    "\<forall>x\<in>set ?r3. \<bar>fst x\<bar> \<le> 110729625 \<and> \<bar>snd x\<bar> \<le> 2103862875"
    "\<forall>x\<in>set ?r4. \<bar>fst x\<bar> \<le> 110729625 \<and> \<bar>snd x\<bar> \<le> 2103862875"
    "\<forall>x\<in>set ?r5. \<bar>fst x\<bar> \<le> 110729625 \<and> \<bar>snd x\<bar> \<le> 2103862875"
    "\<forall>x\<in>set ?r6. \<bar>fst x\<bar> \<le> 110729625 \<and> \<bar>snd x\<bar> \<le> 2103862875"
    "\<forall>x\<in>set ?r7. \<bar>fst x\<bar> \<le> 110729625 \<and> \<bar>snd x\<bar> \<le> 2103862875"
    "\<forall>x\<in>set ?r8. \<bar>fst x\<bar> \<le> 110729625 \<and> \<bar>snd x\<bar> \<le> 2103862875"
    "\<forall>x\<in>set ?r9. \<bar>fst x\<bar> \<le> 110729625 \<and> \<bar>snd x\<bar> \<le> 2103862875"
    by (simp_all only: list.set ball_simps fst_conv snd_conv a1 a2 m1 m2 simp_thms)
  have l:
    "length ?r0 = 10" "length ?r1 = 10" "length ?r2 = 10" "length ?r3 = 10" "length ?r4 = 10" "length ?r5 = 10"
    "length ?r6 = 10" "length ?r7 = 10" "length ?r8 = 10" "length ?r9 = 10"
    by simp_all
  note d1 = mul_row(1) [OF r(1) l(1)] mul_row(1) [OF r(2) l(2)] mul_row(1) [OF r(3) l(3)] mul_row(1) [OF r(4) l(4)] mul_row(1) [OF r(5) l(5)] mul_row(1) [OF r(6) l(6)] mul_row(1) [OF r(7) l(7)] mul_row(1) [OF r(8) l(8)] mul_row(1) [OF r(9) l(9)] mul_row(1) [OF r(10) l(10)]
  note d2 = mul_row(2) [OF r(1) l(1)] mul_row(2) [OF r(2) l(2)] mul_row(2) [OF r(3) l(3)] mul_row(2) [OF r(4) l(4)] mul_row(2) [OF r(5) l(5)] mul_row(2) [OF r(6) l(6)] mul_row(2) [OF r(7) l(7)] mul_row(2) [OF r(8) l(8)] mul_row(2) [OF r(9) l(9)] mul_row(2) [OF r(10) l(10)]
  have e: "fe_mul_limbs f g = Some [sum_products ?r0, sum_products ?r1, sum_products ?r2, sum_products ?r3, sum_products ?r4, sum_products ?r5, sum_products ?r6, sum_products ?r7, sum_products ?r8, sum_products ?r9]"
    unfolding fe_mul_limbs_def Let_def f g nth_10 c Option.bind_lunit d1 ..
  have "inside [sum_products ?r0, sum_products ?r1, sum_products ?r2, sum_products ?r3, sum_products ?r4, sum_products ?r5, sum_products ?r6, sum_products ?r7, sum_products ?r8, sum_products ?r9] product_bounds"
    unfolding product_bounds_def replicate_10 inside_Cons using d2 by simp
  moreover have "fe_val [sum_products ?r0, sum_products ?r1, sum_products ?r2, sum_products ?r3, sum_products ?r4, sum_products ?r5, sum_products ?r6, sum_products ?r7, sum_products ?r8, sum_products ?r9] mod p25519 = (fe_val f * fe_val g) mod p25519"
    unfolding f g fe_val_10 sum_products_simps p25519_def by (rule cong_subtract, rule fe_mul_identity)
  ultimately show ?thesis using e by blast
qed

lemma fe_sq_limbs_correct:
  assumes "fe_within 3 f"
  shows "\<exists>h. fe_sq_limbs f = Some h \<and> inside h square_bounds \<and> fe_val h mod p25519 = (fe_val f * fe_val f) mod p25519"
proof -
  obtain f0 f1 f2 f3 f4 f5 f6 f7 f8 f9 where f: "f = [f0, f1, f2, f3, f4, f5, f6, f7, f8, f9]"
    using list_10_ex [OF length_within [OF assms(1)]] by blast
  have b:
    "\<bar>f0\<bar> \<le> 110729625" "\<bar>f1\<bar> \<le> 55364811" "\<bar>f2\<bar> \<le> 110729625"
    "\<bar>f3\<bar> \<le> 55364811" "\<bar>f4\<bar> \<le> 110729625" "\<bar>f5\<bar> \<le> 55364811"
    "\<bar>f6\<bar> \<le> 110729625" "\<bar>f7\<bar> \<le> 55364811" "\<bar>f8\<bar> \<le> 110729625"
    "\<bar>f9\<bar> \<le> 55364811"
    using assms unfolding f fe_within_10 by simp_all
  have c:
    "checked 32 (2 * f0) = Some (2 * f0)" "checked 32 (2 * f1) = Some (2 * f1)" "checked 32 (2 * f2) = Some (2 * f2)"
    "checked 32 (2 * f3) = Some (2 * f3)" "checked 32 (2 * f4) = Some (2 * f4)" "checked 32 (2 * f5) = Some (2 * f5)"
    "checked 32 (2 * f6) = Some (2 * f6)" "checked 32 (2 * f7) = Some (2 * f7)"
    "checked 32 (38 * f5) = Some (38 * f5)" "checked 32 (19 * f6) = Some (19 * f6)"
    "checked 32 (38 * f7) = Some (38 * f7)" "checked 32 (19 * f8) = Some (19 * f8)"
    "checked 32 (38 * f9) = Some (38 * f9)"
    by (rule fits_scaled, simp, rule b, simp)+
  have a1:
    "\<bar>2 * f0\<bar> \<le> 221459250" "\<bar>2 * f1\<bar> \<le> 221459250" "\<bar>2 * f2\<bar> \<le> 221459250"
    "\<bar>2 * f3\<bar> \<le> 221459250" "\<bar>2 * f4\<bar> \<le> 221459250" "\<bar>2 * f5\<bar> \<le> 221459250"
    "\<bar>2 * f6\<bar> \<le> 221459250" "\<bar>2 * f7\<bar> \<le> 221459250"
    by (rule abs_scaled, simp, rule b, simp)+
  have a2:
    "\<bar>f0\<bar> \<le> 221459250" "\<bar>f2\<bar> \<le> 221459250" "\<bar>f4\<bar> \<le> 221459250"
    "\<bar>f5\<bar> \<le> 221459250" "\<bar>f6\<bar> \<le> 221459250" "\<bar>f7\<bar> \<le> 221459250"
    "\<bar>f8\<bar> \<le> 221459250" "\<bar>f9\<bar> \<le> 221459250"
    by (rule order_trans, rule b, simp)+
  have m1:
    "\<bar>19 * f6\<bar> \<le> 2103862875" "\<bar>19 * f8\<bar> \<le> 2103862875"
    "\<bar>2 * f3\<bar> \<le> 2103862875" "\<bar>2 * f5\<bar> \<le> 2103862875" "\<bar>2 * f7\<bar> \<le> 2103862875"
    "\<bar>38 * f5\<bar> \<le> 2103862875" "\<bar>38 * f7\<bar> \<le> 2103862875"
    "\<bar>38 * f9\<bar> \<le> 2103862875"
    by (rule abs_scaled, simp, rule b, simp)+
  have m2:
    "\<bar>f0\<bar> \<le> 2103862875" "\<bar>f1\<bar> \<le> 2103862875" "\<bar>f2\<bar> \<le> 2103862875"
    "\<bar>f3\<bar> \<le> 2103862875" "\<bar>f4\<bar> \<le> 2103862875" "\<bar>f5\<bar> \<le> 2103862875"
    "\<bar>f6\<bar> \<le> 2103862875" "\<bar>f7\<bar> \<le> 2103862875" "\<bar>f8\<bar> \<le> 2103862875"
    "\<bar>f9\<bar> \<le> 2103862875"
    by (rule order_trans, rule b, simp)+
  let ?r0 = "[(f0, f0), (2 * f1, 38 * f9), (2 * f2, 19 * f8), (2 * f3, 38 * f7), (2 * f4, 19 * f6), (f5, 38 * f5)]"
  let ?r1 = "[(2 * f0, f1), (f2, 38 * f9), (2 * f3, 19 * f8), (f4, 38 * f7), (2 * f5, 19 * f6)]"
  let ?r2 = "[(2 * f0, f2), (2 * f1, f1), (2 * f3, 38 * f9), (2 * f4, 19 * f8), (2 * f5, 38 * f7), (f6, 19 * f6)]"
  let ?r3 = "[(2 * f0, f3), (2 * f1, f2), (f4, 38 * f9), (2 * f5, 19 * f8), (f6, 38 * f7)]"
  let ?r4 = "[(2 * f0, f4), (2 * f1, 2 * f3), (f2, f2), (2 * f5, 38 * f9), (2 * f6, 19 * f8), (f7, 38 * f7)]"
  let ?r5 = "[(2 * f0, f5), (2 * f1, f4), (2 * f2, f3), (f6, 38 * f9), (2 * f7, 19 * f8)]"
  let ?r6 = "[(2 * f0, f6), (2 * f1, 2 * f5), (2 * f2, f4), (2 * f3, f3), (2 * f7, 38 * f9), (f8, 19 * f8)]"
  let ?r7 = "[(2 * f0, f7), (2 * f1, f6), (2 * f2, f5), (2 * f3, f4), (f8, 38 * f9)]"
  let ?r8 = "[(2 * f0, f8), (2 * f1, 2 * f7), (2 * f2, f6), (2 * f3, 2 * f5), (f4, f4), (f9, 38 * f9)]"
  let ?r9 = "[(2 * f0, f9), (2 * f1, f8), (2 * f2, f7), (2 * f3, f6), (2 * f4, f5)]"
  have r:
    "\<forall>x\<in>set ?r0. \<bar>fst x\<bar> \<le> 221459250 \<and> \<bar>snd x\<bar> \<le> 2103862875"
    "\<forall>x\<in>set ?r1. \<bar>fst x\<bar> \<le> 221459250 \<and> \<bar>snd x\<bar> \<le> 2103862875"
    "\<forall>x\<in>set ?r2. \<bar>fst x\<bar> \<le> 221459250 \<and> \<bar>snd x\<bar> \<le> 2103862875"
    "\<forall>x\<in>set ?r3. \<bar>fst x\<bar> \<le> 221459250 \<and> \<bar>snd x\<bar> \<le> 2103862875"
    "\<forall>x\<in>set ?r4. \<bar>fst x\<bar> \<le> 221459250 \<and> \<bar>snd x\<bar> \<le> 2103862875"
    "\<forall>x\<in>set ?r5. \<bar>fst x\<bar> \<le> 221459250 \<and> \<bar>snd x\<bar> \<le> 2103862875"
    "\<forall>x\<in>set ?r6. \<bar>fst x\<bar> \<le> 221459250 \<and> \<bar>snd x\<bar> \<le> 2103862875"
    "\<forall>x\<in>set ?r7. \<bar>fst x\<bar> \<le> 221459250 \<and> \<bar>snd x\<bar> \<le> 2103862875"
    "\<forall>x\<in>set ?r8. \<bar>fst x\<bar> \<le> 221459250 \<and> \<bar>snd x\<bar> \<le> 2103862875"
    "\<forall>x\<in>set ?r9. \<bar>fst x\<bar> \<le> 221459250 \<and> \<bar>snd x\<bar> \<le> 2103862875"
    by (simp_all only: list.set ball_simps fst_conv snd_conv a1 a2 m1 m2 simp_thms)
  have l:
    "length ?r0 \<le> 6" "length ?r1 \<le> 6" "length ?r2 \<le> 6" "length ?r3 \<le> 6" "length ?r4 \<le> 6"
    "length ?r5 \<le> 6" "length ?r6 \<le> 6" "length ?r7 \<le> 6" "length ?r8 \<le> 6" "length ?r9 \<le> 6"
    by simp_all
  note d1 = sq_row(1) [OF r(1) l(1)] sq_row(1) [OF r(2) l(2)] sq_row(1) [OF r(3) l(3)] sq_row(1) [OF r(4) l(4)] sq_row(1) [OF r(5) l(5)] sq_row(1) [OF r(6) l(6)] sq_row(1) [OF r(7) l(7)] sq_row(1) [OF r(8) l(8)] sq_row(1) [OF r(9) l(9)] sq_row(1) [OF r(10) l(10)]
  note d2 = sq_row(2) [OF r(1) l(1)] sq_row(2) [OF r(2) l(2)] sq_row(2) [OF r(3) l(3)] sq_row(2) [OF r(4) l(4)] sq_row(2) [OF r(5) l(5)] sq_row(2) [OF r(6) l(6)] sq_row(2) [OF r(7) l(7)] sq_row(2) [OF r(8) l(8)] sq_row(2) [OF r(9) l(9)] sq_row(2) [OF r(10) l(10)]
  have e: "fe_sq_limbs f = Some [sum_products ?r0, sum_products ?r1, sum_products ?r2, sum_products ?r3, sum_products ?r4, sum_products ?r5, sum_products ?r6, sum_products ?r7, sum_products ?r8, sum_products ?r9]"
    unfolding fe_sq_limbs_def Let_def f nth_10 c Option.bind_lunit d1 ..
  have "inside [sum_products ?r0, sum_products ?r1, sum_products ?r2, sum_products ?r3, sum_products ?r4, sum_products ?r5, sum_products ?r6, sum_products ?r7, sum_products ?r8, sum_products ?r9] square_bounds"
    unfolding square_bounds_def replicate_10 inside_Cons using d2 by simp
  moreover have "fe_val [sum_products ?r0, sum_products ?r1, sum_products ?r2, sum_products ?r3, sum_products ?r4, sum_products ?r5, sum_products ?r6, sum_products ?r7, sum_products ?r8, sum_products ?r9] mod p25519 = (fe_val f * fe_val f) mod p25519"
    unfolding f fe_val_10 sum_products_simps p25519_def by (rule cong_subtract, rule fe_sq_identity)
  ultimately show ?thesis using e by blast
qed

text \<open>The carries bring the products back into the bounds of a reduced element.\<close>

definition fe_snug :: "fe \<Rightarrow> bool" where
  "fe_snug f \<longleftrightarrow> inside f snug_bounds"

lemma carry_and_narrow:
  assumes "inside h product_bounds"
  shows "\<exists>k. do { h \<leftarrow> exec 64 fe_carries h; Some (map (narrow 32) h) } = Some k \<and> fe_snug k
    \<and> fe_val k mod p25519 = fe_val h mod p25519"
proof -
  from bounded_sound [OF bounded_fe_carries assms] obtain k where
    k: "exec 64 fe_carries h = Some k" "inside k snug_bounds" by blast
  have len: "length snug_bounds = 10" by (simp add: snug_bounds_def fe_widths_def)
  have "\<forall>b\<in>set snug_bounds. fits 32 (fst b) \<and> fits 32 (snd b)" by code_simp
  then have "fits 32 (k ! i)" if "i < 10" for i
    using inside_nth [OF k(2), of i] that len by (auto simp: in_ivl_def intro: fits_between)
  moreover have "length k = 10" using k(2) len by (simp add: inside_def)
  ultimately have "map (narrow 32) k = k" by (intro map_idI) (metis in_set_conv_nth narrow_fits zero_less_numeral)
  moreover have "fe_val k mod p25519 = fe_val h mod p25519"
    unfolding fe_val_def using weigh_sound [OF weigh_fe_carries k(1)] assms
    by (simp add: inside_def product_bounds_def fe_widths_def)
  ultimately show ?thesis using k by (simp add: fe_snug_def)
qed

lemma snug_within: "fe_snug f \<Longrightarrow> fe_within 1 f"
  unfolding fe_snug_def fe_within_def by (erule inside_mono) code_simp

lemma within_mono: "fe_within j f \<Longrightarrow> j \<le> k \<Longrightarrow> fe_within k f"
  by (auto simp: fe_within_def inside_def split: if_splits)

theorem fe_mul_correct:
  assumes "fe_within 3 f" "fe_within 3 g"
  shows "\<exists>h. fe_mul f g = Some h \<and> fe_snug h \<and> fe_val h mod p25519 = (fe_val f * fe_val g) mod p25519"
proof -
  obtain h where h: "fe_mul_limbs f g = Some h" "inside h product_bounds" "fe_val h mod p25519 = (fe_val f * fe_val g) mod p25519"
    using fe_mul_limbs_correct [OF assms] by blast
  then show ?thesis using carry_and_narrow [OF h(2)] by (simp add: fe_mul_def)
qed

theorem fe_sq_correct:
  assumes "fe_within 3 f"
  shows "\<exists>h. fe_sq f = Some h \<and> fe_snug h \<and> fe_val h mod p25519 = (fe_val f * fe_val f) mod p25519"
proof -
  obtain h where h: "fe_sq_limbs f = Some h" "inside h square_bounds" "fe_val h mod p25519 = (fe_val f * fe_val f) mod p25519"
    using fe_sq_limbs_correct [OF assms] by blast
  have "inside h product_bounds" using h(2) by (rule inside_mono) code_simp
  from carry_and_narrow [OF this] h show ?thesis by (simp add: fe_sq_def)
qed

lemma weighted_scale_right: "weighted W (map ((*) k) h) = k * weighted W h"
  by (induction W h rule: list_induct2') (simp_all add: algebra_simps)

theorem fe_sq2_correct:
  assumes "fe_within 3 f"
  shows "\<exists>h. fe_sq2 f = Some h \<and> fe_snug h \<and> fe_val h mod p25519 = (2 * (fe_val f * fe_val f)) mod p25519"
proof -
  obtain h where h: "fe_sq_limbs f = Some h" "inside h square_bounds" "fe_val h mod p25519 = (fe_val f * fe_val f) mod p25519"
    using fe_sq_limbs_correct [OF assms] by blast
  have b: "length h = 10" "\<forall>x\<in>set h. - (2 ^ 61 + 2 ^ 60) \<le> x \<and> x \<le> 2 ^ 61 + 2 ^ 60"
    using h(2) by (auto simp: square_bounds_def inside_replicate in_ivl_def)
  have "those (map (\<lambda>x. checked 64 (x + x)) h) = Some (map ((*) 2) h)"
    using b(2) by (intro those_map) (force simp: fits_def)
  moreover have i: "inside (map ((*) 2) h) product_bounds"
    using b by (auto simp: product_bounds_def inside_replicate in_ivl_def)
  moreover have "fe_val (map ((*) 2) h) mod p25519 = (2 * (fe_val f * fe_val f)) mod p25519"
    using h(3) b(1) unfolding fe_val_def weighted_scale_right by (metis mod_mult_right_eq)
  ultimately show ?thesis using h(1) carry_and_narrow [OF i] by (simp add: fe_sq2_def)
qed

section \<open>Addition, subtraction, negation, selection\<close>

lemma fe_within_iff:
  "fe_within k f \<longleftrightarrow> length f = 10 \<and> (\<forall>i<10. \<bar>f ! i\<bar> \<le> k * (if even i then 36909875 else 18454937))"
proof (cases "length f = 10")
  case True
  obtain f0 f1 f2 f3 f4 f5 f6 f7 f8 f9 where f: "f = [f0, f1, f2, f3, f4, f5, f6, f7, f8, f9]"
    using list_10_ex [OF True] by blast
  have all: "(\<forall>i<10. P i) \<longleftrightarrow> P 0 \<and> P 1 \<and> P 2 \<and> P 3 \<and> P 4 \<and> P 5 \<and> P 6 \<and> P 7 \<and> P 8 \<and> P (9 :: nat)" for P
    by (auto simp: numeral_eq_Suc All_less_Suc)
  show ?thesis unfolding f fe_within_10 all by simp
qed (auto dest: length_within)

lemma within_nth: "fe_within k f \<Longrightarrow> i < 10 \<Longrightarrow> \<bar>f ! i\<bar> \<le> k * (if even i then 36909875 else 18454937)"
  by (simp add: fe_within_iff)

lemma fe_pointwise:
  assumes "\<And>i. i < 10 \<Longrightarrow> \<bar>F i\<bar> \<le> k * (if even i then 36909875 else 18454937)" "k \<le> 58"
  shows "those (map (\<lambda>i. checked 32 (F i)) [0..<10]) = Some (map F [0..<10])" "fe_within k (map F [0..<10])"
proof -
  have "\<bar>F i\<bar> < 2 ^ 31" if "i < 10" for i
    using assms(1) [OF that] assms(2) by (cases "even i") auto
  then show "those (map (\<lambda>i. checked 32 (F i)) [0..<10]) = Some (map F [0..<10])"
    by (intro those_map) (force simp: fits_def abs_less_iff simp del: upt_rec_numeral)
  show "fe_within k (map F [0..<10])" using assms(1) by (simp add: fe_within_iff del: upt_rec_numeral)
qed

lemma fe_val_sum: "length f = 10 \<Longrightarrow> fe_val f = (\<Sum>i<10. powers fe_widths ! i * f ! i)"
  by (simp add: fe_val_def weighted_sum fe_widths_def)

lemma fe_add_correct:
  assumes "fe_within j f" "fe_within k g" "j + k \<le> 58"
  shows "\<exists>h. fe_add f g = Some h \<and> fe_within (j + k) h \<and> fe_val h = fe_val f + fe_val g"
proof -
  have "\<bar>f ! i + g ! i\<bar> \<le> (j + k) * (if even i then 36909875 else 18454937)" if "i < 10" for i
    using within_nth [OF assms(1) that] within_nth [OF assms(2) that] by (auto simp: algebra_simps split: if_splits)
  note h = fe_pointwise [OF this assms(3)]
  have "fe_val (map (\<lambda>i. f ! i + g ! i) [0..<10]) = fe_val f + fe_val g"
    using length_within [OF assms(1)] length_within [OF assms(2)]
    by (simp add: fe_val_sum distrib_left sum.distrib del: upt_rec_numeral)
  then show ?thesis using h unfolding fe_add_def by blast
qed

lemma fe_sub_correct:
  assumes "fe_within j f" "fe_within k g" "j + k \<le> 58"
  shows "\<exists>h. fe_sub f g = Some h \<and> fe_within (j + k) h \<and> fe_val h = fe_val f - fe_val g"
proof -
  have "\<bar>f ! i - g ! i\<bar> \<le> (j + k) * (if even i then 36909875 else 18454937)" if "i < 10" for i
    using within_nth [OF assms(1) that] within_nth [OF assms(2) that] by (auto simp: algebra_simps split: if_splits)
  note h = fe_pointwise [OF this assms(3)]
  have "fe_val (map (\<lambda>i. f ! i - g ! i) [0..<10]) = fe_val f - fe_val g"
    using length_within [OF assms(1)] length_within [OF assms(2)]
    by (simp add: fe_val_sum right_diff_distrib sum_subtractf del: upt_rec_numeral)
  then show ?thesis using h unfolding fe_sub_def by blast
qed

lemma fe_neg_correct:
  assumes "fe_within k f" "k \<le> 58"
  shows "\<exists>h. fe_neg f = Some h \<and> fe_within k h \<and> fe_val h = - fe_val f"
proof -
  have "\<bar>- (f ! i)\<bar> \<le> k * (if even i then 36909875 else 18454937)" if "i < 10" for i
    using within_nth [OF assms(1) that] by simp
  note h = fe_pointwise [OF this assms(2)]
  have "fe_val (map (\<lambda>i. - (f ! i)) [0..<10]) = - fe_val f"
    using length_within [OF assms(1)] by (simp add: fe_val_sum sum_negf del: upt_rec_numeral)
  then show ?thesis using h unfolding fe_neg_def by blast
qed

lemma fe_copy_id: "length f = 10 \<Longrightarrow> fe_copy f = f"
  by (auto simp: fe_copy_def intro!: nth_equalityI simp del: upt_rec_numeral)

lemma fe_cmov_correct:
  assumes "fe_within k f" "fe_within k g" "k \<le> 58"
  shows "fe_cmov f g 0 = Some f" "fe_cmov f g 1 = Some g"
proof -
  have fit: "sint (word_of_int x :: u32) = x" if "\<bar>x\<bar> < 2 ^ 31" for x
    using that by (simp add: sint_sbintrunc' signed_take_bit_int_eq_self abs_less_iff)
  have "\<bar>h ! i\<bar> < 2 ^ 31" if "fe_within k h" "i < 10" for h i
    using within_nth [OF that] assms(3) by (cases "even i") auto
  then show "fe_cmov f g 0 = Some f" "fe_cmov f g 1 = Some g"
    using assms length_within [OF assms(1)] length_within [OF assms(2)]
    by (auto simp: fe_cmov_def Let_def fit intro!: nth_equalityI simp del: upt_rec_numeral)
qed

section \<open>Powers\<close>

fun fe_sqn :: "nat \<Rightarrow> fe \<Rightarrow> fe option" where
  "fe_sqn 0 t = Some t"
| "fe_sqn (Suc n) t = do { t \<leftarrow> fe_sq t; fe_sqn n t }"

definition fe_invert :: "fe \<Rightarrow> fe option" where
  "fe_invert z =
     do { t0 \<leftarrow> fe_sq z;
          t1 \<leftarrow> fe_sq t0;
          t1 \<leftarrow> fe_sq t1;
          t1 \<leftarrow> fe_mul z t1;
          t0 \<leftarrow> fe_mul t0 t1;
          t2 \<leftarrow> fe_sq t0;
          t1 \<leftarrow> fe_mul t1 t2;
          t2 \<leftarrow> fe_sq t1;
          t2 \<leftarrow> fe_sqn 4 t2;
          t1 \<leftarrow> fe_mul t2 t1;
          t2 \<leftarrow> fe_sq t1;
          t2 \<leftarrow> fe_sqn 9 t2;
          t2 \<leftarrow> fe_mul t2 t1;
          t3 \<leftarrow> fe_sq t2;
          t3 \<leftarrow> fe_sqn 19 t3;
          t2 \<leftarrow> fe_mul t3 t2;
          t2 \<leftarrow> fe_sq t2;
          t2 \<leftarrow> fe_sqn 9 t2;
          t1 \<leftarrow> fe_mul t2 t1;
          t2 \<leftarrow> fe_sq t1;
          t2 \<leftarrow> fe_sqn 49 t2;
          t2 \<leftarrow> fe_mul t2 t1;
          t3 \<leftarrow> fe_sq t2;
          t3 \<leftarrow> fe_sqn 99 t3;
          t2 \<leftarrow> fe_mul t3 t2;
          t2 \<leftarrow> fe_sq t2;
          t2 \<leftarrow> fe_sqn 49 t2;
          t1 \<leftarrow> fe_mul t2 t1;
          t1 \<leftarrow> fe_sq t1;
          t1 \<leftarrow> fe_sqn 4 t1;
          fe_mul t1 t0 }"

definition fe_pow22523 :: "fe \<Rightarrow> fe option" where
  "fe_pow22523 uv7 =
     do { t0 \<leftarrow> fe_sq uv7;
          t1 \<leftarrow> fe_sq t0;
          t1 \<leftarrow> fe_sq t1;
          t1 \<leftarrow> fe_mul uv7 t1;
          t0 \<leftarrow> fe_mul t0 t1;
          t0 \<leftarrow> fe_sq t0;
          t0 \<leftarrow> fe_mul t1 t0;
          t1 \<leftarrow> fe_sq t0;
          t1 \<leftarrow> fe_sqn 4 t1;
          t0 \<leftarrow> fe_mul t1 t0;
          t1 \<leftarrow> fe_sq t0;
          t1 \<leftarrow> fe_sqn 9 t1;
          t1 \<leftarrow> fe_mul t1 t0;
          t2 \<leftarrow> fe_sq t1;
          t2 \<leftarrow> fe_sqn 19 t2;
          t1 \<leftarrow> fe_mul t2 t1;
          t1 \<leftarrow> fe_sqn 10 t1;
          t0 \<leftarrow> fe_mul t1 t0;
          t1 \<leftarrow> fe_sq t0;
          t1 \<leftarrow> fe_sqn 49 t1;
          t1 \<leftarrow> fe_mul t1 t0;
          t2 \<leftarrow> fe_sq t1;
          t2 \<leftarrow> fe_sqn 99 t2;
          t1 \<leftarrow> fe_mul t2 t1;
          t1 \<leftarrow> fe_sqn 50 t1;
          t0 \<leftarrow> fe_mul t1 t0;
          t0 \<leftarrow> fe_sq t0;
          t0 \<leftarrow> fe_sq t0;
          fe_mul t0 uv7 }"

definition fe_divpowm1 :: "fe \<Rightarrow> fe \<Rightarrow> fe option" where
  "fe_divpowm1 u v =
     do { v3 \<leftarrow> fe_sq v;
          v3 \<leftarrow> fe_mul v3 v;
          uv7 \<leftarrow> fe_sq v3;
          uv7 \<leftarrow> fe_mul uv7 v;
          uv7 \<leftarrow> fe_mul uv7 u;
          t0 \<leftarrow> fe_pow22523 uv7;
          t0 \<leftarrow> fe_mul t0 v3;
          fe_mul t0 u }"

text \<open>Along such a chain every variable holds a power of the start value; \<open>power_ok z n r\<close> says that
  the computation \<open>r\<close> succeeds with the \<open>n\<close>-th power.\<close>

definition is_power :: "int \<Rightarrow> nat \<Rightarrow> fe \<Rightarrow> bool" where
  "is_power z n f \<longleftrightarrow> fe_within 3 f \<and> fe_val f mod p25519 = z ^ n mod p25519"

definition power_ok :: "int \<Rightarrow> nat \<Rightarrow> fe option \<Rightarrow> bool" where
  "power_ok z n r \<longleftrightarrow> (\<exists>h. r = Some h \<and> fe_snug h \<and> fe_val h mod p25519 = z ^ n mod p25519)"

lemma snug_within_3: "fe_snug f \<Longrightarrow> fe_within 3 f"
  by (rule within_mono [OF snug_within]) simp_all

lemma power_mul:
  assumes "is_power z m f" "is_power z n g" "m + n = s"
  shows "power_ok z s (fe_mul f g)"
  using fe_mul_correct [of f g] assms
  by (auto simp: is_power_def power_ok_def power_add) (metis mod_mult_eq)

lemma power_sq: "is_power z m f \<Longrightarrow> 2 * m = s \<Longrightarrow> power_ok z s (fe_sq f)"
  using fe_sq_correct [of f]
  by (auto simp: is_power_def power_ok_def mult_2 power_add) (metis mod_mult_eq)

lemma power_bind:
  assumes "power_ok z s r" "\<And>h. is_power z s h \<Longrightarrow> power_ok z n (k h)"
  shows "power_ok z n (r \<bind> k)"
  using assms by (auto simp: power_ok_def is_power_def dest: snug_within_3)

lemma power_bind_mul:
  "is_power z m f \<Longrightarrow> is_power z m' g \<Longrightarrow> m + m' = s \<Longrightarrow>
   (\<And>h. is_power z s h \<Longrightarrow> power_ok z n (k h)) \<Longrightarrow> power_ok z n (fe_mul f g \<bind> k)"
  by (rule power_bind [OF power_mul])

lemma power_bind_sq:
  "is_power z m f \<Longrightarrow> 2 * m = s \<Longrightarrow> (\<And>h. is_power z s h \<Longrightarrow> power_ok z n (k h)) \<Longrightarrow> power_ok z n (fe_sq f \<bind> k)"
  by (rule power_bind [OF power_sq])

lemma power_sqn: "is_power z m f \<Longrightarrow> \<exists>h. fe_sqn i f = Some h \<and> is_power z (2 ^ i * m) h"
proof (induction i arbitrary: f m)
  case (Suc i)
  then obtain g where "fe_sq f = Some g" "is_power z (2 * m) g"
    using power_sq [OF Suc.prems refl] by (auto simp: power_ok_def is_power_def dest: snug_within_3)
  then show ?case using Suc.IH [of "2 * m" g] by (simp add: mult_ac)
qed simp

lemma power_bind_sqn:
  "is_power z m f \<Longrightarrow> 2 ^ i * m = s \<Longrightarrow> (\<And>h. is_power z s h \<Longrightarrow> power_ok z n (k h)) \<Longrightarrow> power_ok z n (fe_sqn i f \<bind> k)"
  using power_sqn [of z m f i] by auto

lemma fe_invert_power: "is_power z 1 f \<Longrightarrow> power_ok z (2 ^ 255 - 21) (fe_invert f)"
  unfolding fe_invert_def
  by ((rule power_bind_sq, assumption, simp) | (rule power_bind_mul, assumption, assumption, simp)
      | (rule power_bind_sqn, assumption, simp) | (rule power_mul, assumption, assumption, simp))+

lemma fe_pow22523_power: "is_power z 1 f \<Longrightarrow> power_ok z (2 ^ 252 - 3) (fe_pow22523 f)"
  unfolding fe_pow22523_def
  by ((rule power_bind_sq, assumption, simp) | (rule power_bind_mul, assumption, assumption, simp)
      | (rule power_bind_sqn, assumption, simp) | (rule power_mul, assumption, assumption, simp))+

end
