(* ===== verification/Field_Bytes.thy ===== *)
theory Field_Bytes
  imports Field Scalar_Ops
begin

text \<open>
  Field elements and byte strings: \<open>fe_tobytes\<close> with the tests \<open>fe_isnegative\<close> and \<open>fe_isnonzero\<close> that
  rest on it, and the loading of an element that \<open>ge_frombytes_vartime\<close> and
  \<open>ge_fromfe_frombytes_vartime\<close> of \<^verbatim>\<open>crypto-ops.c\<close> begin with.
\<close>

unbundle bit_operations_syntax

section \<open>The code\<close>

text \<open>The quotient by \<open>p\<close>, rounded down, limb by limb.\<close>

definition fe_quotient :: "fe \<Rightarrow> int option" where
  "fe_quotient h =
     do { m \<leftarrow> checked 32 (19 * h ! 9);
          q \<leftarrow> checked 32 (m + 2 ^ 24); let q = q div 2 ^ 25;
          q \<leftarrow> checked 32 (h ! 0 + q); let q = q div 2 ^ 26;
          q \<leftarrow> checked 32 (h ! 1 + q); let q = q div 2 ^ 25;
          q \<leftarrow> checked 32 (h ! 2 + q); let q = q div 2 ^ 26;
          q \<leftarrow> checked 32 (h ! 3 + q); let q = q div 2 ^ 25;
          q \<leftarrow> checked 32 (h ! 4 + q); let q = q div 2 ^ 26;
          q \<leftarrow> checked 32 (h ! 5 + q); let q = q div 2 ^ 25;
          q \<leftarrow> checked 32 (h ! 6 + q); let q = q div 2 ^ 26;
          q \<leftarrow> checked 32 (h ! 7 + q); let q = q div 2 ^ 25;
          q \<leftarrow> checked 32 (h ! 8 + q); let q = q div 2 ^ 26;
          q \<leftarrow> checked 32 (h ! 9 + q);
          Some (q div 2 ^ 25) }"

definition tobytes_carries :: "limb_op list" where
  "tobytes_carries =
     [Floor 0 26, Floor 1 25, Floor 2 26, Floor 3 25, Floor 4 26, Floor 5 25, Floor 6 26, Floor 7 25, Floor 8 26, Drop 9 25]"

definition store_fe :: "int list \<Rightarrow> bytes" where
  "store_fe h = map word_of_int
     [drop_bit 0 (h ! 0),
      drop_bit 8 (h ! 0),
      drop_bit 16 (h ! 0),
      drop_bit 24 (h ! 0) OR push_bit 2 (h ! 1),
      drop_bit 6 (h ! 1),
      drop_bit 14 (h ! 1),
      drop_bit 22 (h ! 1) OR push_bit 3 (h ! 2),
      drop_bit 5 (h ! 2),
      drop_bit 13 (h ! 2),
      drop_bit 21 (h ! 2) OR push_bit 5 (h ! 3),
      drop_bit 3 (h ! 3),
      drop_bit 11 (h ! 3),
      drop_bit 19 (h ! 3) OR push_bit 6 (h ! 4),
      drop_bit 2 (h ! 4),
      drop_bit 10 (h ! 4),
      drop_bit 18 (h ! 4),
      drop_bit 0 (h ! 5),
      drop_bit 8 (h ! 5),
      drop_bit 16 (h ! 5),
      drop_bit 24 (h ! 5) OR push_bit 1 (h ! 6),
      drop_bit 7 (h ! 6),
      drop_bit 15 (h ! 6),
      drop_bit 23 (h ! 6) OR push_bit 3 (h ! 7),
      drop_bit 5 (h ! 7),
      drop_bit 13 (h ! 7),
      drop_bit 21 (h ! 7) OR push_bit 4 (h ! 8),
      drop_bit 4 (h ! 8),
      drop_bit 12 (h ! 8),
      drop_bit 20 (h ! 8) OR push_bit 6 (h ! 9),
      drop_bit 2 (h ! 9),
      drop_bit 10 (h ! 9),
      drop_bit 18 (h ! 9)]"

definition fe_tobytes :: "fe \<Rightarrow> bytes option" where
  "fe_tobytes h =
     do { q \<leftarrow> fe_quotient h;
          m \<leftarrow> checked 32 (19 * q);
          h0 \<leftarrow> checked 32 (h ! 0 + m);
          k \<leftarrow> exec 32 tobytes_carries (h[0 := h0]);
          Some (store_fe k) }"

definition fe_isnegative :: "fe \<Rightarrow> int option" where
  "fe_isnegative f = do { s \<leftarrow> fe_tobytes f; Some (uint (s ! 0 AND 1)) }"

definition fe_isnonzero :: "fe \<Rightarrow> int option" where
  "fe_isnonzero f =
     do { s \<leftarrow> fe_tobytes f;
          Some ((uint (foldl (OR) (s ! 0) (map ((!) s) [1..<32])) - 1) div 2 ^ 8 + 1) }"

text \<open>The limbs that are loaded from 32 bytes, with or without the top bit, and their carries.\<close>

definition load_fe :: "bytes \<Rightarrow> int list" where
  "load_fe s = map sint
     [load_4 s,
      push_bit 6 (load_3 (drop 4 s)),
      push_bit 5 (load_3 (drop 7 s)),
      push_bit 3 (load_3 (drop 10 s)),
      push_bit 2 (load_3 (drop 13 s)),
      load_4 (drop 16 s),
      push_bit 7 (load_3 (drop 20 s)),
      push_bit 5 (load_3 (drop 23 s)),
      push_bit 4 (load_3 (drop 26 s)),
      push_bit 2 (load_3 (drop 29 s))]"

definition load_fe_masked :: "bytes \<Rightarrow> int list" where
  "load_fe_masked s = (load_fe s)[9 := sint (push_bit 2 (load_3 (drop 29 s) AND 8388607))]"

definition frombytes_carries :: "limb_op list" where
  "frombytes_carries =
     [Wrap 9 25 19, Round 1 25, Round 3 25, Round 5 25, Round 7 25,
      Round 0 26, Round 2 26, Round 4 26, Round 6 26, Round 8 26]"

definition fe_carry_loaded :: "int list \<Rightarrow> fe option" where
  "fe_carry_loaded h = do { h \<leftarrow> exec 64 frombytes_carries h; Some (map (narrow 32) h) }"

text \<open>The test for a number of \<open>p\<close> or more, on the loaded limbs.\<close>

definition not_canonical :: "int list \<Rightarrow> bool" where
  "not_canonical h \<longleftrightarrow>
     h ! 9 = 33554428 \<and> h ! 8 = 268435440 \<and> h ! 7 = 536870880 \<and> h ! 6 = 2147483520 \<and> h ! 5 = 4294967295 \<and>
     h ! 4 = 67108860 \<and> h ! 3 = 134217720 \<and> h ! 2 = 536870880 \<and> h ! 1 = 1073741760 \<and> 4294967277 \<le> h ! 0"

section \<open>Division by the prime\<close>

lemma div_upper: "2 ^ w * (x div 2 ^ w) \<le> (x :: int)"
  using mult_div_mod_eq [of "2 ^ w" x] pos_mod_sign [of "2 ^ w" x] zero_less_power [of "2 :: int" w] by linarith

lemma div_lower: "(x :: int) < 2 ^ w * (x div 2 ^ w) + 2 ^ w"
  using mult_div_mod_eq [of "2 ^ w" x] pos_mod_bound [of "2 ^ w" x] zero_less_power [of "2 :: int" w] by linarith

lemma floor_step: "0 < m \<Longrightarrow> 0 < n \<Longrightarrow> (b + a div m) div n = (a + m * b) div (m * n)" for a b m n :: int
  by (simp add: div_mult_mult1 zdiv_zmult2_eq)

text \<open>The estimate of the quotient from the top limb is good enough.\<close>

lemma quotient_exact:
  fixes F :: int
  assumes L: "\<bar>F - 2 ^ 230 * h9\<bar> < 2 ^ 231" and h9: "\<bar>h9\<bar> \<le> 36909874"
  shows "(F + (19 * h9 + 2 ^ 24) div 2 ^ 25) div 2 ^ 255 = F div p25519"
proof -
  define r q q0 where "r = F mod p25519" and "q = F div p25519" and "q0 = (19 * h9 + 2 ^ 24) div 2 ^ 25"
  have F: "F = p25519 * q + r" by (simp add: r_def q_def)
  have r: "0 \<le> r" "r < p25519" by (simp_all add: r_def p25519_def)
  have q0: "2 ^ 25 * q0 \<le> 19 * h9 + 2 ^ 24" "19 * h9 + 2 ^ 24 < 2 ^ 25 * q0 + 2 ^ 25"
    unfolding q0_def by (rule div_upper div_lower)+
  have "- (3 * p25519) < F" "F < 3 * p25519" using L h9 by (simp_all add: p25519_def abs_le_iff abs_less_iff)
  then have q: "- 3 \<le> q" "q \<le> 3" using F r by (simp_all add: p25519_def)
  have "0 \<le> r - 19 * q + q0" "r - 19 * q + q0 < 2 ^ 255"
    using F r q0 q L by (simp_all add: p25519_def abs_less_iff)
  moreover have "F + q0 = 2 ^ 255 * q + (r - 19 * q + q0)" unfolding F by (simp add: p25519_def algebra_simps)
  ultimately show ?thesis unfolding q_def [symmetric] q0_def [symmetric] by simp
qed

lemma quotient_step:
  fixes h q :: int
  assumes "\<bar>h\<bar> \<le> 2 ^ 30" "\<bar>q\<bar> \<le> 64" "w = 25 \<or> w = 26"
  shows "checked 32 (h + q) = Some (h + q)" "\<bar>(h + q) div 2 ^ w\<bar> \<le> 64"
  using assms div_upper [of w "h + q"] div_lower [of "h + q" w] by (auto simp: fits_def abs_le_iff)

lemma fe_quotient_correct:
  assumes "fe_within 2 h"
  shows "fe_quotient h = Some (fe_val h div p25519)" "\<bar>fe_val h div p25519\<bar> \<le> 64"
proof -
  obtain h0 h1 h2 h3 h4 h5 h6 h7 h8 h9 where h: "h = [h0, h1, h2, h3, h4, h5, h6, h7, h8, h9]"
    using list_10_ex [OF length_within [OF assms]] by blast
  have b: "\<bar>h0\<bar> \<le> 73819750" "\<bar>h1\<bar> \<le> 36909874" "\<bar>h2\<bar> \<le> 73819750" "\<bar>h3\<bar> \<le> 36909874" "\<bar>h4\<bar> \<le> 73819750"
    "\<bar>h5\<bar> \<le> 36909874" "\<bar>h6\<bar> \<le> 73819750" "\<bar>h7\<bar> \<le> 36909874" "\<bar>h8\<bar> \<le> 73819750" "\<bar>h9\<bar> \<le> 36909874"
    using assms unfolding h fe_within_10 by simp_all
  define q0 where "q0 = (19 * h9 + 2 ^ 24) div 2 ^ 25"
  define q1 where "q1 = (h0 + q0) div 2 ^ 26"
  define q2 where "q2 = (h1 + q1) div 2 ^ 25"
  define q3 where "q3 = (h2 + q2) div 2 ^ 26"
  define q4 where "q4 = (h3 + q3) div 2 ^ 25"
  define q5 where "q5 = (h4 + q4) div 2 ^ 26"
  define q6 where "q6 = (h5 + q5) div 2 ^ 25"
  define q7 where "q7 = (h6 + q6) div 2 ^ 26"
  define q8 where "q8 = (h7 + q7) div 2 ^ 25"
  define q9 where "q9 = (h8 + q8) div 2 ^ 26"
  define q where "q = (h9 + q9) div 2 ^ 25"
  note qs = q0_def q1_def q2_def q3_def q4_def q5_def q6_def q7_def q8_def q9_def q_def
  have c: "checked 32 (19 * h9) = Some (19 * h9)" "checked 32 (19 * h9 + 2 ^ 24) = Some (19 * h9 + 2 ^ 24)"
    using b(10) by (simp_all add: fits_def abs_le_iff)
  have r0: "\<bar>q0\<bar> \<le> 64" using b(10) div_upper [of 25 "19 * h9 + 2 ^ 24"] div_lower [of "19 * h9 + 2 ^ 24" 25]
    unfolding q0_def abs_le_iff by simp
  have w: "\<bar>h0\<bar> \<le> 2 ^ 30" "\<bar>h1\<bar> \<le> 2 ^ 30" "\<bar>h2\<bar> \<le> 2 ^ 30" "\<bar>h3\<bar> \<le> 2 ^ 30" "\<bar>h4\<bar> \<le> 2 ^ 30"
    "\<bar>h5\<bar> \<le> 2 ^ 30" "\<bar>h6\<bar> \<le> 2 ^ 30" "\<bar>h7\<bar> \<le> 2 ^ 30" "\<bar>h8\<bar> \<le> 2 ^ 30" "\<bar>h9\<bar> \<le> 2 ^ 30"
    by (rule order_trans [OF b(1)] order_trans [OF b(2)] order_trans [OF b(3)] order_trans [OF b(4)] order_trans [OF b(5)]
      order_trans [OF b(6)] order_trans [OF b(7)] order_trans [OF b(8)] order_trans [OF b(9)] order_trans [OF b(10)], simp)+
  note r1 = quotient_step [OF _ r0 disjI2 [OF refl], of h0, folded q1_def, OF w(1)]
  note r2 = quotient_step [OF _ r1(2) disjI1 [OF refl], of h1, folded q2_def, OF w(2)]
  note r3 = quotient_step [OF _ r2(2) disjI2 [OF refl], of h2, folded q3_def, OF w(3)]
  note r4 = quotient_step [OF _ r3(2) disjI1 [OF refl], of h3, folded q4_def, OF w(4)]
  note r5 = quotient_step [OF _ r4(2) disjI2 [OF refl], of h4, folded q5_def, OF w(5)]
  note r6 = quotient_step [OF _ r5(2) disjI1 [OF refl], of h5, folded q6_def, OF w(6)]
  note r7 = quotient_step [OF _ r6(2) disjI2 [OF refl], of h6, folded q7_def, OF w(7)]
  note r8 = quotient_step [OF _ r7(2) disjI1 [OF refl], of h7, folded q8_def, OF w(8)]
  note r9 = quotient_step [OF _ r8(2) disjI2 [OF refl], of h8, folded q9_def, OF w(9)]
  note rq = quotient_step [OF _ r9(2) disjI1 [OF refl], of h9, folded q_def, OF w(10)]
  have "fe_quotient h = Some q"
    unfolding fe_quotient_def h Let_def nth_10
    by (simp only: c Option.bind_lunit r1 r2 r3 r4 r5 r6 r7 r8 r9 rq qs [symmetric])
  moreover have "q = (fe_val h + q0) div 2 ^ 255"
    unfolding q_def q9_def q8_def q7_def q6_def q5_def q4_def q3_def q2_def q1_def h fe_val_10
    by (simp add: floor_step algebra_simps)
  moreover have "\<bar>fe_val h - 2 ^ 230 * h9\<bar> < 2 ^ 231"
    unfolding h fe_val_10 using b by (simp add: abs_less_iff abs_le_iff)
  ultimately show "fe_quotient h = Some (fe_val h div p25519)" "\<bar>fe_val h div p25519\<bar> \<le> 64"
    using quotient_exact [of "fe_val h" h9] b(10) rq(2) by (simp_all add: q0_def)
qed

section \<open>Canonical bytes\<close>

text \<open>The canonical encoding of a residue.\<close>

definition encode_fe :: "int \<Rightarrow> bytes" where
  "encode_fe x = map (\<lambda>k. word_of_int (drop_bit (8 * k) (x mod p25519))) [0..<32]"

definition tobytes_bounds :: "ivl list" where
  "tobytes_bounds = map (\<lambda>w. (- (2 ^ (w + 1)), 2 ^ (w + 1))) fe_widths"

lemma bounded_tobytes: "bounded 32 tobytes_carries tobytes_bounds (map (\<lambda>w. (0, 2 ^ w - 1)) fe_widths)"
  by code_simp

lemma weigh_tobytes: "weigh (2 ^ 255) tobytes_carries (powers fe_widths) = Some (powers fe_widths)"
  by code_simp

lemma residue_range: "0 \<le> x mod p25519" "x mod p25519 < 2 ^ 255 - 19"
  using pos_mod_bound [of p25519 x] by (simp_all add: p25519_def)

lemma length_fe_widths [simp]: "length fe_widths = 10"
  by (simp add: fe_widths_def)

lemma sum_fe_widths [simp]: "sum_list fe_widths = 255"
  by (simp add: fe_widths_def)

lemma store_fe_limbs:
  assumes "0 \<le> V" "V < 2 ^ 255"
  shows "store_fe (limbs fe_widths V) = map (\<lambda>k. word_of_int (drop_bit (8 * k) V)) [0..<32]"
proof -
  have u: "[0..<32] = [0, 1, 2, 3, 4, 5, 6, 7, 8, 9, 10, 11, 12, 13, 14, 15, 16, 17, 18, 19, 20, 21, 22, 23, 24, 25, 26, 27, 28, 29, 30, 31]"
    by code_simp
  have top: "take_bit 25 (drop_bit 230 V) = take_bit 26 (drop_bit 230 V)"
    using assms by (simp add: take_bit_int_eq_self drop_bit_eq_div take_bit_eq_mod)
  show ?thesis
    unfolding u
    using stored_byte_across [of 26 24 2 25 26 0 V] stored_byte [of 8 26 0 V] stored_byte [of 16 26 0 V]
      stored_byte_across [of 25 24 1 26 153 128 V]
    by (simp add: store_fe_def fe_widths_def drop_bit_drop_bit stored_byte stored_byte_0 stored_byte_across top)
qed

lemma fe_tobytes_correct:
  assumes "fe_within 2 f"
  shows "fe_tobytes f = Some (encode_fe (fe_val f))"
proof -
  let ?q = "fe_val f div p25519" and ?r = "fe_val f mod p25519"
  note q = fe_quotient_correct [OF assms]
  have len: "length f = 10" using assms by (rule length_within)
  have f0: "\<bar>f ! 0\<bar> \<le> 73819750" using within_nth [OF assms, of 0] by simp
  have c: "checked 32 (19 * ?q) = Some (19 * ?q)" "checked 32 (f ! 0 + 19 * ?q) = Some (f ! 0 + 19 * ?q)"
    using q(2) f0 by (simp_all add: fits_def abs_le_iff)
  let ?h = "f[0 := f ! 0 + 19 * ?q]"
  have v: "fe_val ?h = ?r + 2 ^ 255 * ?q"
    using len mult_div_mod_eq [of p25519 "fe_val f"]
    by (simp add: fe_val_def weighted_update powers_def fe_widths_def p25519_def algebra_simps)
  have "inside ?h tobytes_bounds"
  proof -
    have "- 134217728 \<le> f ! 0 + 19 * ?q" "f ! 0 + 19 * ?q \<le> 134217728" using q(2) f0 by (simp_all add: abs_le_iff)
    moreover have "inside f tobytes_bounds" using assms unfolding fe_within_def by (rule inside_mono) code_simp
    ultimately have "inside ?h (tobytes_bounds[0 := (- 134217728, 134217728)])" by (intro inside_update) (simp_all add: in_ivl_def)
    moreover have "tobytes_bounds[0 := (- 134217728, 134217728)] = tobytes_bounds" by code_simp
    ultimately show ?thesis by simp
  qed
  from bounded_sound [OF bounded_tobytes this] obtain k where
    k: "exec 32 tobytes_carries ?h = Some k" "inside k (map (\<lambda>w. (0, 2 ^ w - 1)) fe_widths)" by blast
  have "fe_val k mod 2 ^ 255 = ?r"
    using weigh_sound [OF weigh_tobytes k(1)] len v residue_range [of "fe_val f"] by (simp add: fe_val_def)
  moreover have "0 \<le> fe_val k" "fe_val k < 2 ^ 255"
    using weighted_powers_bounds [of k fe_widths] k(2) by (simp_all add: fe_val_def)
  ultimately have kr: "fe_val k = ?r" by simp
  have "limbs fe_widths (fe_val k) = k"
    unfolding fe_val_def using k(2) by (intro limbs_unique) (auto simp: inside_def)
  then have "store_fe k = encode_fe (fe_val f)"
    using store_fe_limbs [of ?r] residue_range [of "fe_val f"] unfolding kr encode_fe_def by simp
  then show ?thesis unfolding fe_tobytes_def q(1) Option.bind_lunit c k(1) by simp
qed

lemma le_val_encode_fe: "le_val (encode_fe x) = x mod p25519" "length (encode_fe x) = 32"
  using le_val_of_bytes [of "x mod p25519" 32] residue_range [of x]
  by (simp_all add: encode_fe_def take_bit_int_eq_self)

lemma fe_isnegative_correct: "fe_within 2 f \<Longrightarrow> fe_isnegative f = Some (fe_val f mod p25519 mod 2)"
proof -
  have "encode_fe x ! 0 = word_of_int (x mod p25519)" for x
    by (simp add: encode_fe_def)
  moreover have "uint ((word_of_int y :: byte) AND 1) = y mod 2" for y
    by (subst uint_and) (simp only: uint_1 and_one_eq, simp add: uint_word_of_int_eq take_bit_eq_mod mod_mod_cancel)
  ultimately show "fe_within 2 f \<Longrightarrow> ?thesis"
    by (simp only: fe_isnegative_def fe_tobytes_correct Option.bind_lunit)
qed

lemma fe_isnonzero_correct: "fe_within 2 f \<Longrightarrow> fe_isnonzero f = Some (if fe_val f mod p25519 = 0 then 0 else 1)"
  using sc_isnonzero_result [of "encode_fe (fe_val f)"]
  by (simp add: fe_isnonzero_def fe_tobytes_correct sc_isnonzero_def le_val_encode_fe)

section \<open>Loaded elements\<close>

definition loaded_widths :: "nat list" where
  "loaded_widths = [32, 24, 24, 24, 24, 32, 24, 24, 24, 24]"

definition masked_widths :: "nat list" where
  "masked_widths = [32, 24, 24, 24, 24, 32, 24, 24, 24, 23]"

definition load_shifts :: "int list" where
  "load_shifts = [1, 64, 32, 8, 4, 1, 128, 32, 16, 4]"

lemma sint_push_bit:
  assumes "uint (x :: u64) = v" "v < 2 ^ 32" "r \<le> 30"
  shows "sint (push_bit r x) = 2 ^ r * v"
proof -
  have "0 \<le> v" using assms(1) by auto
  moreover have "(2 :: int) ^ r \<le> 2 ^ 30" using assms(3) by (rule power_increasing) simp
  ultimately have "2 ^ r * v \<le> 2 ^ 30 * 2 ^ 32" "0 \<le> 2 ^ r * v" using assms(2) by (intro mult_mono mult_nonneg_nonneg; simp)+
  moreover have "uint (push_bit r x) = take_bit 64 (push_bit r v)" by (subst unsigned_push_bit_eq) (simp add: assms(1))
  ultimately have "uint (push_bit r x) = 2 ^ r * v" "2 ^ r * v < 2 ^ 63"
    by (simp_all add: push_bit_eq_mult take_bit_int_eq_self mult.commute [of v])
  then show ?thesis by (simp only: sint_small)
qed

lemma shifted_load:
  assumes "k + 3 \<le> length s" "r \<le> 30"
  shows "sint (push_bit r (load_3 (drop k s))) = 2 ^ r * take_bit 24 (drop_bit (8 * k) (le_val s))"
proof (rule sint_push_bit [OF _ _ assms(2)])
  show "uint (load_3 (drop k s)) = take_bit 24 (drop_bit (8 * k) (le_val s))" using assms by (simp add: load_3_le_val le_val_bits)
  show "take_bit 24 (drop_bit (8 * k) (le_val s)) < 2 ^ 32" using take_bit_int_less_exp [of 24 "drop_bit (8 * k) (le_val s)"] by simp
qed

lemma shifted_masked_load:
  assumes "length s = 32"
  shows "sint (push_bit 2 (load_3 (drop 29 s) AND 8388607)) = 2 ^ 2 * take_bit 23 (drop_bit 232 (le_val s))"
proof (rule sint_push_bit)
  have m: "(8388607 :: u64) = mask 23" by (simp add: mask_eq_exp_minus_1)
  show "uint (load_3 (drop 29 s) AND 8388607) = take_bit 23 (drop_bit 232 (le_val s))"
    using assms unfolding m by (simp add: load_3_le_val le_val_bits flip: take_bit_eq_mask) (simp add: unsigned_take_bit_eq load_3_le_val le_val_bits)
  show "take_bit 23 (drop_bit 232 (le_val s)) < 2 ^ 32" using take_bit_int_less_exp [of 23 "drop_bit 232 (le_val s)"] by simp
qed simp

lemma load_fe_limbs: "length s = 32 \<Longrightarrow> load_fe s = map2 (*) load_shifts (limbs loaded_widths (le_val s))"
  using load_top [of 0 s 0]
  by (simp add: load_fe_def load_shifts_def loaded_widths_def shifted_load load_top [where r = 0, simplified] drop_bit_drop_bit)

lemma load_fe_masked_limbs: "length s = 32 \<Longrightarrow> load_fe_masked s = map2 (*) load_shifts (limbs masked_widths (le_val s))"
  by (simp only: load_fe_masked_def load_fe_limbs shifted_masked_load) (simp add: load_shifts_def loaded_widths_def masked_widths_def drop_bit_drop_bit)

lemma shifted_weights: "map2 (*) load_shifts (powers fe_widths) = powers loaded_widths" "powers masked_widths = powers loaded_widths"
  by code_simp+

lemma weighted_shifts:
  "length a = length W \<Longrightarrow> length h = length W \<Longrightarrow> weighted W (map2 (*) a h) = weighted (map2 (*) a W) h"
proof (induction W arbitrary: a h)
  case (Cons w W)
  then show ?case by (cases a; cases h) (simp_all add: mult_ac)
qed simp

lemma fe_val_load_fe:
  assumes "length s = 32"
  shows "fe_val (load_fe s) = le_val s" "fe_val (load_fe_masked s) = le_val s mod 2 ^ 255"
proof -
  have l: "length load_shifts = 10" "length loaded_widths = 10" "length masked_widths = 10"
    "sum_list loaded_widths = 256" "sum_list masked_widths = 255"
    by (simp_all add: load_shifts_def loaded_widths_def masked_widths_def)
  have "le_val s < 2 ^ 256" using le_val_less [of s] assms by simp
  moreover have "fe_val (load_fe s) = weighted (powers loaded_widths) (limbs loaded_widths (le_val s))"
    using l by (simp add: load_fe_limbs [OF assms] fe_val_def weighted_shifts flip: shifted_weights(1))
  ultimately show "fe_val (load_fe s) = le_val s" by (simp add: weighted_limbs l take_bit_int_eq_self)
  have "fe_val (load_fe_masked s) = weighted (powers masked_widths) (limbs masked_widths (le_val s))"
    using l by (simp add: load_fe_masked_limbs [OF assms] fe_val_def weighted_shifts shifted_weights(2) flip: shifted_weights(1))
  then show "fe_val (load_fe_masked s) = le_val s mod 2 ^ 255" by (simp add: weighted_limbs l take_bit_eq_mod)
qed

definition loaded_bounds :: "ivl list" where
  "loaded_bounds = map2 (\<lambda>a w. (0, a * (2 ^ w - 1))) load_shifts loaded_widths"

lemma bounded_frombytes:
  "bounded 64 frombytes_carries loaded_bounds
     (map (\<lambda>w. if w = 26 then (- 36909875, 36909875) else (- 18454937, 18454937)) fe_widths)"
  by code_simp

lemma weigh_frombytes: "weigh p25519 frombytes_carries (powers fe_widths) = Some (powers fe_widths)"
  by code_simp

lemma inside_shifted:
  "inside h (map (\<lambda>w. (0, 2 ^ w - 1)) ws) \<Longrightarrow> length a = length ws \<Longrightarrow> (\<And>x. x \<in> set a \<Longrightarrow> 0 \<le> x) \<Longrightarrow>
   inside (map2 (*) a h) (map2 (\<lambda>a w. (0, a * (2 ^ w - 1))) a ws)"
  by (auto simp: inside_def intro!: mult_nonneg_nonneg mult_left_mono)

lemma load_fe_bounds:
  assumes "length s = 32"
  shows "inside (load_fe s) loaded_bounds" "inside (load_fe_masked s) loaded_bounds"
proof -
  have m: "inside (map2 (*) load_shifts (limbs ws V)) (map2 (\<lambda>a w. (0, a * (2 ^ w - 1))) load_shifts ws)"
    if "length ws = 10" for ws V
    using that by (intro inside_shifted inside_limbs) (auto simp: load_shifts_def)
  show "inside (load_fe s) loaded_bounds"
    unfolding load_fe_limbs [OF assms] loaded_bounds_def by (rule m) (simp add: loaded_widths_def)
  have "inside (load_fe_masked s) (map2 (\<lambda>a w. (0, a * (2 ^ w - 1))) load_shifts masked_widths)"
    unfolding load_fe_masked_limbs [OF assms] by (rule m) (simp add: masked_widths_def)
  then show "inside (load_fe_masked s) loaded_bounds" by (rule inside_mono) code_simp
qed

lemma fe_carry_loaded_correct:
  assumes "inside h loaded_bounds"
  shows "\<exists>k. fe_carry_loaded h = Some k \<and> fe_within 1 k \<and> fe_val k mod p25519 = fe_val h mod p25519"
proof -
  from bounded_sound [OF bounded_frombytes assms] obtain k where k: "exec 64 frombytes_carries h = Some k"
    and *: "inside k (map (\<lambda>w. if w = 26 then (- 36909875, 36909875) else (- 18454937, 18454937)) fe_widths)" by blast
  from * have w: "fe_within 1 k" by (simp add: fe_within_def cong: if_cong)
  have "fits 32 (k ! i)" if "i < 10" for i
    using within_nth [OF w that] by (auto simp: fits_def abs_le_iff split: if_splits)
  then have "map (narrow 32) k = k"
    using length_within [OF w] by (intro map_idI) (metis in_set_conv_nth narrow_fits zero_less_numeral)
  moreover have "fe_val k mod p25519 = fe_val h mod p25519"
    unfolding fe_val_def using weigh_sound [OF weigh_frombytes k] assms
    by (simp add: inside_def loaded_bounds_def load_shifts_def loaded_widths_def)
  ultimately show ?thesis using k w by (simp add: fe_carry_loaded_def)
qed

lemma not_canonical_iff:
  assumes "length s = 32"
  shows "not_canonical (load_fe_masked s) \<longleftrightarrow> p25519 \<le> le_val s mod 2 ^ 255"
proof -
  let ?l = "limbs masked_widths (le_val s)"
  have len: "length ?l = 10" by (simp add: masked_widths_def)
  obtain l0 l1 l2 l3 l4 l5 l6 l7 l8 l9 where l: "?l = [l0, l1, l2, l3, l4, l5, l6, l7, l8, l9]"
    using list_10_ex [OF len] by blast
  have b: "0 \<le> l0" "l0 \<le> 2 ^ 32 - 1" "l1 \<le> 2 ^ 24 - 1" "l2 \<le> 2 ^ 24 - 1" "l3 \<le> 2 ^ 24 - 1" "l4 \<le> 2 ^ 24 - 1" "l5 \<le> 2 ^ 32 - 1"
    "l6 \<le> 2 ^ 24 - 1" "l7 \<le> 2 ^ 24 - 1" "l8 \<le> 2 ^ 24 - 1" "l9 \<le> 2 ^ 23 - 1"
    using inside_limbs [of masked_widths "le_val s"] unfolding l by (simp_all add: masked_widths_def in_ivl_def)
  have v: "le_val s mod 2 ^ 255 = l0 + 2 ^ 32 * l1 + 2 ^ 56 * l2 + 2 ^ 80 * l3 + 2 ^ 104 * l4 + 2 ^ 128 * l5 + 2 ^ 160 * l6
     + 2 ^ 184 * l7 + 2 ^ 208 * l8 + 2 ^ 232 * l9"
    using weighted_limbs [of masked_widths "le_val s"] unfolding l by (simp add: masked_widths_def take_bit_eq_mod)
  have n: "not_canonical (load_fe_masked s) \<longleftrightarrow> l9 = 2 ^ 23 - 1 \<and> l8 = 2 ^ 24 - 1 \<and> l7 = 2 ^ 24 - 1 \<and> l6 = 2 ^ 24 - 1 \<and> l5 = 2 ^ 32 - 1
     \<and> l4 = 2 ^ 24 - 1 \<and> l3 = 2 ^ 24 - 1 \<and> l2 = 2 ^ 24 - 1 \<and> l1 = 2 ^ 24 - 1 \<and> 2 ^ 32 - 19 \<le> l0"
    unfolding load_fe_masked_limbs [OF assms] l not_canonical_def by (simp add: load_shifts_def nth_10)
  show ?thesis
  proof
    assume "not_canonical (load_fe_masked s)"
    then show "p25519 \<le> le_val s mod 2 ^ 255" unfolding v n p25519_def by simp
  next
    assume "p25519 \<le> le_val s mod 2 ^ 255"
    then have V: "2 ^ 255 - 19 \<le> l0 + 2 ^ 32 * l1 + 2 ^ 56 * l2 + 2 ^ 80 * l3 + 2 ^ 104 * l4 + 2 ^ 128 * l5 + 2 ^ 160 * l6
     + 2 ^ 184 * l7 + 2 ^ 208 * l8 + 2 ^ 232 * l9" unfolding v p25519_def .
    have 9: "l9 = 2 ^ 23 - 1" using V b by simp
    have 8: "l8 = 2 ^ 24 - 1" using V b unfolding 9 by simp
    have 7: "l7 = 2 ^ 24 - 1" using V b unfolding 9 8 by simp
    have 6: "l6 = 2 ^ 24 - 1" using V b unfolding 9 8 7 by simp
    have 5: "l5 = 2 ^ 32 - 1" using V b unfolding 9 8 7 6 by simp
    have 4: "l4 = 2 ^ 24 - 1" using V b unfolding 9 8 7 6 5 by simp
    have 3: "l3 = 2 ^ 24 - 1" using V b unfolding 9 8 7 6 5 4 by simp
    have 2: "l2 = 2 ^ 24 - 1" using V b unfolding 9 8 7 6 5 4 3 by simp
    have 1: "l1 = 2 ^ 24 - 1" using V b unfolding 9 8 7 6 5 4 3 2 by simp
    have "2 ^ 32 - 19 \<le> l0" using V b unfolding 9 8 7 6 5 4 3 2 1 by simp
    then show "not_canonical (load_fe_masked s)" unfolding n using 1 2 3 4 5 6 7 8 9 by blast
  qed
qed

section \<open>Properties\<close>

text \<open>C6: field multiplication and squaring are exact modulo \<open>p = 2 ^ 255 - 19\<close> and never overflow: for
  factors within the bounds that the comments of the source state (\<open>1.65 * 2 ^ 26, 1.65 * 2 ^ 25, \<dots>\<close>), all
  32-bit and 64-bit intermediate values fit, the result satisfies the tighter bounds of a carried element, and
  its number is the product, the square or twice the square modulo \<open>p\<close>.\<close>

theorem field_products_exact:
  assumes "fe_within 3 f" "fe_within 3 g"
  shows "(\<exists>h. fe_mul f g = Some h \<and> fe_within 1 h \<and> fe_val h mod p25519 = fe_val f * fe_val g mod p25519)
    \<and> (\<exists>h. fe_sq f = Some h \<and> fe_within 1 h \<and> fe_val h mod p25519 = fe_val f ^ 2 mod p25519)
    \<and> (\<exists>h. fe_sq2 f = Some h \<and> fe_within 1 h \<and> fe_val h mod p25519 = 2 * fe_val f ^ 2 mod p25519)"
  using fe_mul_correct [OF assms] fe_sq_correct [OF assms(1)] fe_sq2_correct [OF assms(1)]
  unfolding power2_eq_square by (meson snug_within)

theorem field_products_exact_witness:
  "\<exists>h. fe_mul (replicate 10 50000000) (replicate 10 (- 50000000)) = Some h \<and> fe_within 1 h
     \<and> fe_val h mod p25519 = - (fe_val (replicate 10 50000000) ^ 2) mod p25519"
proof -
  have "fe_within 3 (replicate 10 50000000)" "fe_within 3 (replicate 10 (- 50000000))" by code_simp+
  moreover have "fe_val (replicate 10 50000000) * fe_val (replicate 10 (- 50000000)) = - (fe_val (replicate 10 50000000) ^ 2)" by code_simp
  ultimately show ?thesis using field_products_exact [of "replicate 10 50000000" "replicate 10 (- 50000000)"] by simp
qed

text \<open>C36: the addition chain of \<open>fe_invert\<close> computes the power \<open>z ^ (p - 2)\<close> modulo \<open>p\<close>, which is the
  inverse of \<open>z\<close> by Fermat's little theorem: the chain of 254 squarings and 11 multiplications returns, without
  overflow, an element whose number is that power; in particular, whenever \<open>z ^ (p - 1) = 1\<close> modulo \<open>p\<close>, the
  product with \<open>z\<close> is 1.\<close>

theorem fe_invert_is_inverse:
  assumes "fe_within 3 f"
  shows "\<exists>h. fe_invert f = Some h \<and> fe_within 1 h \<and> fe_val h mod p25519 = fe_val f ^ nat (p25519 - 2) mod p25519
    \<and> (fe_val f ^ nat (p25519 - 1) mod p25519 = 1 \<longrightarrow> fe_val f * fe_val h mod p25519 = 1)"
proof -
  have n: "nat (p25519 - 2) = 2 ^ 255 - 21" "nat (p25519 - 1) = Suc (2 ^ 255 - 21)" by (simp_all add: p25519_def)
  have "is_power (fe_val f) 1 f" using assms by (simp add: is_power_def)
  from fe_invert_power [OF this] obtain h where h: "fe_invert f = Some h" "fe_snug h"
    "fe_val h mod p25519 = fe_val f ^ (2 ^ 255 - 21) mod p25519" unfolding power_ok_def by blast
  have "fe_val f * fe_val h mod p25519 = fe_val f ^ Suc (2 ^ 255 - 21) mod p25519"
    unfolding power_Suc using h(3) by (metis mod_mult_right_eq)
  with h show ?thesis unfolding n using snug_within by fastforce
qed

theorem fe_invert_is_inverse_witness:
  "\<exists>h. fe_invert [2, 0, 0, 0, 0, 0, 0, 0, 0, 0] = Some h \<and> fe_within 1 h \<and> fe_val h mod p25519 = 2 ^ nat (p25519 - 2) mod p25519"
proof -
  have "fe_within 3 [2, 0, 0, 0, 0, 0, 0, 0, 0, 0]" "fe_val [2, 0, 0, 0, 0, 0, 0, 0, 0, 0] = 2" by code_simp+
  then show ?thesis using fe_invert_is_inverse [of "[2, 0, 0, 0, 0, 0, 0, 0, 0, 0]"] by auto
qed

text \<open>C37: \<open>fe_tobytes\<close> produces the canonical 32 bytes of an element: for limbs within the stated bounds
  (\<open>1.1 * 2 ^ 26, 1.1 * 2 ^ 25, \<dots>\<close>) it returns, without overflow, the little-endian bytes of the residue in
  \<open>{0..<p}\<close>, so that two elements get the same bytes exactly if they are equal modulo \<open>p\<close>; \<open>fe_isnegative\<close>
  is the parity of the residue and \<open>fe_isnonzero\<close> tells whether it is different from 0.\<close>

theorem fe_tobytes_canonical:
  assumes "fe_within 2 f" "fe_within 2 g"
  shows "(\<exists>s. fe_tobytes f = Some s \<and> length s = 32 \<and> le_val s = fe_val f mod p25519)
    \<and> (fe_tobytes f = fe_tobytes g \<longleftrightarrow> fe_val f mod p25519 = fe_val g mod p25519)
    \<and> fe_isnegative f = Some (fe_val f mod p25519 mod 2)
    \<and> fe_isnonzero f = Some (if fe_val f mod p25519 = 0 then 0 else 1)"
proof (intro conjI)
  show "\<exists>s. fe_tobytes f = Some s \<and> length s = 32 \<and> le_val s = fe_val f mod p25519"
    using assms by (simp add: fe_tobytes_correct le_val_encode_fe)
  show "fe_tobytes f = fe_tobytes g \<longleftrightarrow> fe_val f mod p25519 = fe_val g mod p25519"
    using assms by (simp add: fe_tobytes_correct) (metis encode_fe_def le_val_encode_fe(1))
qed (use assms in \<open>simp_all add: fe_isnegative_correct fe_isnonzero_correct\<close>)

theorem fe_tobytes_canonical_witness:
  "fe_tobytes [- 19, 0, 0, 0, 0, 0, 0, 0, 0, 33554432] = fe_tobytes (replicate 10 0)
   \<and> fe_isnonzero [- 19, 0, 0, 0, 0, 0, 0, 0, 0, 33554432] = Some 0"
proof -
  have "fe_within 2 [- 19, 0, 0, 0, 0, 0, 0, 0, 0, 33554432]" "fe_within 2 (replicate 10 0)"
    "fe_val [- 19, 0, 0, 0, 0, 0, 0, 0, 0, 33554432] mod p25519 = 0" "fe_val (replicate 10 0) mod p25519 = 0" by code_simp+
  then show ?thesis
    using fe_tobytes_canonical [of "[- 19, 0, 0, 0, 0, 0, 0, 0, 0, 33554432]" "replicate 10 0"] by simp
qed

text \<open>C38: loading 32 bytes and storing them again.  The limbs loaded with the top bit masked out carry,
  without overflow, to an element within the bounds of the additions and multiplications that follow, and
  \<open>fe_tobytes\<close> gives back the number modulo \<open>2 ^ 255\<close> and modulo \<open>p\<close>; the test at the start of
  \<open>ge_frombytes_vartime\<close> rejects exactly the numbers of \<open>p\<close> or more, and all others come back unchanged.\<close>

theorem load_store_field_element:
  assumes "length s = 32"
  shows "(\<exists>f. fe_carry_loaded (load_fe_masked s) = Some f \<and> fe_within 1 f
      \<and> fe_tobytes f = Some (encode_fe (le_val s mod 2 ^ 255)))
    \<and> (not_canonical (load_fe_masked s) \<longleftrightarrow> p25519 \<le> le_val s mod 2 ^ 255)
    \<and> (\<not> not_canonical (load_fe_masked s) \<longrightarrow> le_val (encode_fe (le_val s mod 2 ^ 255)) = le_val s mod 2 ^ 255)"
proof (intro conjI impI)
  obtain f where f: "fe_carry_loaded (load_fe_masked s) = Some f" "fe_within 1 f"
    "fe_val f mod p25519 = fe_val (load_fe_masked s) mod p25519"
    using fe_carry_loaded_correct [OF load_fe_bounds(2) [OF assms]] by blast
  moreover have "fe_tobytes f = Some (encode_fe (fe_val f))"
    using within_mono [OF f(2), of 2] by (simp add: fe_tobytes_correct)
  ultimately show "\<exists>f. fe_carry_loaded (load_fe_masked s) = Some f \<and> fe_within 1 f
      \<and> fe_tobytes f = Some (encode_fe (le_val s mod 2 ^ 255))"
    by (simp add: encode_fe_def fe_val_load_fe [OF assms])
  show nc: "not_canonical (load_fe_masked s) \<longleftrightarrow> p25519 \<le> le_val s mod 2 ^ 255" by (rule not_canonical_iff [OF assms])
  assume "\<not> not_canonical (load_fe_masked s)"
  then show "le_val (encode_fe (le_val s mod 2 ^ 255)) = le_val s mod 2 ^ 255"
    unfolding nc le_val_encode_fe by (intro mod_pos_pos_trivial) simp_all
qed

theorem load_store_field_element_witness:
  "not_canonical (load_fe_masked (replicate 32 255)) \<and> \<not> not_canonical (load_fe_masked (replicate 32 1))
   \<and> (\<exists>f. fe_carry_loaded (load_fe_masked (replicate 32 1)) = Some f \<and> fe_tobytes f = Some (replicate 32 1))"
proof -
  have "p25519 \<le> le_val (replicate 32 255) mod 2 ^ 255" "\<not> p25519 \<le> le_val (replicate 32 1) mod 2 ^ 255"
    "encode_fe (le_val (replicate 32 1) mod 2 ^ 255) = replicate 32 1" by code_simp+
  then show ?thesis
    using load_store_field_element [of "replicate 32 1"] load_store_field_element [of "replicate 32 255"] by auto
qed

end
