(* ===== verification/Group.thy ===== *)
theory Group
  imports Field_Bytes "HOL-Library.Numeral_Type"
begin

text \<open>
  The points of the Ed25519 curve of \<^verbatim>\<open>crypto-ops.c\<close>: the five coordinate systems, addition, subtraction and
  doubling, the conversions between the systems, and points as byte strings.  Coordinates are field elements
  of ten limbs; every function returns \<open>None\<close> where a signed operation overflows or an assertion fails.
\<close>

unbundle bit_operations_syntax

section \<open>Points\<close>

record ge_p2 = p2_X :: fe p2_Y :: fe p2_Z :: fe

record ge_p3 = p3_X :: fe p3_Y :: fe p3_Z :: fe p3_T :: fe

record ge_p1p1 = p1_X :: fe p1_Y :: fe p1_Z :: fe p1_T :: fe

record ge_precomp = pc_yplusx :: fe pc_yminusx :: fe pc_xy2d :: fe

record ge_cached = ca_YplusX :: fe ca_YminusX :: fe ca_Z :: fe ca_T2d :: fe

definition fe_d :: fe where
  "fe_d = [-10913610, 13857413, -15372611, 6949391, 114729, -8787816, -6275908, -3247719, -18696448, -12055116]"

definition fe_sqrtm1 :: fe where
  "fe_sqrtm1 = [-32595792, -7943725, 9377950, 3500415, 12389472, -272473, -25146209, -2005654, 326686, 11406482]"

definition fe_d2 :: fe where
  "fe_d2 = [-21827239, -5839606, -30745221, 13898782, 229458, 15978800, -12551817, -6495438, 29715968, 9444199]"

definition ge_p2_0 :: ge_p2 where
  "ge_p2_0 = \<lparr>p2_X = fe_0, p2_Y = fe_1, p2_Z = fe_1\<rparr>"

definition ge_p3_0 :: ge_p3 where
  "ge_p3_0 = \<lparr>p3_X = fe_0, p3_Y = fe_1, p3_Z = fe_1, p3_T = fe_0\<rparr>"

definition ge_precomp_0 :: ge_precomp where
  "ge_precomp_0 = \<lparr>pc_yplusx = fe_1, pc_yminusx = fe_1, pc_xy2d = fe_0\<rparr>"

definition ge_cached_0 :: ge_cached where
  "ge_cached_0 = \<lparr>ca_YplusX = fe_1, ca_YminusX = fe_1, ca_Z = fe_1, ca_T2d = fe_0\<rparr>"

section \<open>Addition and subtraction\<close>

definition ge_add :: "ge_p3 \<Rightarrow> ge_cached \<Rightarrow> ge_p1p1 option" where
  "ge_add p q =
     do { X \<leftarrow> fe_add (p3_Y p) (p3_X p);
          Y \<leftarrow> fe_sub (p3_Y p) (p3_X p);
          Z \<leftarrow> fe_mul X (ca_YplusX q);
          Y \<leftarrow> fe_mul Y (ca_YminusX q);
          T \<leftarrow> fe_mul (ca_T2d q) (p3_T p);
          X \<leftarrow> fe_mul (p3_Z p) (ca_Z q);
          t0 \<leftarrow> fe_add X X;
          X \<leftarrow> fe_sub Z Y;
          Y \<leftarrow> fe_add Z Y;
          Z \<leftarrow> fe_add t0 T;
          T \<leftarrow> fe_sub t0 T;
          Some \<lparr>p1_X = X, p1_Y = Y, p1_Z = Z, p1_T = T\<rparr> }"

definition ge_sub :: "ge_p3 \<Rightarrow> ge_cached \<Rightarrow> ge_p1p1 option" where
  "ge_sub p q =
     do { X \<leftarrow> fe_add (p3_Y p) (p3_X p);
          Y \<leftarrow> fe_sub (p3_Y p) (p3_X p);
          Z \<leftarrow> fe_mul X (ca_YminusX q);
          Y \<leftarrow> fe_mul Y (ca_YplusX q);
          T \<leftarrow> fe_mul (ca_T2d q) (p3_T p);
          X \<leftarrow> fe_mul (p3_Z p) (ca_Z q);
          t0 \<leftarrow> fe_add X X;
          X \<leftarrow> fe_sub Z Y;
          Y \<leftarrow> fe_add Z Y;
          Z \<leftarrow> fe_sub t0 T;
          T \<leftarrow> fe_add t0 T;
          Some \<lparr>p1_X = X, p1_Y = Y, p1_Z = Z, p1_T = T\<rparr> }"

definition ge_madd :: "ge_p3 \<Rightarrow> ge_precomp \<Rightarrow> ge_p1p1 option" where
  "ge_madd p q =
     do { X \<leftarrow> fe_add (p3_Y p) (p3_X p);
          Y \<leftarrow> fe_sub (p3_Y p) (p3_X p);
          Z \<leftarrow> fe_mul X (pc_yplusx q);
          Y \<leftarrow> fe_mul Y (pc_yminusx q);
          T \<leftarrow> fe_mul (pc_xy2d q) (p3_T p);
          t0 \<leftarrow> fe_add (p3_Z p) (p3_Z p);
          X \<leftarrow> fe_sub Z Y;
          Y \<leftarrow> fe_add Z Y;
          Z \<leftarrow> fe_add t0 T;
          T \<leftarrow> fe_sub t0 T;
          Some \<lparr>p1_X = X, p1_Y = Y, p1_Z = Z, p1_T = T\<rparr> }"

definition ge_msub :: "ge_p3 \<Rightarrow> ge_precomp \<Rightarrow> ge_p1p1 option" where
  "ge_msub p q =
     do { X \<leftarrow> fe_add (p3_Y p) (p3_X p);
          Y \<leftarrow> fe_sub (p3_Y p) (p3_X p);
          Z \<leftarrow> fe_mul X (pc_yminusx q);
          Y \<leftarrow> fe_mul Y (pc_yplusx q);
          T \<leftarrow> fe_mul (pc_xy2d q) (p3_T p);
          t0 \<leftarrow> fe_add (p3_Z p) (p3_Z p);
          X \<leftarrow> fe_sub Z Y;
          Y \<leftarrow> fe_add Z Y;
          Z \<leftarrow> fe_sub t0 T;
          T \<leftarrow> fe_add t0 T;
          Some \<lparr>p1_X = X, p1_Y = Y, p1_Z = Z, p1_T = T\<rparr> }"

section \<open>Doubling and conversions\<close>

definition ge_p2_dbl :: "ge_p2 \<Rightarrow> ge_p1p1 option" where
  "ge_p2_dbl p =
     do { X \<leftarrow> fe_sq (p2_X p);
          Z \<leftarrow> fe_sq (p2_Y p);
          T \<leftarrow> fe_sq2 (p2_Z p);
          Y \<leftarrow> fe_add (p2_X p) (p2_Y p);
          t0 \<leftarrow> fe_sq Y;
          Y \<leftarrow> fe_add Z X;
          Z \<leftarrow> fe_sub Z X;
          X \<leftarrow> fe_sub t0 Y;
          T \<leftarrow> fe_sub T Z;
          Some \<lparr>p1_X = X, p1_Y = Y, p1_Z = Z, p1_T = T\<rparr> }"

definition ge_p3_to_p2 :: "ge_p3 \<Rightarrow> ge_p2" where
  "ge_p3_to_p2 p = \<lparr>p2_X = fe_copy (p3_X p), p2_Y = fe_copy (p3_Y p), p2_Z = fe_copy (p3_Z p)\<rparr>"

definition ge_p3_dbl :: "ge_p3 \<Rightarrow> ge_p1p1 option" where
  "ge_p3_dbl p = ge_p2_dbl (ge_p3_to_p2 p)"

definition ge_p1p1_to_p2 :: "ge_p1p1 \<Rightarrow> ge_p2 option" where
  "ge_p1p1_to_p2 p =
     do { X \<leftarrow> fe_mul (p1_X p) (p1_T p);
          Y \<leftarrow> fe_mul (p1_Y p) (p1_Z p);
          Z \<leftarrow> fe_mul (p1_Z p) (p1_T p);
          Some \<lparr>p2_X = X, p2_Y = Y, p2_Z = Z\<rparr> }"

definition ge_p1p1_to_p3 :: "ge_p1p1 \<Rightarrow> ge_p3 option" where
  "ge_p1p1_to_p3 p =
     do { X \<leftarrow> fe_mul (p1_X p) (p1_T p);
          Y \<leftarrow> fe_mul (p1_Y p) (p1_Z p);
          Z \<leftarrow> fe_mul (p1_Z p) (p1_T p);
          T \<leftarrow> fe_mul (p1_X p) (p1_Y p);
          Some \<lparr>p3_X = X, p3_Y = Y, p3_Z = Z, p3_T = T\<rparr> }"

definition ge_p3_to_cached :: "ge_p3 \<Rightarrow> ge_cached option" where
  "ge_p3_to_cached p =
     do { YplusX \<leftarrow> fe_add (p3_Y p) (p3_X p);
          YminusX \<leftarrow> fe_sub (p3_Y p) (p3_X p);
          T2d \<leftarrow> fe_mul (p3_T p) fe_d2;
          Some \<lparr>ca_YplusX = YplusX, ca_YminusX = YminusX, ca_Z = fe_copy (p3_Z p), ca_T2d = T2d\<rparr> }"

definition ge_mul8 :: "ge_p2 \<Rightarrow> ge_p1p1 option" where
  "ge_mul8 t =
     do { r \<leftarrow> ge_p2_dbl t;
          u \<leftarrow> ge_p1p1_to_p2 r;
          r \<leftarrow> ge_p2_dbl u;
          u \<leftarrow> ge_p1p1_to_p2 r;
          ge_p2_dbl u }"

section \<open>Byte strings\<close>

text \<open>\<open>ge_p3_tobytes\<close> and \<open>ge_tobytes\<close> have the same body; only the coordinates \<open>X\<close>, \<open>Y\<close>, \<open>Z\<close> take part.\<close>

definition point_bytes :: "fe \<Rightarrow> fe \<Rightarrow> fe \<Rightarrow> bytes option" where
  "point_bytes X Y Z =
     do { recip \<leftarrow> fe_invert Z;
          x \<leftarrow> fe_mul X recip;
          y \<leftarrow> fe_mul Y recip;
          s \<leftarrow> fe_tobytes y;
          n \<leftarrow> fe_isnegative x;
          Some (s[31 := s ! 31 XOR word_of_int (push_bit 7 n)]) }"

definition ge_p3_tobytes :: "ge_p3 \<Rightarrow> bytes option" where
  "ge_p3_tobytes h = point_bytes (p3_X h) (p3_Y h) (p3_Z h)"

definition ge_tobytes :: "ge_p2 \<Rightarrow> bytes option" where
  "ge_tobytes h = point_bytes (p2_X h) (p2_Y h) (p2_Z h)"

text \<open>The candidate for \<open>x\<close> from \<open>u / v\<close>: \<open>Inl (- 1)\<close> is the return value of a failed decompression.\<close>

definition point_x :: "fe \<Rightarrow> fe \<Rightarrow> (int + fe) option" where
  "point_x u v =
     do { X \<leftarrow> fe_divpowm1 u v;
          vxx \<leftarrow> fe_sq X;
          vxx \<leftarrow> fe_mul vxx v;
          check \<leftarrow> fe_sub vxx u;
          n \<leftarrow> fe_isnonzero check;
          if n \<noteq> 0
          then do { check \<leftarrow> fe_add vxx u;
                    n \<leftarrow> fe_isnonzero check;
                    if n \<noteq> 0 then Some (Inl (- 1))
                    else do { X \<leftarrow> fe_mul X fe_sqrtm1; Some (Inr X) } }
          else Some (Inr X) }"

definition ge_frombytes_vartime :: "bytes \<Rightarrow> (int + ge_p3) option" where
  "ge_frombytes_vartime s =
     (if not_canonical (load_fe_masked s) then Some (Inl (- 1))
      else do { Y \<leftarrow> fe_carry_loaded (load_fe_masked s);
                u \<leftarrow> fe_sq Y;
                v \<leftarrow> fe_mul u fe_d;
                u \<leftarrow> fe_sub u fe_1;
                v \<leftarrow> fe_add v fe_1;
                r \<leftarrow> point_x u v;
                case r of Inl e \<Rightarrow> Some (Inl e)
                | Inr X \<Rightarrow>
                    do { n \<leftarrow> fe_isnegative X;
                         if n \<noteq> uint (drop_bit 7 (s ! 31))
                         then do { nz \<leftarrow> fe_isnonzero X;
                                   if nz = 0 then Some (Inl (- 1))
                                   else do { X \<leftarrow> fe_neg X;
                                             T \<leftarrow> fe_mul X Y;
                                             Some (Inr \<lparr>p3_X = X, p3_Y = Y, p3_Z = fe_1, p3_T = T\<rparr>) } }
                         else do { T \<leftarrow> fe_mul X Y;
                                   Some (Inr \<lparr>p3_X = X, p3_Y = Y, p3_Z = fe_1, p3_T = T\<rparr>) } } })"

section \<open>The field\<close>

text \<open>The ring of residues modulo \<open>p\<close> as a type.\<close>

type_synonym gf = "57896044618658097711785492504343953926634992332820282019728792003956564819949"

definition elem :: "fe \<Rightarrow> gf" where
  "elem f = of_int (fe_val f)"

lemma card_gf: "int CARD(gf) = p25519"
  by (simp add: p25519_def)

lemma of_int_gf_eq_iff: "(of_int x :: gf) = of_int y \<longleftrightarrow> x mod p25519 = y mod p25519"
proof
  assume "(of_int x :: gf) = of_int y"
  then have "Rep_bit1 (of_int x :: gf) = Rep_bit1 (of_int y :: gf)" by simp
  then have "x mod int CARD(gf) = y mod int CARD(gf)" by (simp only: bit1.of_int_eq bit1.Rep_Abs_mod)
  then show "x mod p25519 = y mod p25519" unfolding card_gf .
next
  assume "x mod p25519 = y mod p25519"
  then show "(of_int x :: gf) = of_int y" unfolding bit1.of_int_eq card_gf by simp
qed

text \<open>\<open>fe_is k v f\<close>: the limbs are within the bounds and the element is \<open>v\<close>; \<open>fe_ok k v r\<close>: the computation
  \<open>r\<close> succeeds with such an element.\<close>

definition fe_is :: "int \<Rightarrow> gf \<Rightarrow> fe \<Rightarrow> bool" where
  "fe_is k v f \<longleftrightarrow> fe_within k f \<and> elem f = v"

definition fe_ok :: "int \<Rightarrow> gf \<Rightarrow> fe option \<Rightarrow> bool" where
  "fe_ok k v r \<longleftrightarrow> (\<exists>h. r = Some h \<and> fe_is k v h)"

lemma fe_is_mono: "fe_is j v f \<Longrightarrow> j \<le> k \<Longrightarrow> fe_is k v f"
  by (auto simp: fe_is_def intro: within_mono)

lemma elem_eq_iff: "elem f = of_int v \<longleftrightarrow> fe_val f mod p25519 = v mod p25519"
  by (simp add: elem_def of_int_gf_eq_iff)

lemma fe_ok_mul: "fe_is j a f \<Longrightarrow> fe_is k b g \<Longrightarrow> j \<le> 3 \<Longrightarrow> k \<le> 3 \<Longrightarrow> fe_ok 1 (a * b) (fe_mul f g)"
  using fe_mul_correct [of f g]
  by (auto simp: fe_is_def fe_ok_def elem_def of_int_gf_eq_iff [symmetric] intro: within_mono snug_within)

lemma fe_ok_sq: "fe_is j a f \<Longrightarrow> j \<le> 3 \<Longrightarrow> fe_ok 1 (a * a) (fe_sq f)"
  using fe_sq_correct [of f]
  by (auto simp: fe_is_def fe_ok_def elem_def of_int_gf_eq_iff [symmetric] intro: within_mono snug_within)

lemma fe_ok_sq2: "fe_is j a f \<Longrightarrow> j \<le> 3 \<Longrightarrow> fe_ok 1 (2 * (a * a)) (fe_sq2 f)"
  using fe_sq2_correct [of f]
  by (auto simp: fe_is_def fe_ok_def elem_def of_int_gf_eq_iff [symmetric] intro: within_mono snug_within)

lemma fe_ok_add: "fe_is j a f \<Longrightarrow> fe_is k b g \<Longrightarrow> j + k = m \<Longrightarrow> m \<le> 58 \<Longrightarrow> fe_ok m (a + b) (fe_add f g)"
  using fe_add_correct [of j f k g] by (auto simp: fe_is_def fe_ok_def elem_def)

lemma fe_ok_sub: "fe_is j a f \<Longrightarrow> fe_is k b g \<Longrightarrow> j + k = m \<Longrightarrow> m \<le> 58 \<Longrightarrow> fe_ok m (a - b) (fe_sub f g)"
  using fe_sub_correct [of j f k g] by (auto simp: fe_is_def fe_ok_def elem_def)

lemma fe_ok_neg: "fe_is j a f \<Longrightarrow> j \<le> 58 \<Longrightarrow> fe_ok j (- a) (fe_neg f)"
  using fe_neg_correct [of j f] by (auto simp: fe_is_def fe_ok_def elem_def)

text \<open>A sequence of field operations is followed with one rule per operation.\<close>

definition ok :: "('a \<Rightarrow> bool) \<Rightarrow> 'a option \<Rightarrow> bool" where
  "ok P r \<longleftrightarrow> (\<exists>x. r = Some x \<and> P x)"

lemma ok_Some [simp]: "ok P (Some x) \<longleftrightarrow> P x"
  by (simp add: ok_def)

lemma ok_bind: "ok Q r \<Longrightarrow> (\<And>x. Q x \<Longrightarrow> ok P (c x)) \<Longrightarrow> ok P (r \<bind> c)"
  by (auto simp: ok_def)

lemma fe_ok_bind: "fe_ok k v r \<Longrightarrow> (\<And>h. fe_is k v h \<Longrightarrow> ok P (c h)) \<Longrightarrow> ok P (r \<bind> c)"
  by (auto simp: ok_def fe_ok_def)

lemma ok_mono: "ok P r \<Longrightarrow> (\<And>x. P x \<Longrightarrow> Q x) \<Longrightarrow> ok Q r"
  by (auto simp: ok_def)

lemmas fe_steps = fe_ok_bind [OF fe_ok_mul] fe_ok_bind [OF fe_ok_sq] fe_ok_bind [OF fe_ok_sq2]
  fe_ok_bind [OF fe_ok_add] fe_ok_bind [OF fe_ok_sub] fe_ok_bind [OF fe_ok_neg]

definition p2_is :: "gf \<Rightarrow> gf \<Rightarrow> gf \<Rightarrow> ge_p2 \<Rightarrow> bool" where
  "p2_is x y z p \<longleftrightarrow> fe_is 1 x (p2_X p) \<and> fe_is 1 y (p2_Y p) \<and> fe_is 1 z (p2_Z p)"

definition p3_is :: "gf \<Rightarrow> gf \<Rightarrow> gf \<Rightarrow> gf \<Rightarrow> ge_p3 \<Rightarrow> bool" where
  "p3_is x y z t p \<longleftrightarrow> fe_is 1 x (p3_X p) \<and> fe_is 1 y (p3_Y p) \<and> fe_is 1 z (p3_Z p) \<and> fe_is 1 t (p3_T p)"

definition p1_is :: "gf \<Rightarrow> gf \<Rightarrow> gf \<Rightarrow> gf \<Rightarrow> ge_p1p1 \<Rightarrow> bool" where
  "p1_is x y z t p \<longleftrightarrow> fe_is 3 x (p1_X p) \<and> fe_is 3 y (p1_Y p) \<and> fe_is 3 z (p1_Z p) \<and> fe_is 3 t (p1_T p)"

definition cached_is :: "gf \<Rightarrow> gf \<Rightarrow> gf \<Rightarrow> gf \<Rightarrow> ge_cached \<Rightarrow> bool" where
  "cached_is a b z c q \<longleftrightarrow> fe_is 2 a (ca_YplusX q) \<and> fe_is 2 b (ca_YminusX q) \<and> fe_is 1 z (ca_Z q) \<and> fe_is 1 c (ca_T2d q)"

definition precomp_is :: "gf \<Rightarrow> gf \<Rightarrow> gf \<Rightarrow> ge_precomp \<Rightarrow> bool" where
  "precomp_is a b c q \<longleftrightarrow> fe_is 1 a (pc_yplusx q) \<and> fe_is 1 b (pc_yminusx q) \<and> fe_is 1 c (pc_xy2d q)"

lemmas point_is_defs = p2_is_def p3_is_def p1_is_def cached_is_def precomp_is_def

lemma ge_add_values:
  assumes "p3_is x y z t p" "cached_is a b w c q"
  shows "ok (p1_is ((y + x) * a - (y - x) * b) ((y + x) * a + (y - x) * b) (z * w + z * w + c * t) (z * w + z * w - c * t)) (ge_add p q)"
  using assms unfolding ge_add_def point_is_defs
  by (elim conjE) (rule fe_steps, assumption, (assumption | simp)+ | simp add: fe_is_mono)+

lemma ge_sub_values:
  assumes "p3_is x y z t p" "cached_is a b w c q"
  shows "ok (p1_is ((y + x) * b - (y - x) * a) ((y + x) * b + (y - x) * a) (z * w + z * w - c * t) (z * w + z * w + c * t)) (ge_sub p q)"
  using assms unfolding ge_sub_def point_is_defs
  by (elim conjE) (rule fe_steps, assumption, (assumption | simp)+ | simp add: fe_is_mono)+

lemma ge_madd_values:
  assumes "p3_is x y z t p" "precomp_is a b c q"
  shows "ok (p1_is ((y + x) * a - (y - x) * b) ((y + x) * a + (y - x) * b) (z + z + c * t) (z + z - c * t)) (ge_madd p q)"
  using assms unfolding ge_madd_def point_is_defs
  by (elim conjE) (rule fe_steps, assumption, (assumption | simp)+ | simp add: fe_is_mono)+

lemma ge_msub_values:
  assumes "p3_is x y z t p" "precomp_is a b c q"
  shows "ok (p1_is ((y + x) * b - (y - x) * a) ((y + x) * b + (y - x) * a) (z + z - c * t) (z + z + c * t)) (ge_msub p q)"
  using assms unfolding ge_msub_def point_is_defs
  by (elim conjE) (rule fe_steps, assumption, (assumption | simp)+ | simp add: fe_is_mono)+

lemma ge_p2_dbl_values:
  assumes "p2_is x y z p"
  shows "ok (p1_is ((x + y) * (x + y) - (y * y + x * x)) (y * y + x * x) (y * y - x * x) (2 * (z * z) - (y * y - x * x))) (ge_p2_dbl p)"
  using assms unfolding ge_p2_dbl_def point_is_defs
  by (elim conjE) (rule fe_steps, assumption, (assumption | simp)+ | simp add: fe_is_mono)+

lemma ge_p1p1_to_p2_values:
  assumes "p1_is x y z t p"
  shows "ok (p2_is (x * t) (y * z) (z * t)) (ge_p1p1_to_p2 p)"
  using assms unfolding ge_p1p1_to_p2_def point_is_defs
  by (elim conjE) (rule fe_steps, assumption, (assumption | simp)+ | simp add: fe_is_mono)+

lemma ge_p1p1_to_p3_values:
  assumes "p1_is x y z t p"
  shows "ok (p3_is (x * t) (y * z) (z * t) (x * y)) (ge_p1p1_to_p3 p)"
  using assms unfolding ge_p1p1_to_p3_def point_is_defs
  by (elim conjE) (rule fe_steps, assumption, (assumption | simp)+ | simp add: fe_is_mono)+

lemma fe_is_copy: "fe_is k v f \<Longrightarrow> fe_is k v (fe_copy f)"
  using fe_copy_id [of f] length_within [of k f] by (auto simp: fe_is_def)

text \<open>The constants.\<close>

definition curve_d :: gf where
  "curve_d = elem fe_d"

lemma fe_is_constants:
  "fe_is 1 0 fe_0" "fe_is 1 1 fe_1" "fe_is 1 curve_d fe_d" "fe_is 1 (2 * curve_d) fe_d2" "fe_is 1 (elem fe_sqrtm1) fe_sqrtm1"
proof -
  have w: "fe_within 1 fe_0" "fe_within 1 fe_1" "fe_within 1 fe_d" "fe_within 1 fe_d2" "fe_within 1 fe_sqrtm1" by code_simp+
  have v: "fe_val fe_0 = 0" "fe_val fe_1 = 1" "fe_val fe_d2 mod p25519 = 2 * fe_val fe_d mod p25519" by code_simp+
  have "elem fe_d2 = 2 * curve_d"
    using v(3) unfolding curve_d_def elem_def of_int_gf_eq_iff [symmetric] by simp
  with w v(1,2) show "fe_is 1 0 fe_0" "fe_is 1 1 fe_1" "fe_is 1 curve_d fe_d" "fe_is 1 (2 * curve_d) fe_d2" "fe_is 1 (elem fe_sqrtm1) fe_sqrtm1"
    by (simp_all add: fe_is_def elem_def curve_d_def)
qed

lemma sqrtm1_squared: "elem fe_sqrtm1 * elem fe_sqrtm1 = - 1"
proof -
  have "fe_val fe_sqrtm1 * fe_val fe_sqrtm1 mod p25519 = - 1 mod p25519" by code_simp
  then have "(of_int (fe_val fe_sqrtm1 * fe_val fe_sqrtm1) :: gf) = of_int (- 1)" unfolding of_int_gf_eq_iff .
  then show ?thesis by (simp add: elem_def)
qed

lemma ge_p3_to_cached_values:
  assumes "p3_is x y z t p"
  shows "ok (cached_is (y + x) (y - x) z (t * (2 * curve_d))) (ge_p3_to_cached p)"
  using assms fe_is_constants(4) unfolding ge_p3_to_cached_def point_is_defs
  by (elim conjE) (rule fe_steps, assumption, (assumption | simp)+ | simp add: fe_is_mono fe_is_copy)+

lemma ge_p3_dbl_values:
  assumes "p3_is x y z t p"
  shows "ok (p1_is ((x + y) * (x + y) - (y * y + x * x)) (y * y + x * x) (y * y - x * x) (2 * (z * z) - (y * y - x * x))) (ge_p3_dbl p)"
  unfolding ge_p3_dbl_def by (rule ge_p2_dbl_values) (use assms in \<open>simp add: point_is_defs ge_p3_to_p2_def fe_is_copy\<close>)

lemma neutral_values: "p2_is 0 1 1 ge_p2_0" "p3_is 0 1 1 0 ge_p3_0" "precomp_is 1 1 0 ge_precomp_0" "cached_is 1 1 1 0 ge_cached_0"
  using fe_is_constants(1,2) fe_is_mono [OF fe_is_constants(2), of 2]
  by (simp_all add: point_is_defs ge_p2_0_def ge_p3_0_def ge_precomp_0_def ge_cached_0_def)

section \<open>The curve\<close>

text \<open>The identities behind doubling and addition, in any commutative ring.\<close>

lemma double_identity:
  fixes d :: "'a :: comm_ring_1"
  assumes K: "y * y - x * x = z * z + d * (t * t)" and m: "x * y = z * t"
  shows "(y * y + x * x) * (y * y + x * x) * ((y * y - x * x) * (y * y - x * x))
      - (2 * (x * y)) * (2 * (x * y)) * ((2 * (z * z) - (y * y - x * x)) * (2 * (z * z) - (y * y - x * x)))
    = (y * y - x * x) * (y * y - x * x) * ((2 * (z * z) - (y * y - x * x)) * (2 * (z * z) - (y * y - x * x)))
      + d * ((2 * (x * y)) * (2 * (x * y)) * ((y * y + x * x) * (y * y + x * x)))"
proof -
  have P: "(y * y + x * x) * (y * y + x * x) = (y * y - x * x) * (y * y - x * x) + 4 * ((x * y) * (x * y))" by (simp add: algebra_simps)
  show ?thesis unfolding P K m by (simp add: algebra_simps)
qed

lemma add_identity:
  fixes d :: "'a :: comm_ring_1"
  assumes K: "y1 * y1 - x1 * x1 = z1 * z1 + d * (t1 * t1)" "y2 * y2 - x2 * x2 = z2 * z2 + d * (t2 * t2)"
    and m: "x1 * y1 = z1 * t1" "x2 * y2 = z2 * t2"
  defines "s \<equiv> x1 * y2 + x2 * y1" and "h \<equiv> y1 * y2 + x1 * x2"
  shows "h * h * ((z1 * z2 + d * (t1 * t2)) * (z1 * z2 + d * (t1 * t2))) - s * s * ((z1 * z2 - d * (t1 * t2)) * (z1 * z2 - d * (t1 * t2)))
    = (z1 * z2 + d * (t1 * t2)) * (z1 * z2 + d * (t1 * t2)) * ((z1 * z2 - d * (t1 * t2)) * (z1 * z2 - d * (t1 * t2))) + d * (s * s * (h * h))"
    (is "?L = ?R")
proof -
  let ?K1 = "y1 * y1 - x1 * x1" and ?K2 = "y2 * y2 - x2 * x2" and ?P1 = "y1 * y1 + x1 * x1" and ?P2 = "y2 * y2 + x2 * x2"
    and ?m1 = "x1 * y1" and ?m2 = "x2 * y2"
  have e1: "h * h - s * s = ?K1 * ?K2" and e2: "h * h + s * s = ?P1 * ?P2 + 4 * (?m1 * ?m2)" and e3: "s * h = ?m1 * ?P2 + ?m2 * ?P1"
    unfolding s_def h_def by (simp_all add: algebra_simps)
  have p: "?P1 * ?P1 = ?K1 * ?K1 + 4 * (?m1 * ?m1)" "?P2 * ?P2 = ?K2 * ?K2 + 4 * (?m2 * ?m2)" by (simp_all add: algebra_simps)
  have "?L = (h * h - s * s) * ((z1 * z2) * (z1 * z2) + d * d * ((t1 * t2) * (t1 * t2))) + 2 * d * (h * h + s * s) * ((z1 * t1) * (z2 * t2))" by (simp add: algebra_simps)
  also have "\<dots> = ?K1 * ?K2 * ((z1 * z2) * (z1 * z2) + d * d * ((t1 * t2) * (t1 * t2))) + 2 * d * (?P1 * ?P2 + 4 * (?m1 * ?m2)) * (?m1 * ?m2)"
    unfolding e1 e2 m [symmetric] ..
  finally have L: "?L = \<dots>" .
  have "d * (s * s * (h * h)) = d * ((s * h) * (s * h))" by (simp add: algebra_simps)
  also have "\<dots> = d * (?m1 * ?m1 * (?P2 * ?P2) + ?m2 * ?m2 * (?P1 * ?P1) + 2 * (?m1 * ?m2) * (?P1 * ?P2))" unfolding e3 by (simp add: algebra_simps)
  also have "\<dots> = d * (?m1 * ?m1 * (?K2 * ?K2 + 4 * (?m2 * ?m2)) + ?m2 * ?m2 * (?K1 * ?K1 + 4 * (?m1 * ?m1)) + 2 * (?m1 * ?m2) * (?P1 * ?P2))" unfolding p ..
  finally have R: "d * (s * s * (h * h)) = \<dots>" .
  define P12 where "P12 = ?P1 * ?P2"
  show ?thesis unfolding L R P12_def [symmetric] unfolding K m by (simp add: algebra_simps)
qed

text \<open>The curve \<open>y^2 - x^2 = 1 + d x^2 y^2\<close> in the coordinate systems: extended coordinates satisfy two quadrics,
  a completed point (\<open>p1p1\<close>) is \<open>(X / Z, Y / T)\<close>.\<close>

definition ext_curve :: "gf \<Rightarrow> gf \<Rightarrow> gf \<Rightarrow> gf \<Rightarrow> bool" where
  "ext_curve x y z t \<longleftrightarrow> y * y - x * x = z * z + curve_d * (t * t) \<and> x * y = z * t"

definition completed_curve :: "gf \<Rightarrow> gf \<Rightarrow> gf \<Rightarrow> gf \<Rightarrow> bool" where
  "completed_curve x y z t \<longleftrightarrow> y * y * (z * z) - x * x * (t * t) = z * z * (t * t) + curve_d * (x * x * (y * y))"

text \<open>Well-formed points: limbs within the bounds, on the curve.\<close>

definition p3_wf :: "ge_p3 \<Rightarrow> bool" where
  "p3_wf p \<longleftrightarrow> (\<exists>x y z t. p3_is x y z t p \<and> ext_curve x y z t)"

definition p2_wf :: "ge_p2 \<Rightarrow> bool" where
  "p2_wf p \<longleftrightarrow> (\<exists>x y z t. p2_is x y z p \<and> ext_curve x y z t)"

definition p1_wf :: "ge_p1p1 \<Rightarrow> bool" where
  "p1_wf p \<longleftrightarrow> (\<exists>x y z t. p1_is x y z t p \<and> completed_curve x y z t)"

definition cached_wf :: "ge_cached \<Rightarrow> bool" where
  "cached_wf q \<longleftrightarrow> (\<exists>x y z t. cached_is (y + x) (y - x) z (t * (2 * curve_d)) q \<and> ext_curve x y z t)"

definition precomp_wf :: "ge_precomp \<Rightarrow> bool" where
  "precomp_wf q \<longleftrightarrow> (\<exists>x y. precomp_is (y + x) (y - x) (x * y * (2 * curve_d)) q \<and> ext_curve x y 1 (x * y))"

lemma completed_scale:
  "completed_curve x y z t \<Longrightarrow> completed_curve (2 * x) (2 * y) (2 * z) (2 * t)"
proof -
  assume "completed_curve x y z t"
  then have "16 * (y * y * (z * z) - x * x * (t * t)) = 16 * (z * z * (t * t) + curve_d * (x * x * (y * y)))" by (simp add: completed_curve_def)
  then show ?thesis by (simp add: completed_curve_def algebra_simps)
qed

lemma completed_sum:
  assumes "ext_curve x1 y1 z1 t1" "ext_curve x2 y2 z2 t2"
  shows "completed_curve ((y1 + x1) * (y2 + x2) - (y1 - x1) * (y2 - x2)) ((y1 + x1) * (y2 + x2) + (y1 - x1) * (y2 - x2))
    (z1 * z2 + z1 * z2 + t2 * (2 * curve_d) * t1) (z1 * z2 + z1 * z2 - t2 * (2 * curve_d) * t1)"
proof -
  have "completed_curve (x1 * y2 + x2 * y1) (y1 * y2 + x1 * x2) (z1 * z2 + curve_d * (t1 * t2)) (z1 * z2 - curve_d * (t1 * t2))"
    using assms unfolding completed_curve_def ext_curve_def by (elim conjE) (rule add_identity)
  from completed_scale [OF this] show ?thesis by (simp add: algebra_simps)
qed

lemma ext_neg: "ext_curve x y z t \<Longrightarrow> ext_curve (- x) y z (- t)"
  by (simp add: ext_curve_def)

lemma completed_ext: "completed_curve x y z t \<Longrightarrow> ext_curve (x * t) (y * z) (z * t) (x * y)"
  by (simp add: completed_curve_def ext_curve_def algebra_simps)

lemma completed_double:
  assumes "ext_curve x y z t"
  shows "completed_curve ((x + y) * (x + y) - (y * y + x * x)) (y * y + x * x) (y * y - x * x) (2 * (z * z) - (y * y - x * x))"
proof -
  have "(x + y) * (x + y) - (y * y + x * x) = 2 * (x * y)" by (simp add: algebra_simps)
  then show ?thesis
    using double_identity [of y x z curve_d t] assms unfolding completed_curve_def ext_curve_def by (elim conjE) (simp only:)
qed

section \<open>Operations on well-formed points\<close>

lemma ge_add_wf: "p3_wf p \<Longrightarrow> cached_wf q \<Longrightarrow> ok p1_wf (ge_add p q)"
  unfolding p3_wf_def cached_wf_def p1_wf_def
  by (elim exE conjE, rule ok_mono [OF ge_add_values], assumption, assumption) (blast intro: completed_sum)

lemma ge_sub_wf: "p3_wf p \<Longrightarrow> cached_wf q \<Longrightarrow> ok p1_wf (ge_sub p q)"
proof -
  assume "p3_wf p" "cached_wf q"
  then obtain x1 y1 z1 t1 x2 y2 z2 t2 where p: "p3_is x1 y1 z1 t1 p" "ext_curve x1 y1 z1 t1"
    and q: "cached_is (y2 + x2) (y2 - x2) z2 (t2 * (2 * curve_d)) q" "ext_curve x2 y2 z2 t2"
    by (auto simp: p3_wf_def cached_wf_def)
  from completed_sum [OF p(2) ext_neg [OF q(2)]] ge_sub_values [OF p(1) q(1)] show ?thesis
    unfolding p1_wf_def by (auto elim!: ok_mono)
qed

lemma ge_madd_wf: "p3_wf p \<Longrightarrow> precomp_wf q \<Longrightarrow> ok p1_wf (ge_madd p q)"
proof -
  assume "p3_wf p" "precomp_wf q"
  then obtain x1 y1 z1 t1 x2 y2 where p: "p3_is x1 y1 z1 t1 p" "ext_curve x1 y1 z1 t1"
    and q: "precomp_is (y2 + x2) (y2 - x2) (x2 * y2 * (2 * curve_d)) q" "ext_curve x2 y2 1 (x2 * y2)"
    by (auto simp: p3_wf_def precomp_wf_def)
  from completed_sum [OF p(2) q(2)] ge_madd_values [OF p(1) q(1)] show ?thesis
    unfolding p1_wf_def by (auto elim!: ok_mono)
qed

lemma ge_msub_wf: "p3_wf p \<Longrightarrow> precomp_wf q \<Longrightarrow> ok p1_wf (ge_msub p q)"
proof -
  assume "p3_wf p" "precomp_wf q"
  then obtain x1 y1 z1 t1 x2 y2 where p: "p3_is x1 y1 z1 t1 p" "ext_curve x1 y1 z1 t1"
    and q: "precomp_is (y2 + x2) (y2 - x2) (x2 * y2 * (2 * curve_d)) q" "ext_curve x2 y2 1 (x2 * y2)"
    by (auto simp: p3_wf_def precomp_wf_def)
  from completed_sum [OF p(2) ext_neg [OF q(2)]] ge_msub_values [OF p(1) q(1)] show ?thesis
    unfolding p1_wf_def by (auto elim!: ok_mono)
qed

lemma ge_p2_dbl_wf: "p2_wf p \<Longrightarrow> ok p1_wf (ge_p2_dbl p)"
  unfolding p2_wf_def p1_wf_def
  by (elim exE conjE, rule ok_mono [OF ge_p2_dbl_values], assumption) (blast intro: completed_double)

lemma ge_p3_dbl_wf: "p3_wf p \<Longrightarrow> ok p1_wf (ge_p3_dbl p)"
  unfolding p3_wf_def p1_wf_def
  by (elim exE conjE, rule ok_mono [OF ge_p3_dbl_values], assumption) (blast intro: completed_double)

lemma ge_p1p1_to_p2_wf: "p1_wf p \<Longrightarrow> ok p2_wf (ge_p1p1_to_p2 p)"
  unfolding p1_wf_def p2_wf_def
  by (elim exE conjE, rule ok_mono [OF ge_p1p1_to_p2_values], assumption) (blast intro: completed_ext)

lemma ge_p1p1_to_p3_wf: "p1_wf p \<Longrightarrow> ok p3_wf (ge_p1p1_to_p3 p)"
  unfolding p1_wf_def p3_wf_def
  by (elim exE conjE, rule ok_mono [OF ge_p1p1_to_p3_values], assumption) (blast intro: completed_ext)

lemma ge_p3_to_cached_wf: "p3_wf p \<Longrightarrow> ok cached_wf (ge_p3_to_cached p)"
  unfolding p3_wf_def cached_wf_def
  by (elim exE conjE, rule ok_mono [OF ge_p3_to_cached_values], assumption) blast

lemma ge_p3_to_p2_values: "p3_is x y z t p \<Longrightarrow> p2_is x y z (ge_p3_to_p2 p)"
  by (simp add: p2_is_def p3_is_def ge_p3_to_p2_def fe_is_copy)

lemma ge_p3_to_p2_wf: "p3_wf p \<Longrightarrow> p2_wf (ge_p3_to_p2 p)"
  unfolding p3_wf_def p2_wf_def by (blast intro: ge_p3_to_p2_values)

lemma neutral_wf: "p2_wf ge_p2_0" "p3_wf ge_p3_0" "precomp_wf ge_precomp_0" "cached_wf ge_cached_0"
proof -
  have "ext_curve 0 1 1 0" by (simp add: ext_curve_def)
  then show "p2_wf ge_p2_0" "p3_wf ge_p3_0" using neutral_values(1,2) by (auto simp: p2_wf_def p3_wf_def)
  show "precomp_wf ge_precomp_0" unfolding precomp_wf_def
    by (rule exI [of _ 0], rule exI [of _ 1]) (use neutral_values(3) in \<open>simp add: ext_curve_def\<close>)
  show "cached_wf ge_cached_0" unfolding cached_wf_def
    by (rule exI [of _ 0], rule exI [of _ 1], rule exI [of _ 1], rule exI [of _ 0])
      (use neutral_values(4) in \<open>simp add: ext_curve_def\<close>)
qed

lemmas wf_steps = ok_bind [OF ge_p2_dbl_wf] ok_bind [OF ge_p3_dbl_wf] ok_bind [OF ge_p1p1_to_p2_wf] ok_bind [OF ge_p1p1_to_p3_wf]
  ok_bind [OF ge_p3_to_cached_wf] ok_bind [OF ge_add_wf] ok_bind [OF ge_sub_wf] ok_bind [OF ge_madd_wf] ok_bind [OF ge_msub_wf]

lemma ge_mul8_wf: "p2_wf p \<Longrightarrow> ok p1_wf (ge_mul8 p)"
  unfolding ge_mul8_def by (intro wf_steps ge_p2_dbl_wf)

section \<open>Affine coordinates\<close>

text \<open>A point at the affine coordinates \<open>(x, y)\<close>: its \<open>Z\<close> is invertible.\<close>

definition p3_at :: "gf \<Rightarrow> gf \<Rightarrow> ge_p3 \<Rightarrow> bool" where
  "p3_at x y p \<longleftrightarrow> (\<exists>z u. z * u = 1 \<and> p3_is (x * z) (y * z) z (x * y * z) p)"

lemma half: "\<exists>h :: gf. 2 * h = 1"
proof -
  have "2 * ((p25519 + 1) div 2) mod p25519 = 1 mod p25519" by code_simp
  then have "(of_int (2 * ((p25519 + 1) div 2)) :: gf) = of_int 1" unfolding of_int_gf_eq_iff .
  then show ?thesis by (intro exI [of _ "of_int ((p25519 + 1) div 2)"]) simp
qed

lemma completed_at:
  assumes r: "p1_is (m * s) (m * h) (m * g) (m * f) r" and m: "m * n = 1" and g: "g * a = 1" and f: "f * b = 1"
  shows "ok (p3_at (s * a) (h * b)) (ge_p1p1_to_p3 r)"
proof -
  have cancel: "s * a * (m * g * (m * f)) = m * s * (m * f)" "h * b * (m * g * (m * f)) = m * h * (m * g)"
    "s * a * (h * b) * (m * g * (m * f)) = m * s * (m * h)"
  proof -
    have "s * a * (m * g * (m * f)) = (g * a) * (m * s * (m * f))" "h * b * (m * g * (m * f)) = (f * b) * (m * h * (m * g))"
      "s * a * (h * b) * (m * g * (m * f)) = (g * a) * (f * b) * (m * s * (m * h))" by (simp_all add: mult_ac)
    then show "s * a * (m * g * (m * f)) = m * s * (m * f)" "h * b * (m * g * (m * f)) = m * h * (m * g)"
      "s * a * (h * b) * (m * g * (m * f)) = m * s * (m * h)" by (simp_all only: g f mult_1_left)
  qed
  have "(m * g * (m * f)) * (n * n * (a * b)) = (m * n) * (m * n) * ((g * a) * (f * b))" by (simp add: mult_ac)
  then have u: "(m * g * (m * f)) * (n * n * (a * b)) = 1" by (simp only: m g f mult_1_left)
  show ?thesis
  proof (rule ok_mono [OF ge_p1p1_to_p3_values [OF r]])
    fix q assume "p3_is (m * s * (m * f)) (m * h * (m * g)) (m * g * (m * f)) (m * s * (m * h)) q"
    with u show "p3_at (s * a) (h * b) q" unfolding p3_at_def
      by (intro exI [of _ "m * g * (m * f)"] exI [of _ "n * n * (a * b)"]) (simp only: cancel simp_thms)
  qed
qed

lemma ge_add_at:
  assumes p: "p3_at x1 y1 p" and q: "p3_at x2 y2 q"
    and e: "(1 + curve_d * (x1 * x2 * y1 * y2)) * e = 1" and f: "(1 - curve_d * (x1 * x2 * y1 * y2)) * f = 1"
  shows "ok (p3_at ((x1 * y2 + x2 * y1) * e) ((y1 * y2 + x1 * x2) * f))
    (do { c \<leftarrow> ge_p3_to_cached q; r \<leftarrow> ge_add p c; ge_p1p1_to_p3 r })"
proof -
  obtain z1 u1 z2 u2 where p': "z1 * u1 = 1" "p3_is (x1 * z1) (y1 * z1) z1 (x1 * y1 * z1) p"
    and q': "z2 * u2 = 1" "p3_is (x2 * z2) (y2 * z2) z2 (x2 * y2 * z2) q"
    using p q unfolding p3_at_def by blast
  obtain h :: gf where h: "2 * h = 1" using half by blast
  let ?m = "2 * (z1 * z2)" and ?k = "curve_d * (x1 * x2 * y1 * y2)"
  have m: "?m * (h * (u1 * u2)) = 1"
  proof -
    have "?m * (h * (u1 * u2)) = (2 * h) * ((z1 * u1) * (z2 * u2))" by (simp add: mult_ac)
    then show ?thesis by (simp only: h p'(1) q'(1) mult_1_left)
  qed
  show ?thesis
  proof (rule ok_bind [OF ge_p3_to_cached_values [OF q'(2)]], rule ok_bind [OF ge_add_values [OF p'(2)]], assumption)
    fix r
    assume "p1_is ((y1 * z1 + x1 * z1) * (y2 * z2 + x2 * z2) - (y1 * z1 - x1 * z1) * (y2 * z2 - x2 * z2))
       ((y1 * z1 + x1 * z1) * (y2 * z2 + x2 * z2) + (y1 * z1 - x1 * z1) * (y2 * z2 - x2 * z2))
       (z1 * z2 + z1 * z2 + x2 * y2 * z2 * (2 * curve_d) * (x1 * y1 * z1))
       (z1 * z2 + z1 * z2 - x2 * y2 * z2 * (2 * curve_d) * (x1 * y1 * z1)) r"
    also have "(y1 * z1 + x1 * z1) * (y2 * z2 + x2 * z2) - (y1 * z1 - x1 * z1) * (y2 * z2 - x2 * z2) = ?m * (x1 * y2 + x2 * y1)"
      by (simp add: algebra_simps)
    also have "(y1 * z1 + x1 * z1) * (y2 * z2 + x2 * z2) + (y1 * z1 - x1 * z1) * (y2 * z2 - x2 * z2) = ?m * (y1 * y2 + x1 * x2)"
      by (simp add: algebra_simps)
    also have "z1 * z2 + z1 * z2 + x2 * y2 * z2 * (2 * curve_d) * (x1 * y1 * z1) = ?m * (1 + ?k)" by (simp add: algebra_simps)
    also have "z1 * z2 + z1 * z2 - x2 * y2 * z2 * (2 * curve_d) * (x1 * y1 * z1) = ?m * (1 - ?k)" by (simp add: algebra_simps)
    finally show "ok (p3_at ((x1 * y2 + x2 * y1) * e) ((y1 * y2 + x1 * x2) * f)) (ge_p1p1_to_p3 r)"
      using m e f by (rule completed_at)
  qed
qed

lemma ge_p3_dbl_at:
  assumes p: "p3_at x y p" and curve: "y * y - x * x = 1 + curve_d * (x * x * y * y)"
    and e: "(1 + curve_d * (x * x * y * y)) * e = 1" and f: "(1 - curve_d * (x * x * y * y)) * f = 1"
  shows "ok (p3_at ((x * y + x * y) * e) ((y * y + x * x) * f)) (do { r \<leftarrow> ge_p3_dbl p; ge_p1p1_to_p3 r })"
proof -
  obtain z u where p': "z * u = 1" "p3_is (x * z) (y * z) z (x * y * z) p"
    using p unfolding p3_at_def by blast
  let ?m = "z * z" and ?k = "curve_d * (x * x * y * y)"
  have "?m * (u * u) = (z * u) * (z * u)" by (simp add: mult_ac)
  then have m: "?m * (u * u) = 1" by (simp only: p'(1) mult_1_left)
  show ?thesis
  proof (rule ok_bind [OF ge_p3_dbl_values [OF p'(2)]])
    fix r
    assume "p1_is ((x * z + y * z) * (x * z + y * z) - (y * z * (y * z) + x * z * (x * z))) (y * z * (y * z) + x * z * (x * z))
       (y * z * (y * z) - x * z * (x * z)) (2 * (z * z) - (y * z * (y * z) - x * z * (x * z))) r"
    also have "(x * z + y * z) * (x * z + y * z) - (y * z * (y * z) + x * z * (x * z)) = ?m * (x * y + x * y)"
      by (simp add: algebra_simps)
    also have "y * z * (y * z) + x * z * (x * z) = ?m * (y * y + x * x)" by (simp add: algebra_simps)
    also have "y * z * (y * z) - x * z * (x * z) = ?m * (y * y - x * x)" by (simp add: algebra_simps)
    also have "2 * (z * z) - ?m * (y * y - x * x) = ?m * (2 - (y * y - x * x))" by (simp add: algebra_simps)
    finally have "p1_is (?m * (x * y + x * y)) (?m * (y * y + x * x)) (?m * (1 + ?k)) (?m * (1 - ?k)) r"
      unfolding curve by simp
    then show "ok (p3_at ((x * y + x * y) * e) ((y * y + x * x) * f)) (ge_p1p1_to_p3 r)"
      using m e f by (rule completed_at)
  qed
qed

section \<open>Decompression\<close>

text \<open>A carried element minus or plus one stays within the bounds of a carried element.\<close>

lemma snug_nth: "fe_snug f \<Longrightarrow> i < 10 \<Longrightarrow> \<bar>f ! i\<bar> \<le> (if even i then 33889976 else 16944988)"
proof -
  assume f: "fe_snug f" and i: "i < 10"
  have s: "snug_bounds = map (\<lambda>i. if even i then (- 33889976, 33889976) else (- 16944988, 16944988)) [0..<10]" by code_simp
  have "in_ivl (f ! i) (snug_bounds ! i)" using f i unfolding fe_snug_def by (intro inside_nth) (simp_all add: s del: upt_rec_numeral)
  moreover have "snug_bounds ! i = (if even i then (- 33889976, 33889976) else (- 16944988, 16944988))"
    unfolding s using i by (simp del: upt_rec_numeral)
  ultimately show ?thesis by (auto simp: in_ivl_def abs_le_iff split: if_splits)
qed

lemma fe_1_nth: "i < 10 \<Longrightarrow> \<bar>fe_1 ! i\<bar> \<le> 1"
  by (simp add: fe_1_def nth_Cons split: nat.splits)

lemma snug_minus_one:
  assumes "fe_snug f" "elem f = a"
  shows "fe_ok 1 (a - 1) (fe_sub f fe_1)"
proof -
  have "\<bar>f ! i - fe_1 ! i\<bar> \<le> 1 * (if even i then 36909875 else 18454937)" if "i < 10" for i
    using snug_nth [OF assms(1) that] fe_1_nth [OF that] by (auto simp: abs_le_iff split: if_splits)
  then have "fe_within 1 (map (\<lambda>i. f ! i - fe_1 ! i) [0..<10])"
    "those (map (\<lambda>i. checked 32 (f ! i - fe_1 ! i)) [0..<10]) = Some (map (\<lambda>i. f ! i - fe_1 ! i) [0..<10])"
    by (rule fe_pointwise, simp_all)+
  note h = this
  obtain k where k: "fe_sub f fe_1 = Some k" "fe_val k = fe_val f - fe_val fe_1"
    using fe_sub_correct [of 1 f 1 fe_1] snug_within [OF assms(1)] fe_is_constants(2) by (auto simp: fe_is_def)
  have "elem fe_1 = 1" using fe_is_constants(2) by (simp add: fe_is_def)
  then have "elem k = a - 1" using k(2) assms(2) by (simp add: elem_def)
  moreover have "fe_within 1 k" using h k(1) unfolding fe_sub_def by simp
  ultimately show ?thesis using k(1) by (simp add: fe_ok_def fe_is_def)
qed

lemma fe_sq_snug: "fe_is j a f \<Longrightarrow> j \<le> 3 \<Longrightarrow> ok (\<lambda>u. fe_snug u \<and> fe_is 1 (a * a) u) (fe_sq f)"
  using fe_sq_correct [of f]
  by (auto simp: fe_is_def ok_def elem_def of_int_gf_eq_iff [symmetric] intro: within_mono snug_within)

lemma fe_ok_pow22523: "fe_is j a f \<Longrightarrow> j \<le> 3 \<Longrightarrow> fe_ok 1 (a ^ (2 ^ 252 - 3)) (fe_pow22523 f)"
proof -
  assume f: "fe_is j a f" "j \<le> 3"
  then have "is_power (fe_val f) 1 f" by (auto simp: is_power_def fe_is_def intro: within_mono)
  from fe_pow22523_power [OF this] obtain h where h: "fe_pow22523 f = Some h" "fe_snug h"
    "fe_val h mod p25519 = fe_val f ^ (2 ^ 252 - 3) mod p25519" unfolding power_ok_def by blast
  have "(of_int (fe_val h) :: gf) = of_int (fe_val f) ^ (2 ^ 252 - 3)"
    using h(3) unfolding of_int_gf_eq_iff [symmetric] of_int_power .
  then have "elem h = a ^ (2 ^ 252 - 3)" using f(1) by (simp only: fe_is_def elem_def)
  with h show ?thesis by (simp only: fe_ok_def fe_is_def) (blast intro: snug_within)
qed

lemma fe_ok_iff: "fe_ok k v r \<longleftrightarrow> ok (fe_is k v) r"
  by (simp add: fe_ok_def ok_def)

lemma fe_ok_divpowm1:
  assumes "fe_is 1 u f" "fe_is 2 v g"
  shows "fe_ok 1 ((v * v * v * (v * v * v) * v * u) ^ (2 ^ 252 - 3) * (v * v * v) * u) (fe_divpowm1 f g)"
  unfolding fe_divpowm1_def fe_ok_iff
  by (rule fe_steps fe_ok_bind [OF fe_ok_pow22523] fe_ok_mul [unfolded fe_ok_iff], (rule assms | assumption),
      ((rule assms | assumption | simp only: order_refl one_le_numeral numeral_le_iff num.distinct le_num_simps)+)?)+

lemma fe_isnonzero_elem: "fe_is k a f \<Longrightarrow> k \<le> 2 \<Longrightarrow> fe_isnonzero f = Some (if a = 0 then 0 else 1)"
proof -
  assume f: "fe_is k a f" "k \<le> 2"
  then have "fe_within 2 f" by (auto simp: fe_is_def intro: within_mono)
  moreover have "a = 0 \<longleftrightarrow> fe_val f mod p25519 = 0" using f(1) of_int_gf_eq_iff [of "fe_val f" 0] by (simp add: fe_is_def elem_def)
  ultimately show ?thesis by (simp add: fe_isnonzero_correct)
qed

text \<open>The root of \<open>u / v\<close> that \<open>fe_divpowm1\<close> computes, up to a factor \<open>sqrt (- 1)\<close>.\<close>

definition candidate :: "gf \<Rightarrow> gf \<Rightarrow> gf" where
  "candidate u v = (v * v * v * (v * v * v) * v * u) ^ (2 ^ 252 - 3) * (v * v * v) * u"

definition no_root :: "gf \<Rightarrow> gf \<Rightarrow> bool" where
  "no_root u v \<longleftrightarrow> v * (candidate u v * candidate u v) \<noteq> u \<and> v * (candidate u v * candidate u v) \<noteq> - u"

lemma point_x_values:
  assumes "fe_is 1 u f" "fe_is 2 v g"
  shows "ok (\<lambda>r. if no_root u v then r = Inl (- 1) else \<exists>X x. r = Inr X \<and> fe_is 1 x X \<and> v * (x * x) = u) (point_x f g)"
proof -
  let ?c = "candidate u v"
  obtain X where X: "fe_divpowm1 f g = Some X" "fe_is 1 ?c X"
    using fe_ok_divpowm1 [OF assms] by (auto simp: fe_ok_def candidate_def simp del: power_numeral)
  obtain xx where xx: "fe_sq X = Some xx" "fe_is 1 (?c * ?c) xx" using fe_ok_sq [OF X(2)] by (auto simp: fe_ok_def)
  obtain w where w: "fe_mul xx g = Some w" "fe_is 1 (?c * ?c * v) w" using fe_ok_mul [OF xx(2) assms(2)] by (auto simp: fe_ok_def)
  obtain c1 where c1: "fe_sub w f = Some c1" "fe_is 2 (?c * ?c * v - u) c1" using fe_ok_sub [OF w(2) assms(1)] by (auto simp: fe_ok_def)
  obtain c2 where c2: "fe_add w f = Some c2" "fe_is 2 (?c * ?c * v + u) c2" using fe_ok_add [OF w(2) assms(1)] by (auto simp: fe_ok_def)
  obtain X' where X': "fe_mul X fe_sqrtm1 = Some X'" "fe_is 1 (?c * elem fe_sqrtm1) X'"
    using fe_ok_mul [OF X(2) fe_is_constants(5)] by (auto simp: fe_ok_def)
  have i: "v * (?c * elem fe_sqrtm1 * (?c * elem fe_sqrtm1)) = - (?c * ?c * v)"
  proof -
    have "v * (?c * elem fe_sqrtm1 * (?c * elem fe_sqrtm1)) = ?c * ?c * v * (elem fe_sqrtm1 * elem fe_sqrtm1)" by (simp only: mult_ac)
    then show ?thesis by (simp only: sqrtm1_squared mult_minus_right mult_1_right)
  qed
  have n: "no_root u v \<longleftrightarrow> ?c * ?c * v - u \<noteq> 0 \<and> ?c * ?c * v + u \<noteq> 0"
    unfolding no_root_def by (simp only: mult.commute [of v] right_minus_eq eq_neg_iff_add_eq_0)
  have z: "fe_isnonzero c1 = Some (if ?c * ?c * v - u = 0 then 0 else 1)" "fe_isnonzero c2 = Some (if ?c * ?c * v + u = 0 then 0 else 1)"
    using fe_isnonzero_elem [OF c1(2)] fe_isnonzero_elem [OF c2(2)] by simp_all
  have px: "point_x f g = Some (if ?c * ?c * v - u = 0 then Inr X else if ?c * ?c * v + u = 0 then Inr X' else Inl (- 1))"
    unfolding point_x_def by (simp add: X(1) xx(1) w(1) c1(1) c2(1) X'(1) z)
  have r1: "v * (?c * ?c) = u" if "?c * ?c * v - u = 0" using that by (simp add: mult.commute [of v])
  have r2: "v * (?c * elem fe_sqrtm1 * (?c * elem fe_sqrtm1)) = u" if "?c * ?c * v + u = 0"
    unfolding i using that by (rule minus_unique)
  show ?thesis unfolding px ok_Some n using X(2) X'(2) r1 r2 by auto
qed

lemma flip_parity:
  assumes "0 < r" "r < p25519"
  shows "(- r) mod p25519 mod 2 = 1 - r mod 2"
proof -
  have "(- r) mod p25519 = p25519 - r" using assms by (simp add: zmod_zminus1_eq_if)
  moreover have "(p25519 - r) mod 2 = 1 - r mod 2"
  proof -
    have "odd p25519" by (simp add: p25519_def)
    then have "even (p25519 - r) \<longleftrightarrow> odd r" by simp
    then show ?thesis by (cases "even r") (auto simp: even_iff_mod_2_eq_zero odd_iff_mod_2_eq_one)
  qed
  ultimately show ?thesis by simp
qed

text \<open>The sign of an element: the parity of its residue.\<close>

definition sign :: "fe \<Rightarrow> int" where
  "sign f = fe_val f mod p25519 mod 2"

lemma sign_negated:
  assumes "fe_is 1 x X" "x \<noteq> 0" "fe_neg X = Some Y"
  shows "sign Y = 1 - sign X"
proof -
  have v: "fe_val Y = - fe_val X" using assms fe_neg_correct [of 1 X] by (auto simp: fe_is_def)
  have "fe_val X mod p25519 \<noteq> 0"
    using assms(1,2) of_int_gf_eq_iff [of "fe_val X" 0] by (auto simp: fe_is_def elem_def)
  then have "0 < fe_val X mod p25519" "fe_val X mod p25519 < p25519"
    using residue_range [of "fe_val X"] by (simp_all add: p25519_def)
  from flip_parity [OF this] show ?thesis unfolding sign_def v by (simp add: mod_minus_eq)
qed

lemma sign_cases: "sign f = 0 \<or> sign f = 1"
  unfolding sign_def by presburger

lemma top_bit_cases: "uint (drop_bit 7 (b :: byte)) = 0 \<or> uint (drop_bit 7 b) = 1"
proof -
  have "uint (drop_bit 7 b) = uint b div 128"
    using uint_lt2p [of b] by (subst unsigned_drop_bit_eq) (simp add: drop_bit_eq_div take_bit_int_eq_self)
  moreover have "0 \<le> uint b" "uint b < 256" using uint_lt2p [of b] by simp_all
  ultimately show ?thesis by linarith
qed

text \<open>The point with the given coordinates and the sign of its \<open>x\<close>.\<close>

definition decompressed :: "gf \<Rightarrow> int \<Rightarrow> ge_p3 \<Rightarrow> bool" where
  "decompressed y b p \<longleftrightarrow> (\<exists>x. p3_is x y 1 (x * y) p \<and> ext_curve x y 1 (x * y) \<and> sign (p3_X p) = b \<and> p3_Z p = fe_1)"

lemma fix_sign:
  assumes x: "fe_is 1 x X" and y: "fe_is 1 y Y" and curve: "ext_curve x y 1 (x * y)" and b: "b = 0 \<or> b = 1"
  shows "ok (\<lambda>r. r = Inl (- 1) \<and> x = 0 \<and> b = 1 \<or> (\<exists>p. r = Inr p \<and> decompressed y b p))
    (do { n \<leftarrow> fe_isnegative X;
          if n \<noteq> b
          then do { nz \<leftarrow> fe_isnonzero X;
                    if nz = 0 then Some (Inl (- 1 :: int))
                    else do { X \<leftarrow> fe_neg X;
                              T \<leftarrow> fe_mul X Y;
                              Some (Inr \<lparr>p3_X = X, p3_Y = Y, p3_Z = fe_1, p3_T = T\<rparr>) } }
          else do { T \<leftarrow> fe_mul X Y;
                    Some (Inr \<lparr>p3_X = X, p3_Y = Y, p3_Z = fe_1, p3_T = T\<rparr>) } })"
proof -
  have n: "fe_isnegative X = Some (sign X)"
    using x within_mono [of 1 X 2] by (simp add: fe_is_def sign_def fe_isnegative_correct)
  have nz: "fe_isnonzero X = Some (if x = 0 then 0 else 1)" using fe_isnonzero_elem [OF x] by simp
  obtain T where T: "fe_mul X Y = Some T" "fe_is 1 (x * y) T" using fe_ok_mul [OF x y] by (auto simp: fe_ok_def)
  obtain X' where X': "fe_neg X = Some X'" "fe_is 1 (- x) X'" using fe_ok_neg [OF x] by (auto simp: fe_ok_def)
  obtain T' where T': "fe_mul X' Y = Some T'" "fe_is 1 (- x * y) T'" using fe_ok_mul [OF X'(2) y] by (auto simp: fe_ok_def)
  have keep: "decompressed y (sign X) \<lparr>p3_X = X, p3_Y = Y, p3_Z = fe_1, p3_T = T\<rparr>"
    unfolding decompressed_def by (rule exI [of _ x]) (use x y T curve fe_is_constants(2) in \<open>simp add: p3_is_def\<close>)
  have flip: "decompressed y (sign X') \<lparr>p3_X = X', p3_Y = Y, p3_Z = fe_1, p3_T = T'\<rparr>"
    unfolding decompressed_def by (rule exI [of _ "- x"])
      (use X' y T' ext_neg [OF curve] fe_is_constants(2) in \<open>simp add: p3_is_def\<close>)
  have zero: "sign X = 0" if "x = 0"
    using that x of_int_gf_eq_iff [of "fe_val X" 0] by (simp add: fe_is_def elem_def sign_def)
  show ?thesis
  proof (cases "sign X = b")
    case True
    then show ?thesis using n T(1) keep by simp
  next
    case False
    show ?thesis
    proof (cases "x = 0")
      case True
      then show ?thesis using False n nz zero b by simp
    next
      case x0: False
      have "sign X' = b" using sign_negated [OF x x0 X'(1)] sign_cases [of X] b False by auto
      then show ?thesis using False x0 n nz X'(1) T'(1) flip by simp
    qed
  qed
qed

text \<open>What decompression does: the number without the top bit has to be below \<open>p\<close>, the candidate has to be a
  root, and a zero \<open>x\<close> must not come with the sign bit.\<close>

lemma ge_frombytes_values:
  fixes s :: bytes
  assumes "length s = 32"
  defines "V \<equiv> le_val s mod 2 ^ 255" and "b \<equiv> uint (drop_bit 7 (s ! 31))"
  defines "y \<equiv> of_int V :: gf"
  defines "u \<equiv> y * y - 1" and "v \<equiv> y * y * curve_d + 1"
  shows "ok (\<lambda>r. if p25519 \<le> V \<or> no_root u v then r = Inl (- 1)
      else r = Inl (- 1) \<and> u = 0 \<and> b = 1 \<or> (\<exists>p. r = Inr p \<and> decompressed y b p)) (ge_frombytes_vartime s)"
proof (cases "p25519 \<le> V")
  case True
  then have "not_canonical (load_fe_masked s)" using not_canonical_iff [OF assms(1)] by (simp add: V_def)
  then show ?thesis using True by (simp add: ge_frombytes_vartime_def)
next
  case False
  then have nc: "\<not> not_canonical (load_fe_masked s)" using not_canonical_iff [OF assms(1)] by (simp add: V_def)
  obtain Y where Y: "fe_carry_loaded (load_fe_masked s) = Some Y" "fe_within 1 Y" "fe_val Y mod p25519 = V mod p25519"
    using fe_carry_loaded_correct [OF load_fe_bounds(2) [OF assms(1)]] fe_val_load_fe(2) [OF assms(1)] by (auto simp: V_def)
  then have y: "fe_is 1 y Y" unfolding fe_is_def y_def elem_eq_iff by simp
  obtain u1 where u1: "fe_sq Y = Some u1" "fe_snug u1" "fe_is 1 (y * y) u1" using fe_sq_snug [OF y] by (auto simp: ok_def)
  obtain v1 where v1: "fe_mul u1 fe_d = Some v1" "fe_is 1 (y * y * curve_d) v1"
    using fe_ok_mul [OF u1(3) fe_is_constants(3)] by (auto simp: fe_ok_def)
  obtain u2 where u2: "fe_sub u1 fe_1 = Some u2" "fe_is 1 u u2"
    using snug_minus_one [OF u1(2), of "y * y"] u1(3) by (auto simp: fe_ok_def fe_is_def u_def)
  obtain v2 where v2: "fe_add v1 fe_1 = Some v2" "fe_is 2 v v2"
    using fe_ok_add [OF v1(2) fe_is_constants(2)] by (auto simp: fe_ok_def v_def)
  obtain r where r: "point_x u2 v2 = Some r"
    "if no_root u v then r = Inl (- 1) else \<exists>X x. r = Inr X \<and> fe_is 1 x X \<and> v * (x * x) = u"
    using point_x_values [OF u2(2) v2(2)] by (auto simp: ok_def)
  have code: "ge_frombytes_vartime s = (case r of Inl e \<Rightarrow> Some (Inl e)
      | Inr X \<Rightarrow>
          do { n \<leftarrow> fe_isnegative X;
               if n \<noteq> b
               then do { nz \<leftarrow> fe_isnonzero X;
                         if nz = 0 then Some (Inl (- 1))
                         else do { X \<leftarrow> fe_neg X;
                                   T \<leftarrow> fe_mul X Y;
                                   Some (Inr \<lparr>p3_X = X, p3_Y = Y, p3_Z = fe_1, p3_T = T\<rparr>) } }
               else do { T \<leftarrow> fe_mul X Y;
                         Some (Inr \<lparr>p3_X = X, p3_Y = Y, p3_Z = fe_1, p3_T = T\<rparr>) } })"
    unfolding ge_frombytes_vartime_def b_def
    by (simp only: nc if_False Y(1) u1(1) v1(1) u2(1) v2(1) r(1) Option.bind_lunit)
  show ?thesis
  proof (cases "no_root u v")
    case True
    then show ?thesis using r(2) code by simp
  next
    case root: False
    then obtain X x where X: "r = Inr X" "fe_is 1 x X" "v * (x * x) = u" using r(2) by auto
    have "ext_curve x y 1 (x * y)"
    proof -
      have "y * y = u + 1" by (simp add: u_def)
      also have "u = x * x + curve_d * (x * y * (x * y))" unfolding X(3) [symmetric] v_def by (simp add: algebra_simps)
      finally show ?thesis by (simp add: ext_curve_def algebra_simps)
    qed
    have b: "b = 0 \<or> b = 1" unfolding b_def by (rule top_bit_cases)
    have "ok (\<lambda>r. r = Inl (- 1) \<and> x = 0 \<and> b = 1 \<or> (\<exists>p. r = Inr p \<and> decompressed y b p)) (ge_frombytes_vartime s)"
      unfolding code X(1) sum.case using X(2) y \<open>ext_curve x y 1 (x * y)\<close> b by (rule fix_sign)
    moreover have "u = 0" if "x = 0" using that X(3) by simp
    ultimately have "ok (\<lambda>r. r = Inl (- 1) \<and> u = 0 \<and> b = 1 \<or> (\<exists>p. r = Inr p \<and> decompressed y b p)) (ge_frombytes_vartime s)"
      by (elim ok_mono) blast
    then show ?thesis using False root by simp
  qed
qed

section \<open>Compression\<close>

lemma fe_invert_one: "fe_ok 1 1 (fe_invert fe_1)"
proof -
  have "fe_val fe_1 = 1" by code_simp
  then have "is_power 1 1 fe_1" using fe_is_constants(2) by (auto simp: is_power_def fe_is_def intro: within_mono)
  from fe_invert_power [OF this] obtain h where h: "fe_invert fe_1 = Some h" "fe_snug h"
    "fe_val h mod p25519 = 1 ^ (2 ^ 255 - 21) mod p25519" unfolding power_ok_def by blast
  have "elem h = of_int 1" unfolding elem_eq_iff using h(3) unfolding power_one .
  with h show ?thesis by (auto simp: fe_ok_def fe_is_def intro: snug_within)
qed

lemma elem_residue: "elem f = elem g \<Longrightarrow> fe_val f mod p25519 = fe_val g mod p25519"
  by (simp add: elem_def of_int_gf_eq_iff)

lemma compressed_bytes:
  assumes "p3_is x y 1 t p" "p3_Z p = fe_1"
  shows "ge_p3_tobytes p = Some ((encode_fe (fe_val (p3_Y p)))[31 := encode_fe (fe_val (p3_Y p)) ! 31 XOR word_of_int (push_bit 7 (sign (p3_X p)))])"
proof -
  have xy: "fe_is 1 x (p3_X p)" "fe_is 1 y (p3_Y p)" using assms(1) by (simp_all add: p3_is_def)
  obtain i where i: "fe_invert (p3_Z p) = Some i" "fe_is 1 1 i" using fe_invert_one assms(2) by (auto simp: fe_ok_def)
  obtain X where X: "fe_mul (p3_X p) i = Some X" "fe_is 1 x X" using fe_ok_mul [OF xy(1) i(2)] by (auto simp: fe_ok_def)
  obtain Y where Y: "fe_mul (p3_Y p) i = Some Y" "fe_is 1 y Y" using fe_ok_mul [OF xy(2) i(2)] by (auto simp: fe_ok_def)
  have res: "fe_val X mod p25519 = fe_val (p3_X p) mod p25519" "fe_val Y mod p25519 = fe_val (p3_Y p) mod p25519"
    using xy X(2) Y(2) by (auto simp: fe_is_def intro: elem_residue)
  have "fe_tobytes Y = Some (encode_fe (fe_val Y))" "fe_isnegative X = Some (sign X)"
    using X(2) Y(2) within_mono [of 1 X 2] within_mono [of 1 Y 2]
    by (simp_all add: fe_is_def sign_def fe_tobytes_correct fe_isnegative_correct)
  moreover have "encode_fe (fe_val Y) = encode_fe (fe_val (p3_Y p))" "sign X = sign (p3_X p)"
    using res by (simp_all add: encode_fe_def sign_def)
  ultimately show ?thesis by (simp only: ge_p3_tobytes_def point_bytes_def i(1) X(1) Y(1) Option.bind_lunit)
qed

text \<open>The bytes of a number below \<open>2 ^ 256\<close> without its top bit, and the top bit put back.\<close>

lemma le_val_without_top:
  assumes "length s = 32"
  shows "le_val (s[31 := s ! 31 AND 127]) = le_val s mod 2 ^ 255"
proof -
  have s: "s = take 31 s @ [s ! 31]" using take_Suc_conv_app_nth [of 31 s] assms by simp
  have u: "s[31 := c] = take 31 s @ [c]" for c using assms by (subst s) (simp add: list_update_append)
  have t: "le_val (take 31 s) < 2 ^ 248" using le_val_less [of "take 31 s"] assms by (simp add: power_mult [symmetric])
  have m: "uint (s ! 31 AND 127) = uint (s ! 31) mod 128"
  proof -
    have "(127 :: byte) = mask 7" by (simp add: mask_eq_exp_minus_1)
    then show ?thesis by (simp only: take_bit_eq_mask [symmetric] unsigned_take_bit_eq) (simp add: take_bit_eq_mod)
  qed
  have split: "(a + k * c) mod (k * n) = a + k * (c mod n)" if "0 \<le> a" "a < k" "0 < n" for a c k n :: int
    using that by (simp add: zmod_zmult2_eq)
  have "le_val s = le_val (take 31 s) + 2 ^ 248 * uint (s ! 31)"
    using assms by (subst s) (simp add: le_val_append power_mult [symmetric])
  moreover have "(le_val (take 31 s) + 2 ^ 248 * uint (s ! 31)) mod (2 ^ 248 * 2 ^ 7) = le_val (take 31 s) + 2 ^ 248 * (uint (s ! 31) mod 2 ^ 7)"
    using t by (intro split) simp_all
  ultimately show ?thesis using assms by (simp add: u le_val_append m power_mult [symmetric])
qed

lemma top_bit_back: "(c AND 127) XOR word_of_int (push_bit 7 (uint (drop_bit 7 c))) = (c :: byte)"
proof -
  have "word_of_int (push_bit 7 (uint (drop_bit 7 c))) = push_bit 7 (drop_bit 7 c)"
    by (rule bit_word_eqI) (auto simp: bit_simps dest: bit_imp_le_length)
  moreover have "(127 :: byte) = mask 7" by (simp add: mask_eq_exp_minus_1)
  moreover have "(c AND mask k) XOR push_bit k (drop_bit k c) = c" for k by (rule bit_word_eqI) (auto simp: bit_simps)
  ultimately show ?thesis by (simp only:)
qed

lemma compress_decompressed:
  assumes "length s = 32" "le_val s mod 2 ^ 255 < p25519" "decompressed (of_int (le_val s mod 2 ^ 255)) (uint (drop_bit 7 (s ! 31))) p"
  shows "ge_p3_tobytes p = Some s"
proof -
  let ?V = "le_val s mod 2 ^ 255"
  obtain x where p: "p3_is x (of_int ?V) 1 (x * of_int ?V) p" "p3_Z p = fe_1" and b: "sign (p3_X p) = uint (drop_bit 7 (s ! 31))"
    using assms(3) unfolding decompressed_def by blast
  have "fe_val (p3_Y p) mod p25519 = ?V mod p25519" using p(1) unfolding p3_is_def fe_is_def elem_eq_iff by blast
  also have "\<dots> = ?V" using assms(2) by (intro mod_pos_pos_trivial) simp_all
  finally have "le_val (encode_fe (fe_val (p3_Y p))) = le_val (s[31 := s ! 31 AND 127])"
    unfolding le_val_encode_fe le_val_without_top [OF assms(1)] .
  then have e: "encode_fe (fe_val (p3_Y p)) = s[31 := s ! 31 AND 127]"
    using assms(1) le_val_encode_fe(2) by (intro le_val_inject) simp_all
  have "ge_p3_tobytes p = Some (s[31 := (s ! 31 AND 127) XOR word_of_int (push_bit 7 (uint (drop_bit 7 (s ! 31))))])"
    unfolding compressed_bytes [OF p] e b using assms(1) by (simp only: list_update_overwrite) simp
  then show ?thesis unfolding top_bit_back by simp
qed

section \<open>Properties\<close>

text \<open>C39: the group operations are closed on well-formed points.  A well-formed point has limbs within the
  bounds of its coordinate system and satisfies the equation of the curve there; addition and subtraction in
  both forms, doubling, multiplication by 8 and every conversion return, without any signed overflow in the
  field operations, a point that is well-formed again.\<close>

theorem group_operations_closed:
  assumes "p3_wf p" "p2_wf s" "p1_wf r" "cached_wf q" "precomp_wf m"
  shows "ok p1_wf (ge_add p q) \<and> ok p1_wf (ge_sub p q) \<and> ok p1_wf (ge_madd p m) \<and> ok p1_wf (ge_msub p m)
    \<and> ok p1_wf (ge_p2_dbl s) \<and> ok p1_wf (ge_p3_dbl p) \<and> ok p1_wf (ge_mul8 s)
    \<and> ok p2_wf (ge_p1p1_to_p2 r) \<and> ok p3_wf (ge_p1p1_to_p3 r) \<and> ok cached_wf (ge_p3_to_cached p) \<and> p2_wf (ge_p3_to_p2 p)"
  using assms by (intro conjI ge_add_wf ge_sub_wf ge_madd_wf ge_msub_wf ge_p2_dbl_wf ge_p3_dbl_wf ge_mul8_wf
      ge_p1p1_to_p2_wf ge_p1p1_to_p3_wf ge_p3_to_cached_wf ge_p3_to_p2_wf)

text \<open>A point of order 4 for concrete applications: \<open>(sqrt (- 1), 0)\<close>.\<close>

definition order_4 :: ge_p3 where
  "order_4 = \<lparr>p3_X = fe_sqrtm1, p3_Y = fe_0, p3_Z = fe_1, p3_T = fe_0\<rparr>"

lemma order_4_values: "p3_is (elem fe_sqrtm1) 0 1 0 order_4"
  using fe_is_constants by (simp add: order_4_def p3_is_def)

lemma order_4_wf: "p3_wf order_4"
  unfolding p3_wf_def using order_4_values sqrtm1_squared
  by (intro exI [of _ "elem fe_sqrtm1"] exI [of _ 0] exI [of _ 1]) (simp add: ext_curve_def)

lemma order_4_at: "p3_at (elem fe_sqrtm1) 0 order_4"
  unfolding p3_at_def using order_4_values by (intro exI [of _ 1]) simp

theorem group_operations_closed_witness:
  "ok p1_wf (ge_add order_4 ge_cached_0) \<and> ok p1_wf (ge_msub order_4 ge_precomp_0) \<and> ok p1_wf (ge_p3_dbl order_4)"
proof -
  have "p1_wf \<lparr>p1_X = fe_0, p1_Y = fe_1, p1_Z = fe_1, p1_T = fe_1\<rparr>"
    unfolding p1_wf_def using fe_is_mono [OF fe_is_constants(1), of 3] fe_is_mono [OF fe_is_constants(2), of 3]
    by (intro exI [of _ 0] exI [of _ 1]) (simp add: p1_is_def completed_curve_def)
  from group_operations_closed [OF order_4_wf neutral_wf(1) this neutral_wf(4,3)] show ?thesis by blast
qed

text \<open>C4: \<open>ge_add\<close> implements the addition law of the curve.  For points with affine coordinates
  \<open>(x1, y1)\<close> and \<open>(x2, y2)\<close>, whatever their \<open>Z\<close>, the sum computed through the cached and completed forms
  has the coordinates \<open>((x1 y2 + x2 y1) / (1 + d x1 x2 y1 y2), (y1 y2 + x1 x2) / (1 - d x1 x2 y1 y2))\<close> whenever the
  two denominators are invertible; on the curve, doubling a point gives the same as adding it to itself.\<close>

theorem edwards_addition_law:
  assumes "p3_at x1 y1 p" "p3_at x2 y2 q"
    and "(1 + curve_d * (x1 * x2 * y1 * y2)) * e = 1" "(1 - curve_d * (x1 * x2 * y1 * y2)) * f = 1"
  shows "ok (p3_at ((x1 * y2 + x2 * y1) * e) ((y1 * y2 + x1 * x2) * f))
      (do { c \<leftarrow> ge_p3_to_cached q; r \<leftarrow> ge_add p c; ge_p1p1_to_p3 r })
    \<and> (x2 = x1 \<and> y2 = y1 \<and> y1 * y1 - x1 * x1 = 1 + curve_d * (x1 * x1 * y1 * y1) \<longrightarrow>
       ok (p3_at ((x1 * y2 + x2 * y1) * e) ((y1 * y2 + x1 * x2) * f)) (do { r \<leftarrow> ge_p3_dbl p; ge_p1p1_to_p3 r }))"
  using ge_add_at [OF assms] ge_p3_dbl_at [OF assms(1), of e f] assms(3,4) by auto

theorem edwards_addition_law_witness:
  "ok (p3_at 0 (- 1)) (do { c \<leftarrow> ge_p3_to_cached order_4; r \<leftarrow> ge_add order_4 c; ge_p1p1_to_p3 r })
   \<and> ok (p3_at 0 (- 1)) (do { r \<leftarrow> ge_p3_dbl order_4; ge_p1p1_to_p3 r })"
  using edwards_addition_law [OF order_4_at order_4_at, of 1 1] sqrtm1_squared by simp

text \<open>C40: \<open>ge_frombytes_vartime\<close> on every string of 32 bytes.  It returns without overflow.  The result is -1 if
  the number in the low 255 bits is \<open>p\<close> or more or if the computed candidate is no root of
  \<open>(y^2 - 1) / (d y^2 + 1)\<close>; otherwise it is the point on the curve with that \<open>y\<close>, \<open>Z = 1\<close>, \<open>T = x y\<close> and the \<open>x\<close>
  whose parity is the top bit, except that the top bit with \<open>x = 0\<close> gives -1.\<close>

theorem ge_frombytes_outcomes:
  assumes "length s = 32"
  shows "let V = le_val s mod 2 ^ 255; y = of_int V; b = uint (drop_bit 7 (s ! 31)) in
    \<exists>r. ge_frombytes_vartime s = Some r \<and>
      (if p25519 \<le> V \<or> no_root (y * y - 1) (y * y * curve_d + 1) then r = Inl (- 1)
       else r = Inl (- 1) \<and> y * y - 1 = 0 \<and> b = 1 \<or> (\<exists>p. r = Inr p \<and> decompressed y b p))"
  using ge_frombytes_values [OF assms] by (simp only: ok_def Let_def)

theorem ge_frombytes_outcomes_witness: "ge_frombytes_vartime (replicate 32 255) = Some (Inl (- 1))"
proof -
  have "p25519 \<le> le_val (replicate 32 255) mod 2 ^ 255" by code_simp
  then show ?thesis using ge_frombytes_outcomes [of "replicate 32 255"] by (auto simp: Let_def)
qed

text \<open>C5: decompression is sound and its inverse is compression.  A point that \<open>ge_frombytes_vartime\<close> returns is
  well-formed, hence on the curve, and \<open>ge_p3_tobytes\<close> gives back exactly the bytes it was read from; in
  particular no two byte strings decompress to the same point.\<close>

theorem compress_decompress:
  assumes "length s = 32" "ge_frombytes_vartime s = Some (Inr p)"
  shows "p3_wf p \<and> ge_p3_tobytes p = Some s"
proof -
  let ?V = "le_val s mod 2 ^ 255" and ?b = "uint (drop_bit 7 (s ! 31))"
  have "\<not> p25519 \<le> ?V" "decompressed (of_int ?V) ?b p"
    using ge_frombytes_values [OF assms(1)] assms(2) by (auto split: if_splits)
  moreover from this(2) have "p3_wf p" unfolding decompressed_def p3_wf_def by blast
  ultimately show ?thesis using compress_decompressed [OF assms(1)] by simp
qed

theorem compress_decompress_witness:
  "\<exists>p. ge_frombytes_vartime (1 # replicate 31 0) = Some (Inr p) \<and> p3_wf p \<and> ge_p3_tobytes p = Some (1 # replicate 31 0)"
proof -
  have v: "le_val (1 # replicate 31 0) mod 2 ^ 255 = 1" "uint (drop_bit 7 ((1 # replicate 31 0) ! 31 :: byte)) = 0" "\<not> p25519 \<le> 1"
    by code_simp+
  have "\<not> no_root 0 v" for v by (simp add: no_root_def candidate_def)
  moreover have l: "length (1 # replicate 31 0 :: bytes) = 32" by simp
  note ge_frombytes_values [OF l, unfolded v of_int_1 mult_1_left diff_self]
  ultimately obtain p where p: "ge_frombytes_vartime (1 # replicate 31 0) = Some (Inr p)"
    using v(3) by (auto simp: ok_def)
  then show ?thesis using compress_decompress [of "1 # replicate 31 0" p] by simp
qed

end
