(* ===== verification/Spec2Isabelle.thy ===== *)
theory Spec2Isabelle
  imports Tree_Hash Oaes_Mode Oaes_Print Aesb Int_Util Slow_Hash Slow_Hash_X86 Chacha Blake256_Stream Scrypt Dcrypt Multihash
    Scalar_Ops Group
begin

text \<open>
  \<^bold>\<open>Miningcore, native hash libraries.\<close>
  Miningcore is a mining pool.  Its server is written in C#; everything that has to agree bit by bit with
  the coins it serves is C code in two libraries under \<^verbatim>\<open>src/src/Native\<close>: \<^verbatim>\<open>libcryptonote\<close> (Keccak, the Merkle tree
  of a block, AES, the CryptoNight slow hash, ChaCha, BLAKE, Ed25519) and \<^verbatim>\<open>libmultihash\<close> (SHA-256 with HMAC and PBKDF2,
  scrypt, dcrypt, the chained X-hashes).  This development models these parts and relates them to the
  standards they implement.

  \<^bold>\<open>Conventions.\<close>
  Unsigned integers are words of their width; \<open>size_t\<close> lengths and loop counters are natural numbers where the
  code cannot wrap and words where it can.  A byte array is a list of bytes, a pointer to an optional object
  an option.  A machine with little-endian words and 64-bit \<open>size_t\<close> is assumed, as the build files do.
  Errors are values: the return codes of OpenAES as a datatype, aborts and failed assertions as the left side
  of a sum, accesses outside an array as \<open>None\<close>.  Content of uninitialised memory, allocators and the C library
  are arguments; theorems hold for all of them unless a hypothesis says otherwise.

  \<^bold>\<open>Theories.\<close>
  \<^item> \<open>Prelude\<close>: words, byte arrays, reading and writing of slices, cutting into blocks; the collections
    \<open>byte_simps\<close>, \<open>mem_simps\<close> and \<open>xor_simps\<close>.
  \<^item> \<open>Keccak\<close> (\<^verbatim>\<open>crypto/keccak.c\<close>, \<^verbatim>\<open>hash.c\<close>): the permutation equals Keccak-p of the standard, the sponge, every way
    a call can end (a digest, an abort, an endless loop).  \<open>keccak_absorb\<close> is a partial function in the option
    type, so an endless loop is \<open>None\<close>.
  \<^item> \<open>Tree_Hash\<close> (\<^verbatim>\<open>tree-hash.c\<close>): the in-place levels compute the root of a balanced tree; binding.
  \<^item> \<open>Oaes_Tables\<close>, \<open>Oaes_Key\<close>, \<open>Oaes_Block\<close>, \<open>Oaes_Mode\<close>, \<open>Oaes_Print\<close> (\<^verbatim>\<open>oaes_lib.c\<close>): the tables against the field
    arithmetic, key schedule and cipher against FIPS 197, message encryption with header, padding and CBC and
    its round trip, contexts as an inductive set of reachable states in which nothing leaks, the text dump.
  \<^item> \<open>Aesb\<close> (\<^verbatim>\<open>aesb.c\<close>): the rounds by table lookup equal the byte-wise rounds.
  \<^item> \<open>Int_Util\<close> (\<^verbatim>\<open>common/int-util.h\<close>): 128-bit product and division, byte order.
  \<^item> \<open>Slow_Hash\<close>, \<open>Slow_Hash_X86\<close> (\<^verbatim>\<open>slow-hash.c\<close>, \<^verbatim>\<open>slow-hash-lite.c\<close>): the portable build and the x86-64 build with
    AES instructions or tables both compute CryptoNight or stop in one of the listed ways, hence agree; the
    scratchpad of a thread never leaks.
  \<^item> \<open>Chacha\<close> (\<^verbatim>\<open>chacha.c\<close>, \<^verbatim>\<open>chacha8.c\<close>): the key stream, encryption twice is the identity, the two files agree.
  \<^item> \<open>Stream_Hash\<close>: the interface of a hash fed in pieces and of HMAC over it, as locales.
  \<^item> \<open>Blake256\<close>, \<open>Blake256_Stream\<close> (\<^verbatim>\<open>blake256.c\<close>, \<^verbatim>\<open>hash-extra-blake.c\<close>): compression, padding and streaming against
    the BLAKE specification, HMAC; the interpretations of the locales for both digest sizes.
  \<^item> \<open>Sha256\<close>, \<open>Sha256_Stream\<close> (\<^verbatim>\<open>libmultihash/sha256.h\<close>): SHA-256, HMAC and PBKDF2 against their standards; the
    interpretations for SHA-256.
  \<^item> \<open>Scrypt\<close> (\<^verbatim>\<open>scryptn.c\<close>): scrypt against RFC 7914, inside its scratchpad; the parameters that leave it.
  \<^item> \<open>Dcrypt\<close> (\<^verbatim>\<open>dcrypt.c\<close>): its own SHA-256, the mixing loop, the buffer it overruns.
  \<^item> \<open>Multihash\<close> (\<^verbatim>\<open>x11.c\<close> to \<^verbatim>\<open>x17.c\<close>, \<^verbatim>\<open>c11.c\<close>, \<^verbatim>\<open>nist5.c\<close>, \<^verbatim>\<open>qubit.c\<close>, \<^verbatim>\<open>fresh.c\<close>, \<^verbatim>\<open>s3.c\<close>, \<^verbatim>\<open>quark.c\<close>, \<^verbatim>\<open>x16r.c\<close>, \<^verbatim>\<open>x16s.c\<close>,
    \<^verbatim>\<open>hefty1.c\<close>): the chains as compositions, the orders taken from the block header, the bit interleaving.
  \<^item> \<open>Limbs\<close>: straight-line code on arrays of signed limbs with every operation checked for overflow, and two
    analyses of such code with their soundness: intervals and weights.
  \<^item> \<open>Scalar\<close>, \<open>Scalar_Ops\<close> (\<^verbatim>\<open>crypto-ops.c\<close>: \<open>sc_*\<close>, \<^verbatim>\<open>ringct/rctCryptoOps.c\<close>): arithmetic modulo the group order on
    twelve or 24 limbs of 21 bits; every function returns the canonical residue and nothing overflows.
  \<^item> \<open>Field\<close>, \<open>Field_Bytes\<close> (\<^verbatim>\<open>crypto-ops.c\<close>: \<open>fe_*\<close>): arithmetic modulo \<open>2 ^ 255 - 19\<close> on ten limbs within the bounds
    that the comments of the source state, the power chains, canonical bytes, sign and zero tests, loading.
  \<^item> \<open>Group\<close> (\<^verbatim>\<open>crypto-ops.c\<close>: \<open>ge_*\<close>): points in five coordinate systems over the ring of residues as a type;
    every operation keeps the limb bounds and the curve equation, addition is the affine law of the curve,
    decompression in all its outcomes and as the inverse of compression.  Primality of \<open>2 ^ 255 - 19\<close> is not
    used: where a denominator has to be invertible, a hypothesis says so.

  This theory has the property that spans the hash, the cipher, the permutation and BLAKE: the slow hash with
  the modelled BLAKE as one of its final functions.

  \<^bold>\<open>Bounds.\<close>
  No model uses fuel.  Loops whose end depends on the data are functions with a termination proof
  (the dcrypt mixing by the length of its text, block loops by the bytes left) or partial functions in the
  option type.  Sizes such as the 2 MB scratchpad of CryptoNight are those of the code; the size and the number
  of iterations are arguments of one definition because two files differ only in them.

  \<^bold>\<open>Not modelled.\<close>
  The C# server, the C++ parts of \<^verbatim>\<open>libcryptonote\<close> (block parsing, epee, ring signatures), scalar multiplication
  of points with its tables and the map from bytes to points, and the exported C++
  entry points; the vendored \<^verbatim>\<open>sph_\<close> hash functions, Groestl, JH and Skein of \<^verbatim>\<open>libcryptonote\<close>, which are arguments of
  the functions that call them; the random generator (it reads the system);
  the ARM builds of the slow hash (inline assembler, and a 32-bit version with the structure of the portable
  one); NeoScrypt, Lyra2, scrypt-jane, bcrypt and Ethash, which are the next candidates.
\<close>

section \<open>The slow hash with BLAKE as a final function\<close>

lemma length_hash_permutation: "length (hash_permutation st) = 200"
  using keccakf_24 [of "words_of 8 25 st"] by (simp add: hash_permutation_def KECCAK_ROUNDS_def)

text \<open>The final state always has 200 bytes, so BLAKE may be replaced by its specification.\<close>

lemma cryptonight_blake:
  assumes "length bst = 64"
  shows "cryptonight memory iter (hash_extra_blake bst # rest) variant data st
    = cryptonight memory iter (blake256_digest # rest) variant data st"
proof -
  have "hash_extra_blake bst (hash_permutation x) = blake256_digest (hash_permutation x)" for x
    using blake256.hash_digest [OF assms, of "hash_permutation x"] length_hash_permutation [of x]
    by (simp add: hash_extra_blake_def blake256_hash_def update_bytes_def)
  then have "extra_hash (hash_extra_blake bst # rest) (hash_permutation x) = extra_hash (blake256_digest # rest) (hash_permutation x)" for x
    by (simp add: extra_hash_def nth_Cons')
  then show ?thesis by (simp add: cryptonight_def split: prod.splits)
qed

text \<open>C11: (slow hash, hash and cipher together) With the BLAKE of the library as its first final function,
  whatever its stack holds, \<open>cn_slow_hash\<close> computes CryptoNight with the BLAKE-256 of the specification there, or
  stops in one of the three ways with the exact condition of each.
\<close>

theorem cn_slow_hash_with_blake:
  assumes "length stack = 200" "length long_state = MEMORY" "length bst = 64"
  shows "\<exists>r L'. cn_slow_hash_portable (hash_extra_blake bst # rest) stack long_state data variant prehashed L = (r, L') \<and>
    (if prehashed \<and> 200 < length data then r = Inl Buffer_Overflow
     else if variant > 0 \<and> length data < 43 then r = Inl Short_Data
     else r = Inl Null_Pointer \<and> (\<exists>n. \<not> alloc_ok L n)
        \<or> r = Inr (cryptonight MEMORY ITER (blake256_digest # rest) variant data (cn_state stack data prehashed))
          \<and> live L' = live L)"
  unfolding cn_slow_hash_portable_def cryptonight_blake [OF assms(3), symmetric]
  using cn_state_cases [OF memory_constants_ok(1) assms(1,2)] by blast

theorem cn_slow_hash_with_blake_witness:
  "fst (cn_slow_hash_portable [hash_extra_blake (replicate 64 0)] (replicate 200 0) (replicate MEMORY 0) [1, 2, 3] 1 False plenty)
    = Inl Short_Data"
  using cn_slow_hash_with_blake [of "replicate 200 0" "replicate MEMORY 0" "replicate 64 0" "[]" "[1, 2, 3]" 1 False plenty]
  by auto

end
